(* ===== verification/Prelude.thy ===== *)
theory Prelude
  imports Main "HOL-Library.Word"
begin

text \<open>
  The shared base of the development: how a C function of the kernel can end (\<open>res\<close>), the
  integer types of the 32-bit target, bytes, and the generic lemmas on lists and loops that the
  component theories use. The collections \<open>res_simps\<close> (evaluation of the result monad) and
  \<open>c_arith\<close> (C integer conversions) are what the component proofs pass to the simplifier.
\<close>

unbundle bit_operations_syntax

named_theorems res_simps \<open>evaluation and inversion of the result monad\<close>
named_theorems c_arith \<open>conversions between the C integer types\<close>

section \<open>How a call ends\<close>

text \<open>
  A call returns normally (\<open>Inr\<close>), or it never returns to its caller (\<open>Inl\<close>):
  \<open>panic(msg)\<close>, spinning on a lock that another CPU holds, sleeping for an event that only
  another thread of control can cause, an access that C leaves undefined (out of bounds), or
  the endless loop that a CPU enters after another one has panicked (\<open>Halted\<close>).
\<close>

datatype stop =
    Panic string
  | Spin
  | Asleep
  | Undef string
  | Halted

type_synonym 'a res = "stop + 'a"

definition bindr :: "'a res \<Rightarrow> ('a \<Rightarrow> 'b res) \<Rightarrow> 'b res" where
  "bindr m f = (case m of Inl e \<Rightarrow> Inl e | Inr x \<Rightarrow> f x)"

definition returns :: "'a res \<Rightarrow> ('a \<Rightarrow> bool) \<Rightarrow> bool" where
  "returns m Q = (case m of Inl e \<Rightarrow> False | Inr x \<Rightarrow> Q x)"

text \<open>A \<open>for\<close> loop whose body runs once for each element of a list, and may stop.\<close>

fun for_each :: "'x list \<Rightarrow> ('x \<Rightarrow> 's \<Rightarrow> 's res) \<Rightarrow> 's \<Rightarrow> 's res" where
  "for_each [] f s = Inr s"
| "for_each (x # xs) f s = bindr (f x s) (for_each xs f)"

lemma bindr_Inr [simp, res_simps]: "bindr (Inr x) f = f x"
  and bindr_Inl [simp, res_simps]: "bindr (Inl e) f = Inl e"
  by (simp_all add: bindr_def)

lemma bindr_assoc [res_simps]: "bindr (bindr m f) g = bindr m (\<lambda>x. bindr (f x) g)"
  by (simp add: bindr_def split: sum.split)

lemma bindr_eq_Inr: "bindr m f = Inr y \<longleftrightarrow> (\<exists>x. m = Inr x \<and> f x = Inr y)"
  by (simp add: bindr_def split: sum.split)

lemma bindr_if: "bindr (if b then m else m') f = (if b then bindr m f else bindr m' f)"
  by simp

lemma bindr_cong [fundef_cong]:
  "m = m' \<Longrightarrow> (\<And>x. m' = Inr x \<Longrightarrow> f x = g x) \<Longrightarrow> bindr m f = bindr m' g"
  by (simp add: bindr_def split: sum.split)

lemma returns_Inr [simp, res_simps]: "returns (Inr x) Q = Q x"
  and returns_Inl [simp, res_simps]: "returns (Inl e) Q = False"
  by (simp_all add: returns_def)

lemma returns_bindr [simp, res_simps]: "returns (bindr m f) Q = returns m (\<lambda>x. returns (f x) Q)"
  by (simp add: bindr_def returns_def split: sum.split)

lemma returns_if [res_simps]:
  "returns (if b then m else m') Q = (if b then returns m Q else returns m' Q)"
  by simp

lemma returns_iff: "returns m Q \<longleftrightarrow> (\<exists>x. m = Inr x \<and> Q x)"
  by (simp add: returns_def split: sum.split)

lemma returnsE [elim?]: "returns m Q \<Longrightarrow> (\<And>x. m = Inr x \<Longrightarrow> Q x \<Longrightarrow> P) \<Longrightarrow> P"
  by (auto simp: returns_iff)

lemma returns_mono: "returns m Q \<Longrightarrow> (\<And>x. Q x \<Longrightarrow> R x) \<Longrightarrow> returns m R"
  by (auto simp: returns_iff)

lemma returns_conj: "returns m Q \<Longrightarrow> returns m R \<Longrightarrow> returns m (\<lambda>x. Q x \<and> R x)"
  by (auto simp: returns_iff)

lemma for_each_append [simp]: "for_each (xs @ ys) f s = bindr (for_each xs f s) (for_each ys f)"
proof (induction xs arbitrary: s)
  case (Cons x xs)
  then have "for_each (xs @ ys) f = (\<lambda>s. bindr (for_each xs f s) (for_each ys f))" by (rule ext)
  then show ?case by (simp add: bindr_assoc)
qed simp

text \<open>The loop rule: an invariant over the elements already done, with normal return.\<close>

lemma for_each_rule:
  assumes "I [] s"
    and "\<And>ys y zs s. xs = ys @ y # zs \<Longrightarrow> I ys s \<Longrightarrow> returns (f y s) (I (ys @ [y]))"
  shows "returns (for_each xs f s) (I xs)"
proof -
  have "returns (for_each zs f s) (I (ys @ zs))" if "xs = ys @ zs" "I ys s" for ys zs s
    using that
  proof (induction zs arbitrary: ys s)
    case (Cons z zs)
    from Cons.prems have "returns (f z s) (I (ys @ [z]))" by (intro assms(2)) auto
    then obtain s' where s': "f z s = Inr s'" "I (ys @ [z]) s'" by (auto simp: returns_iff)
    from Cons.IH [of "ys @ [z]" s'] Cons.prems s' show ?case by simp
  qed simp
  from this [of "[]" xs s] assms(1) show ?thesis by simp
qed

lemma for_each_inv:
  assumes "I s" and "\<And>x s. x \<in> set xs \<Longrightarrow> I s \<Longrightarrow> returns (f x s) I"
  shows "returns (for_each xs f s) I"
  using for_each_rule [of "\<lambda>_. I" s xs f] assms by simp

lemma for_each_frame:
  assumes "for_each xs f s = Inr s'" and "\<And>x s s'. f x s = Inr s' \<Longrightarrow> p s' = p s"
  shows "p s' = p s"
  using assms(1) by (induction xs arbitrary: s) (auto simp: bindr_eq_Inr dest: assms(2))

section \<open>Integers of the target machine\<close>

text \<open>
  \<open>uint\<close> values are natural numbers below \<open>2 ^ 32\<close>, \<open>int\<close> values are integers; arithmetic on
  \<open>uint\<close> is followed by \<open>u32\<close>, which is also the conversion of an \<open>int\<close> to \<open>uint\<close>, and
  \<open>i32\<close> is the conversion back. A C \<open>char\<close> is a byte; it is signed on this target, so
  reading it as an \<open>int\<close> is \<open>schar\<close> and as \<open>uchar\<close> is \<open>of_char\<close>; storing an \<open>int\<close> in a
  \<open>char\<close> is \<open>char_of\<close>, which keeps the low eight bits.
\<close>

definition u32 :: "int \<Rightarrow> nat" where
  "u32 i = nat (i mod 2 ^ 32)"

definition i32 :: "nat \<Rightarrow> int" where
  "i32 n = (if n < 2 ^ 31 then int n else int n - 2 ^ 32)"

definition schar :: "char \<Rightarrow> int" where
  "schar c = (if (of_char c :: int) < 128 then of_char c else of_char c - 256)"

abbreviation nul :: char where "nul \<equiv> CHR 0x00"

lemma u32_id [simp, c_arith]: "0 \<le> i \<Longrightarrow> i < 4294967296 \<Longrightarrow> u32 i = nat i"
  by (simp add: u32_def)

lemma u32_int [simp, c_arith]: "n < 4294967296 \<Longrightarrow> u32 (int n) = n"
  by (simp add: u32_def)

lemma u32_less [simp]: "u32 i < 4294967296"
  by (simp add: u32_def nat_less_iff)

lemma u32_Suc [c_arith]: "n + 1 < 4294967296 \<Longrightarrow> u32 (int n + 1) = n + 1"
  by (simp add: u32_def nat_add_distrib)

lemma i32_small [simp, c_arith]: "n < 2147483648 \<Longrightarrow> i32 n = int n"
  by (simp add: i32_def)

lemma u32_i32 [c_arith]: "n < 4294967296 \<Longrightarrow> u32 (i32 n) = n"
  by (auto simp: u32_def i32_def)

lemma char_of_schar [simp, c_arith]: "char_of (schar c) = c"
proof -
  have "(of_char c - 256 :: int) mod 256 = of_char c mod 256"
    by (metis minus_mod_self2)
  then have "(char_of (of_char c - 256 :: int) :: char) = char_of (of_char c :: int)"
    by (metis char_of_mod_256)
  then show ?thesis by (simp add: schar_def)
qed

lemma of_char_bounds: "0 \<le> (of_char c :: int)" "(of_char c :: int) < 256"
  using pos_mod_sign [of 256 "of_char c :: int"] pos_mod_bound [of 256 "of_char c :: int"]
  by simp_all

lemma schar_bounds: "- 128 \<le> schar c" "schar c < 128"
  using of_char_bounds [of c] by (auto simp: schar_def)

end
