(* ===== verification/CString.thy ===== *)
theory CString
  imports Prelude
begin

text \<open>
  The kernel's string and memory routines (string.c) and the string routines of the user
  library (ulib.c). Memory is a function from addresses to bytes. A pointer that a routine only
  reads through is the sequence of bytes from it on (\<open>p i\<close> is \<open>p[i]\<close>), so one definition serves
  both memory (\<open>bytes_at m a\<close>) and a literal (\<open>cstr s\<close>). Routines that write take and return the
  memory. The \<open>rep stosb\<close> and \<open>rep stosl\<close> instructions of x86.h are their architectural effect.
\<close>

type_synonym mem = "nat \<Rightarrow> char"
type_synonym ptr = "nat \<Rightarrow> char"

definition bytes_at :: "mem \<Rightarrow> nat \<Rightarrow> ptr" where
  "bytes_at m a = (\<lambda>i. m (a + i))"

definition cstr :: "string \<Rightarrow> ptr" where
  "cstr s = (\<lambda>i. if i < length s then s ! i else nul)"

abbreviation nxt :: "ptr \<Rightarrow> ptr" where "nxt p \<equiv> (\<lambda>i. p (Suc i))"

text \<open>\<open>is_cstr p s\<close>: the bytes at \<open>p\<close> are the string \<open>s\<close> and its terminating NUL.\<close>

definition is_cstr :: "ptr \<Rightarrow> string \<Rightarrow> bool" where
  "is_cstr p s \<longleftrightarrow> (\<forall>i < length s. p i = s ! i \<and> s ! i \<noteq> nul) \<and> p (length s) = nul"

section \<open>Definitions: string.c\<close>

definition store32 :: "mem \<Rightarrow> nat \<Rightarrow> int \<Rightarrow> mem" where
  "store32 m a v = m(a := char_of v, a + 1 := char_of (drop_bit 8 v),
     a + 2 := char_of (drop_bit 16 v), a + 3 := char_of (drop_bit 24 v))"

definition load32 :: "mem \<Rightarrow> nat \<Rightarrow> int" where
  "load32 m a = of_char (m a) + 2 ^ 8 * of_char (m (a + 1)) + 2 ^ 16 * of_char (m (a + 2))
     + 2 ^ 24 * of_char (m (a + 3))"

fun stosb :: "nat \<Rightarrow> int \<Rightarrow> nat \<Rightarrow> mem \<Rightarrow> mem" where
  "stosb a d 0 m = m"
| "stosb a d (Suc n) m = stosb (a + 1) d n (m(a := char_of d))"

fun stosl :: "nat \<Rightarrow> int \<Rightarrow> nat \<Rightarrow> mem \<Rightarrow> mem" where
  "stosl a d 0 m = m"
| "stosl a d (Suc n) m = stosl (a + 4) d n (store32 m a d)"

definition memset :: "nat \<Rightarrow> int \<Rightarrow> nat \<Rightarrow> mem \<Rightarrow> mem" where
  "memset dst c n m =
     (if dst mod 4 = 0 \<and> n mod 4 = 0 then
        (let c = c AND 0xFF
         in stosl dst (push_bit 24 c OR push_bit 16 c OR push_bit 8 c OR c) (n div 4) m)
      else stosb dst c n m)"

fun memcmp :: "ptr \<Rightarrow> ptr \<Rightarrow> nat \<Rightarrow> int" where
  "memcmp s1 s2 0 = 0"
| "memcmp s1 s2 (Suc n) =
     (if s1 0 \<noteq> s2 0 then of_char (s1 0) - of_char (s2 0) else memcmp (nxt s1) (nxt s2) n)"

fun copy_down :: "nat \<Rightarrow> nat \<Rightarrow> nat \<Rightarrow> mem \<Rightarrow> mem" where
  "copy_down d s 0 m = m"
| "copy_down d s (Suc n) m = copy_down (d - 1) (s - 1) n (m(d - 1 := m (s - 1)))"

fun copy_up :: "nat \<Rightarrow> nat \<Rightarrow> nat \<Rightarrow> mem \<Rightarrow> mem" where
  "copy_up d s 0 m = m"
| "copy_up d s (Suc n) m = copy_up (d + 1) (s + 1) n (m(d := m s))"

definition memmove :: "nat \<Rightarrow> nat \<Rightarrow> nat \<Rightarrow> mem \<Rightarrow> mem" where
  "memmove dst src n m =
     (if src < dst \<and> src + n > dst then copy_down (dst + n) (src + n) n m
      else copy_up dst src n m)"

definition memcpy :: "nat \<Rightarrow> nat \<Rightarrow> nat \<Rightarrow> mem \<Rightarrow> mem" where
  "memcpy dst src n m = memmove dst src n m"

fun strncmp :: "ptr \<Rightarrow> ptr \<Rightarrow> nat \<Rightarrow> int" where
  "strncmp p q 0 = 0"
| "strncmp p q (Suc n) =
     (if p 0 \<noteq> nul \<and> p 0 = q 0 then strncmp (nxt p) (nxt q) n
      else of_char (p 0) - of_char (q 0))"

text \<open>
  The two loops of \<open>strncpy\<close>, with the values \<open>s\<close> and \<open>n\<close> have when the first one ends; the
  post-decrement leaves \<open>n = -1\<close> when the count ran out.
\<close>

function strncpy_copy :: "nat \<Rightarrow> nat \<Rightarrow> int \<Rightarrow> mem \<Rightarrow> nat \<times> int \<times> mem" where
  "strncpy_copy s t n m =
     (if n > 0 then
        (let c = m t; m' = m(s := c)
         in if c \<noteq> nul then strncpy_copy (s + 1) (t + 1) (n - 1) m' else (s + 1, n - 1, m'))
      else (s, n - 1, m))"
  by pat_completeness auto
termination by (relation "measure (\<lambda>(s, t, n, m). nat n)") auto

function strncpy_fill :: "nat \<Rightarrow> int \<Rightarrow> mem \<Rightarrow> mem" where
  "strncpy_fill s n m = (if n > 0 then strncpy_fill (s + 1) (n - 1) (m(s := nul)) else m)"
  by pat_completeness auto
termination by (relation "measure (\<lambda>(s, n, m). nat n)") auto

definition strncpy :: "nat \<Rightarrow> nat \<Rightarrow> int \<Rightarrow> mem \<Rightarrow> mem" where
  "strncpy s t n m = (case strncpy_copy s t n m of (s', n', m') \<Rightarrow> strncpy_fill s' n' m')"

function safestrcpy_loop :: "nat \<Rightarrow> nat \<Rightarrow> int \<Rightarrow> mem \<Rightarrow> nat \<times> mem" where
  "safestrcpy_loop s t n m =
     (if n - 1 > 0 then
        (let c = m t; m' = m(s := c)
         in if c \<noteq> nul then safestrcpy_loop (s + 1) (t + 1) (n - 1) m' else (s + 1, m'))
      else (s, m))"
  by pat_completeness auto
termination by (relation "measure (\<lambda>(s, t, n, m). nat n)") auto

definition safestrcpy :: "nat \<Rightarrow> nat \<Rightarrow> int \<Rightarrow> mem \<Rightarrow> mem" where
  "safestrcpy s t n m =
     (if n \<le> 0 then m else (case safestrcpy_loop s t n m of (s', m') \<Rightarrow> m'(s' := nul)))"

text \<open>\<open>strlen\<close> runs on until it meets a NUL: \<open>None\<close> when there is none.\<close>

partial_function (option) strlen_from :: "ptr \<Rightarrow> nat \<Rightarrow> nat option" where
  "strlen_from s n = (if s n \<noteq> nul then strlen_from s (n + 1) else Some n)"

definition strlen :: "ptr \<Rightarrow> nat option" where
  "strlen s = strlen_from s 0"

declare strncpy_copy.simps [simp del] strncpy_fill.simps [simp del]
  safestrcpy_loop.simps [simp del]

section \<open>Definitions: ulib.c\<close>

text \<open>
  In the user library a string argument is the list of its bytes before the NUL; \<open>p++\<close> is the
  tail. \<open>strchr\<close> returns the offset of the first match.
\<close>

fun u_strcmp :: "string \<Rightarrow> string \<Rightarrow> int" where
  "u_strcmp (p # ps) (q # qs) = (if p = q then u_strcmp ps qs else of_char p - of_char q)"
| "u_strcmp (p # ps) [] = of_char p - 0"
| "u_strcmp [] (q # qs) = 0 - of_char q"
| "u_strcmp [] [] = 0"

fun strchr :: "string \<Rightarrow> char \<Rightarrow> nat option" where
  "strchr [] c = None"
| "strchr (x # xs) c = (if x = c then Some 0 else map_option Suc (strchr xs c))"

fun atoi_loop :: "int \<Rightarrow> string \<Rightarrow> int" where
  "atoi_loop n [] = n"
| "atoi_loop n (c # cs) =
     (if schar CHR ''0'' \<le> schar c \<and> schar c \<le> schar CHR ''9''
      then atoi_loop (n * 10 + schar c - schar CHR ''0'') cs else n)"

definition atoi :: "string \<Rightarrow> int" where
  "atoi s = atoi_loop 0 s"

definition u_memset :: "nat \<Rightarrow> int \<Rightarrow> nat \<Rightarrow> mem \<Rightarrow> mem" where
  "u_memset dst c n m = stosb dst c n m"

function u_memmove :: "nat \<Rightarrow> nat \<Rightarrow> int \<Rightarrow> mem \<Rightarrow> mem" where
  "u_memmove dst src n m =
     (if n > 0 then u_memmove (dst + 1) (src + 1) (n - 1) (m(dst := m src)) else m)"
  by pat_completeness auto
termination by (relation "measure (\<lambda>(d, s, n, m). nat n)") auto

partial_function (option) u_strcpy :: "nat \<Rightarrow> nat \<Rightarrow> mem \<Rightarrow> mem option" where
  "u_strcpy s t m =
     (let m' = m(s := m t) in if m t \<noteq> nul then u_strcpy (s + 1) (t + 1) m' else Some m')"

declare u_memmove.simps [simp del]

section \<open>Facts on memory and strings\<close>

definition put_bytes :: "mem \<Rightarrow> nat \<Rightarrow> char list \<Rightarrow> mem" where
  "put_bytes m a bs = (\<lambda>x. if a \<le> x \<and> x < a + length bs then bs ! (x - a) else m x)"

lemma put_bytes_Nil [simp]: "put_bytes m a [] = m"
  by (auto simp: put_bytes_def fun_eq_iff)

lemma put_bytes_Cons: "put_bytes m a (b # bs) = put_bytes (m(a := b)) (a + 1) bs"
  by (auto simp: put_bytes_def nth_Cons' fun_eq_iff)

lemma put_bytes_other [simp]: "x < a \<or> a + length bs \<le> x \<Longrightarrow> put_bytes m a bs x = m x"
  by (auto simp: put_bytes_def)

lemma put_bytes_at [simp]: "i < length bs \<Longrightarrow> put_bytes m a bs (a + i) = bs ! i"
  by (simp add: put_bytes_def)

lemma of_char_nul: "(of_char c :: int) = 0 \<longleftrightarrow> c = nul"
proof -
  have "(of_char nul :: int) = 0" by simp
  then show ?thesis by (metis of_char_eq_iff)
qed

lemma is_cstr_Nil [simp]: "is_cstr p [] \<longleftrightarrow> p 0 = nul"
  by (simp add: is_cstr_def)

lemma is_cstr_Cons [simp]: "is_cstr p (c # s) \<longleftrightarrow> p 0 = c \<and> c \<noteq> nul \<and> is_cstr (nxt p) s"
  by (auto simp: is_cstr_def All_less_Suc2)

lemma is_cstr_nonul: "is_cstr p s \<Longrightarrow> nul \<notin> set s"
  by (auto simp: is_cstr_def in_set_conv_nth)

lemma is_cstr_cstr [simp]: "is_cstr (cstr s) s \<longleftrightarrow> nul \<notin> set s"
  by (auto simp: is_cstr_def cstr_def in_set_conv_nth)

lemma bytes_at_nxt: "nxt (bytes_at m a) = bytes_at m (Suc a)"
  by (simp add: bytes_at_def)

lemma bytes_at_0 [simp]: "bytes_at m a 0 = m a"
  by (simp add: bytes_at_def)

lemma bytes_at_upd [simp]:
  "is_cstr (bytes_at m t) str \<Longrightarrow> s < t \<or> t + length str < s \<Longrightarrow>
     is_cstr (bytes_at (m(s := c)) t) str"
  by (auto simp: is_cstr_def bytes_at_def)

section \<open>string.c does what its callers rely on\<close>

lemma stosb_eq: "stosb a d n m = (\<lambda>x. if a \<le> x \<and> x < a + n then char_of d else m x)"
  by (induction n arbitrary: a m) (auto simp: fun_eq_iff)

lemma fill_word:
  assumes "w = push_bit 24 b OR push_bit 16 b OR push_bit 8 b OR (b :: int)" and "b = c AND 0xFF"
  shows "(char_of w :: char) = char_of c" "(char_of (drop_bit 8 w) :: char) = char_of c"
    "(char_of (drop_bit 16 w) :: char) = char_of c" "(char_of (drop_bit 24 w) :: char) = char_of c"
proof -
  have 255: "(255 :: int) = mask 8" by (simp add: mask_eq_exp_minus_1)
  show "(char_of w :: char) = char_of c" "(char_of (drop_bit 8 w) :: char) = char_of c"
    "(char_of (drop_bit 16 w) :: char) = char_of c" "(char_of (drop_bit 24 w) :: char) = char_of c"
    by (simp_all add: assms char_of_def bit_simps 255)
qed

lemma stosl_eq:
  assumes "(char_of w :: char) = ch" "(char_of (drop_bit 8 w) :: char) = ch"
    "(char_of (drop_bit 16 w) :: char) = ch" "(char_of (drop_bit 24 w) :: char) = ch"
  shows "stosl a w n m = (\<lambda>x. if a \<le> x \<and> x < a + 4 * n then ch else m x)"
proof (induction n arbitrary: a m)
  case (Suc n)
  have "x = a \<or> x = a + 1 \<or> x = a + 2 \<or> x = a + 3" if "a \<le> x" "x < a + 4" for x
    using that by arith
  then show ?case by (auto simp: Suc store32_def assms fun_eq_iff)
qed (auto simp: fun_eq_iff)

lemma memset_eq: "memset dst c n m = (\<lambda>x. if dst \<le> x \<and> x < dst + n then char_of c else m x)"
proof (cases "dst mod 4 = 0 \<and> n mod 4 = 0")
  case True
  then have "4 * (n div 4) = n" by auto
  then show ?thesis
    using True stosl_eq [OF fill_word [OF refl refl, of c], of dst "n div 4" m]
    by (simp add: memset_def Let_def)
qed (auto simp: memset_def stosb_eq)

lemma copy_up_eq:
  "d \<le> s \<or> s + n \<le> d \<Longrightarrow>
     copy_up d s n m = (\<lambda>a. if d \<le> a \<and> a < d + n then m (s + (a - d)) else m a)"
proof (induction n arbitrary: d s m)
  case (Suc n)
  then have "copy_up (d + 1) (s + 1) n (m(d := m s)) =
      (\<lambda>a. if d + 1 \<le> a \<and> a < d + 1 + n then (m(d := m s)) (s + 1 + (a - (d + 1)))
           else (m(d := m s)) a)"
    by (intro Suc.IH) auto
  with Suc.prems show ?case by (auto simp: fun_eq_iff Suc_diff_Suc)
qed (auto simp: fun_eq_iff)

lemma copy_down_eq:
  "n \<le> s \<Longrightarrow> s \<le> d \<Longrightarrow>
     copy_down d s n m = (\<lambda>a. if d - n \<le> a \<and> a < d then m (s - (d - a)) else m a)"
proof (induction n arbitrary: d s m)
  case (Suc n)
  then have "copy_down (d - 1) (s - 1) n (m(d - 1 := m (s - 1))) =
      (\<lambda>a. if d - 1 - n \<le> a \<and> a < d - 1 then (m(d - 1 := m (s - 1))) (s - 1 - (d - 1 - a))
           else (m(d - 1 := m (s - 1))) a)"
    by (intro Suc.IH) auto
  moreover have "s - 1 - (d - 1 - a) = s - (d - a)" if "a < d - 1" for a
    using that Suc.prems by auto
  moreover have "a = d - 1 \<or> a < d - 1" if "a < d" for a using that by arith
  ultimately show ?case using Suc.prems by (auto simp: fun_eq_iff)
qed (auto simp: fun_eq_iff)

lemma memmove_eq:
  "memmove dst src n m = (\<lambda>a. if dst \<le> a \<and> a < dst + n then m (src + (a - dst)) else m a)"
proof (cases "src < dst \<and> src + n > dst")
  case True
  have "src + n - (dst + n - a) = src + (a - dst)" if "dst \<le> a" "a < dst + n" for a
    using that by auto
  with True show ?thesis by (auto simp: memmove_def copy_down_eq fun_eq_iff)
next
  case False
  then show ?thesis using copy_up_eq [of dst src n m] by (auto simp: memmove_def)
qed

lemma memcmp_eq_0: "memcmp p q n = 0 \<longleftrightarrow> (\<forall>i < n. p i = q i)"
  by (induction n arbitrary: p q) (auto simp: All_less_Suc2)

lemma strncmp_eq_0:
  "is_cstr p s \<Longrightarrow> is_cstr q t \<Longrightarrow> strncmp p q n = 0 \<longleftrightarrow> take n s = take n t"
proof (induction n arbitrary: p q s t)
  case (Suc n)
  show ?case
  proof (cases s)
    case Nil
    with Suc.prems show ?thesis by (cases t) (auto simp: of_char_nul)
  next
    case (Cons a as)
    show ?thesis
    proof (cases t)
      case Nil
      with Cons Suc.prems show ?thesis by (auto simp: of_char_nul)
    next
      case (Cons b bs)
      with \<open>s = a # as\<close> Suc.prems Suc.IH [of "nxt p" as "nxt q" bs] show ?thesis by auto
    qed
  qed
qed simp

lemma strlen_from_cstr: "is_cstr p s \<Longrightarrow> i \<le> length s \<Longrightarrow> strlen_from p i = Some (length s)"
proof (induction "length s - i" arbitrary: i)
  case 0
  then show ?case by (subst strlen_from.simps) (auto simp: is_cstr_def)
next
  case (Suc k)
  then have "strlen_from p (i + 1) = Some (length s)" by (intro Suc.hyps) auto
  moreover from Suc have "p i \<noteq> nul" by (auto simp: is_cstr_def)
  ultimately show ?case by (subst strlen_from.simps) simp
qed

lemma strlen_cstr: "is_cstr p s \<Longrightarrow> strlen p = Some (length s)"
  by (simp add: strlen_def strlen_from_cstr)

lemma strncpy_fill_eq: "strncpy_fill s n m = put_bytes m s (replicate (nat n) nul)"
proof (induction s n m rule: strncpy_fill.induct)
  case (1 s n m)
  show ?case
  proof (cases "n > 0")
    case True
    then have "nat n = Suc (nat (n - 1))" by simp
    with True 1 show ?thesis by (simp add: strncpy_fill.simps [of s n m] put_bytes_Cons fun_upd_def)
  qed (simp add: strncpy_fill.simps [of s n m])
qed

lemma strncpy_eq:
  assumes "is_cstr (bytes_at m t) str" and "s + nat n \<le> t \<or> t + length str < s"
  shows "strncpy s t n m = put_bytes m s (take (nat n) str @ replicate (nat n - length str) nul)"
  using assms
proof (induction str arbitrary: s t n m)
  case Nil
  then have t0: "m t = nul" by (simp add: bytes_at_def)
  show ?case
  proof (cases "n > 0")
    case True
    then have "nat n = Suc (nat (n - 1))" by simp
    with True t0 show ?thesis
      by (simp add: strncpy_def strncpy_copy.simps [of s t n m] strncpy_fill_eq put_bytes_Cons)
  qed (simp add: strncpy_def strncpy_copy.simps [of s t n m] strncpy_fill_eq)
next
  case (Cons c str)
  then have t0: "m t = c" "c \<noteq> nul" and t1: "is_cstr (bytes_at m (Suc t)) str"
    by (auto simp: bytes_at_nxt)
  show ?case
  proof (cases "n > 0")
    case True
    then have n: "nat n = Suc (nat (n - 1))" by simp
    from Cons.prems(2) True t1 have "is_cstr (bytes_at (m(s := c)) (t + 1)) str"
      by (auto intro: bytes_at_upd)
    then have "strncpy (s + 1) (t + 1) (n - 1) (m(s := c)) = put_bytes (m(s := c)) (s + 1)
        (take (nat (n - 1)) str @ replicate (nat (n - 1) - length str) nul)"
      using Cons.prems(2) True n by (intro Cons.IH) (auto simp: fun_upd_def)
    with True t0 n show ?thesis
      by (simp add: strncpy_def strncpy_copy.simps [of s t n m] put_bytes_Cons)
  qed (simp add: strncpy_def strncpy_copy.simps [of s t n m] strncpy_fill_eq)
qed

lemma safestrcpy_eq:
  assumes "is_cstr (bytes_at m t) str" and "n > 0" and "s + nat n \<le> t \<or> t + length str < s"
  shows "safestrcpy s t n m = put_bytes m s (take (nat n - 1) str @ [nul]
           @ (if length str < nat n - 1 then [nul] else []))"
  using assms
proof (induction str arbitrary: s t n m)
  case Nil
  then show ?case
    by (auto simp: safestrcpy_def safestrcpy_loop.simps [of s t n m] bytes_at_def put_bytes_Cons)
next
  case (Cons c str)
  then have t0: "m t = c" "c \<noteq> nul" and t1: "is_cstr (bytes_at m (Suc t)) str"
    by (auto simp: bytes_at_nxt)
  show ?case
  proof (cases "n - 1 > 0")
    case True
    then have n: "nat n = Suc (nat (n - 1))" "nat (n - 1) = Suc (nat (n - 2))" by auto
    from Cons.prems(3) True t1 have "is_cstr (bytes_at (m(s := c)) (t + 1)) str"
      by (auto intro: bytes_at_upd)
    then have "safestrcpy (s + 1) (t + 1) (n - 1) (m(s := c)) = put_bytes (m(s := c)) (s + 1)
        (take (nat (n - 1) - 1) str @ [nul]
          @ (if length str < nat (n - 1) - 1 then [nul] else []))"
      using Cons.prems(3) True n by (intro Cons.IH) (auto simp: fun_upd_def)
    with True t0 n show ?thesis
      by (simp add: safestrcpy_def safestrcpy_loop.simps [of s t n m] put_bytes_Cons)
  next
    case False
    with Cons.prems(2) have "n = 1" by simp
    then show ?thesis
      by (simp add: safestrcpy_def safestrcpy_loop.simps [of s t 1 m] put_bytes_Cons)
  qed
qed

section \<open>ulib.c\<close>

lemma u_memmove_eq:
  "dst \<le> src \<or> src + nat n \<le> dst \<Longrightarrow>
     u_memmove dst src n m = (\<lambda>a. if dst \<le> a \<and> a < dst + nat n then m (src + (a - dst)) else m a)"
proof -
  have "u_memmove dst src n m = copy_up dst src (nat n) m"
  proof (induction dst src n m rule: u_memmove.induct)
    case (1 dst src n m)
    show ?case
    proof (cases "n > 0")
      case True
      then have "nat n = Suc (nat (n - 1))" by simp
      with True 1 show ?thesis by (simp add: u_memmove.simps [of dst src n m] fun_upd_def)
    qed (simp add: u_memmove.simps [of dst src n m])
  qed
  then show "dst \<le> src \<or> src + nat n \<le> dst \<Longrightarrow> ?thesis" using copy_up_eq by simp
qed

lemma u_strcmp_eq_0: "u_strcmp s t = 0 \<longleftrightarrow> s = t" if "nul \<notin> set s" "nul \<notin> set t"
  using that
proof (induction s t rule: u_strcmp.induct)
  case (1 p ps q qs)
  then show ?case by auto
qed (auto simp: of_char_nul)

lemma strchr_Some: "strchr s c = Some i \<longleftrightarrow> i < length s \<and> s ! i = c \<and> c \<notin> set (take i s)"
proof (induction s arbitrary: i)
  case (Cons x xs)
  then show ?case by (cases i) auto
qed simp

lemma strchr_None [simp]: "strchr s c = None \<longleftrightarrow> c \<notin> set s"
  by (induction s) auto

section \<open>Properties\<close>

text \<open>
  C17. Kernel memmove copies as if through a temporary buffer: for every source, destination and
  length, overlapping or not, byte \<open>i\<close> of the destination is what byte \<open>i\<close> of the source was
  before the call, and nothing else changes.
\<close>
theorem memmove_correct:
  "memmove dst src n m = (\<lambda>a. if dst \<le> a \<and> a < dst + n then m (src + (a - dst)) else m a)"
  by (rule memmove_eq)

text \<open>
  C26. Kernel memset fills exactly the \<open>n\<close> bytes at \<open>dst\<close> with the low byte of \<open>c\<close>, also on the
  path that stores whole words because \<open>dst\<close> and \<open>n\<close> are multiples of four.
\<close>
theorem memset_correct:
  "memset dst c n m = (\<lambda>a. if dst \<le> a \<and> a < dst + n then char_of c else m a)"
  by (rule memset_eq)

text \<open>
  C27. safestrcpy with a positive size leaves a terminated string: the longest prefix of the source
  that fits in \<open>n - 1\<close> bytes, and it writes nothing outside the \<open>n\<close> bytes of the destination.
\<close>
theorem safestrcpy_terminates:
  assumes "is_cstr (bytes_at m t) str" and "n > 0" and "s + nat n \<le> t \<or> t + length str < s"
  shows "is_cstr (bytes_at (safestrcpy s t n m) s) (take (nat n - 1) str)
    \<and> (\<forall>a. a < s \<or> s + nat n \<le> a \<longrightarrow> safestrcpy s t n m a = m a)"
proof -
  define k where "k = length (take (nat n - 1) str)"
  define bs where "bs = take (nat n - 1) str @ [nul] @ (if length str < nat n - 1 then [nul] else [])"
  have r: "safestrcpy s t n m = put_bytes m s bs" using safestrcpy_eq [OF assms] by (simp add: bs_def)
  have len: "length bs \<le> nat n" "k < length bs" using assms(2) by (auto simp: bs_def k_def)
  have "bs ! i = take (nat n - 1) str ! i" if "i < k" for i
    using that by (simp add: bs_def k_def nth_append)
  moreover have "bs ! k = nul" by (simp add: bs_def k_def nth_append)
  moreover have "str ! i \<noteq> nul" if "i < length str" for i
    using is_cstr_nonul [OF assms(1)] that by (metis nth_mem)
  ultimately show ?thesis
    using len by (auto simp: r is_cstr_def bytes_at_def k_def)
qed

theorem safestrcpy_terminates_witness:
  "is_cstr (bytes_at (safestrcpy 100 0 3 (\<lambda>a. if a < 4 then CHR ''x'' else nul)) 100) ''xx''"
proof -
  have "is_cstr (bytes_at (\<lambda>a. if a < 4 then CHR ''x'' else nul) 0) ''xxxx''"
    by (simp add: bytes_at_def)
  from safestrcpy_terminates [OF this, of 3 100] show ?thesis by simp
qed

text \<open>
  strncmp decides equality of the first \<open>n\<close> characters of two strings: it returns 0 exactly
  when the prefixes of length \<open>n\<close> agree. This is the test that command completion, namecmp and
  the directory code rest on.
\<close>
theorem strncmp_correct:
  assumes "is_cstr p s" and "is_cstr q t"
  shows "strncmp p q n = 0 \<longleftrightarrow> take n s = take n t"
  using assms by (rule strncmp_eq_0)

theorem strncmp_correct_witness:
  "strncmp (cstr ''ca'') (cstr ''cat'') 2 = 0 \<and> strncmp (cstr ''ca'') (cstr ''cat'') 3 \<noteq> 0"
proof -
  have s: "is_cstr (cstr ''ca'') ''ca''" "is_cstr (cstr ''cat'') ''cat''" by (simp_all only: is_cstr_cstr) simp_all
  show ?thesis using strncmp_correct [OF s, of 2] strncmp_correct [OF s, of 3] by simp
qed

text \<open>
  The user library's memmove copies forward only. It does what the kernel's memmove does
  when the destination does not start inside the source.
\<close>
theorem u_memmove_agrees:
  assumes "dst \<le> src \<or> src + nat n \<le> dst"
  shows "u_memmove dst src n m = memmove dst src (nat n) m"
  using u_memmove_eq [OF assms] by (simp add: memmove_eq)

theorem u_memmove_agrees_witness: "u_memmove 0 1 3 (cstr ''abcd'') 2 = CHR ''d''"
  using u_memmove_agrees [of 0 1 3 "cstr ''abcd''"] by (simp add: memmove_eq cstr_def)

text \<open>Inside the source it does not: moving two bytes up by one repeats the first.\<close>

lemma u_memmove_overlap:
  "u_memmove 1 0 2 (cstr ''ab'') 2 = CHR ''a'' \<and> memmove 1 0 2 (cstr ''ab'') 2 = CHR ''b''"
  by (simp add: u_memmove.simps memmove_eq cstr_def)

end
