(* ===== verification/Spinlock.thy ===== *)
theory Spinlock
  imports Prelude
begin

text \<open>
  Spin locks and the per-CPU interrupt nesting (spinlock.c, mycpu of proc.c). The state is a
  record that the other components extend, so that the operations here apply to every larger
  kernel state and provably leave its other fields alone. \<open>lapicid\<close> is the local APIC id of the
  CPU that executes, \<open>eflags_if\<close> the interrupt flag of each CPU by APIC id. The busy loop of
  acquire is one step: it succeeds when the atomic exchange finds the lock free and is \<open>Spin\<close>
  while another CPU holds it. The recorded call stack (pcs, getcallerpcs) is debugging data and
  is left out.
\<close>

section \<open>Definitions\<close>

datatype sleep_id = Buf_lock nat | Inode_lock nat

datatype lock_id =
    Cons_lock | Ptable_lock | Kmem_lock | Ticks_lock | Ide_lock | Bcache_lock
  | Icache_lock | Ftable_lock | Log_lock | Pipe_lock nat | Sleep_lk sleep_id

record spinlock =
  locked :: nat
  lk_name :: string
  lk_cpu :: "nat option"

record cpu =
  apicid :: nat
  ncli :: int
  intena :: bool
  cpu_proc :: "nat option"
  cr3 :: nat
  ts_ss0 :: nat
  ts_esp0 :: nat
  ts_iomb :: nat

record mach =
  cpus :: "nat \<Rightarrow> cpu"
  ncpu :: nat
  lapicid :: nat
  eflags_if :: "nat \<Rightarrow> bool"
  locks :: "lock_id \<Rightarrow> spinlock"

definition readeflags_if :: "'a mach_scheme \<Rightarrow> bool" where
  "readeflags_if s = eflags_if s (lapicid s)"

definition cli :: "'a mach_scheme \<Rightarrow> 'a mach_scheme" where
  "cli s = s\<lparr>eflags_if := (eflags_if s)(lapicid s := False)\<rparr>"

definition sti :: "'a mach_scheme \<Rightarrow> 'a mach_scheme" where
  "sti s = s\<lparr>eflags_if := (eflags_if s)(lapicid s := True)\<rparr>"

definition upd_cpu :: "nat \<Rightarrow> (cpu \<Rightarrow> cpu) \<Rightarrow> 'a mach_scheme \<Rightarrow> 'a mach_scheme" where
  "upd_cpu i f s = s\<lparr>cpus := (cpus s)(i := f (cpus s i))\<rparr>"

definition upd_lock :: "lock_id \<Rightarrow> (spinlock \<Rightarrow> spinlock) \<Rightarrow> 'a mach_scheme \<Rightarrow> 'a mach_scheme" where
  "upd_lock l f s = s\<lparr>locks := (locks s)(l := f (locks s l))\<rparr>"

definition mycpu :: "'a mach_scheme \<Rightarrow> nat res" where
  "mycpu s =
     (if readeflags_if s then Inl (Panic ''mycpu called with interrupts enabled'')
      else case find (\<lambda>i. apicid (cpus s i) = lapicid s) [0..<ncpu s] of
          Some i \<Rightarrow> Inr i
        | None \<Rightarrow> Inl (Panic ''unknown apicid''))"

definition initlock :: "lock_id \<Rightarrow> string \<Rightarrow> 'a mach_scheme \<Rightarrow> 'a mach_scheme" where
  "initlock l name s = upd_lock l (\<lambda>k. k\<lparr>lk_name := name, locked := 0, lk_cpu := None\<rparr>) s"

definition pushcli :: "'a mach_scheme \<Rightarrow> 'a mach_scheme res" where
  "pushcli s =
     (let eflags = readeflags_if s; s = cli s
      in bindr (mycpu s) (\<lambda>i.
           let s = (if ncli (cpus s i) = 0 then upd_cpu i (intena_update (\<lambda>_. eflags)) s else s)
           in Inr (upd_cpu i (\<lambda>c. c\<lparr>ncli := ncli c + 1\<rparr>) s)))"

definition popcli :: "'a mach_scheme \<Rightarrow> 'a mach_scheme res" where
  "popcli s =
     (if readeflags_if s then Inl (Panic ''popcli - interruptible'')
      else bindr (mycpu s) (\<lambda>i.
        let s = upd_cpu i (\<lambda>c. c\<lparr>ncli := ncli c - 1\<rparr>) s
        in if ncli (cpus s i) < 0 then Inl (Panic ''popcli'')
           else if ncli (cpus s i) = 0 \<and> intena (cpus s i) then Inr (sti s) else Inr s))"

definition holding :: "lock_id \<Rightarrow> 'a mach_scheme \<Rightarrow> (bool \<times> 'a mach_scheme) res" where
  "holding l s =
     bindr (pushcli s) (\<lambda>s.
     bindr (mycpu s) (\<lambda>i.
       let r = (locked (locks s l) \<noteq> 0 \<and> lk_cpu (locks s l) = Some i)
       in bindr (popcli s) (\<lambda>s. Inr (r, s))))"

definition acquire :: "lock_id \<Rightarrow> 'a mach_scheme \<Rightarrow> 'a mach_scheme res" where
  "acquire l s =
     bindr (pushcli s) (\<lambda>s.
     bindr (holding l s) (\<lambda>(h, s).
       if h then Inl (Panic ''acquire'')
       else if locked (locks s l) \<noteq> 0 then Inl Spin
       else let s = upd_lock l (locked_update (\<lambda>_. 1)) s
            in bindr (mycpu s) (\<lambda>i. Inr (upd_lock l (lk_cpu_update (\<lambda>_. Some i)) s))))"

definition release :: "lock_id \<Rightarrow> 'a mach_scheme \<Rightarrow> 'a mach_scheme res" where
  "release l s =
     bindr (holding l s) (\<lambda>(h, s).
       if \<not> h then Inl (Panic ''release'')
       else let s = upd_lock l (lk_cpu_update (\<lambda>_. None)) s;
                s = upd_lock l (locked_update (\<lambda>_. 0)) s
            in popcli s)"

section \<open>What a single call does\<close>

text \<open>
  \<open>this_cpu s\<close> is the table index of the executing CPU, \<open>mach_ok\<close> says that the CPU is known
  and that interrupts are off inside a \<open>pushcli\<close> nesting. Under it, \<open>acq\<close> and \<open>rel\<close> are closed
  forms of a successful acquire and release.
\<close>

definition this_cpu :: "'a mach_scheme \<Rightarrow> nat option" where
  "this_cpu s = find (\<lambda>i. apicid (cpus s i) = lapicid s) [0..<ncpu s]"

definition mach_ok :: "'a mach_scheme \<Rightarrow> bool" where
  "mach_ok s \<longleftrightarrow> (case this_cpu s of None \<Rightarrow> False
     | Some i \<Rightarrow> 0 \<le> ncli (cpus s i) \<and> (0 < ncli (cpus s i) \<longrightarrow> \<not> readeflags_if s))"

definition free :: "lock_id \<Rightarrow> 'a mach_scheme \<Rightarrow> bool" where
  "free l s \<longleftrightarrow> locked (locks s l) = 0"

definition holds :: "lock_id \<Rightarrow> 'a mach_scheme \<Rightarrow> bool" where
  "holds l s \<longleftrightarrow> locked (locks s l) \<noteq> 0 \<and> this_cpu s \<noteq> None \<and> lk_cpu (locks s l) = this_cpu s
     \<and> 0 < ncli (cpus s (the (this_cpu s)))"

definition acq :: "lock_id \<Rightarrow> 'a mach_scheme \<Rightarrow> 'a mach_scheme" where
  "acq l s =
     (let i = the (this_cpu s); c = cpus s i
      in s\<lparr>eflags_if := (eflags_if s)(lapicid s := False),
           cpus := (cpus s)(i := c\<lparr>
             intena := (if ncli c = 0 then readeflags_if s else intena c), ncli := ncli c + 1\<rparr>),
           locks := (locks s)(l := (locks s l)\<lparr>locked := 1, lk_cpu := Some i\<rparr>)\<rparr>)"

definition rel :: "lock_id \<Rightarrow> 'a mach_scheme \<Rightarrow> 'a mach_scheme" where
  "rel l s =
     (let i = the (this_cpu s); c = cpus s i
      in s\<lparr>eflags_if := (eflags_if s)(lapicid s := (ncli c = 1 \<and> intena c)),
           cpus := (cpus s)(i := c\<lparr>ncli := ncli c - 1\<rparr>),
           locks := (locks s)(l := (locks s l)\<lparr>locked := 0, lk_cpu := None\<rparr>)\<rparr>)"

lemmas mach_defs = readeflags_if_def cli_def sti_def upd_cpu_def upd_lock_def

lemma this_cpu_upd [simp]:
  "(\<And>j. apicid (f j) = apicid (cpus s j)) \<Longrightarrow> this_cpu (s\<lparr>cpus := f\<rparr>) = this_cpu s"
  "this_cpu (s\<lparr>eflags_if := e\<rparr>) = this_cpu s"
  "this_cpu (s\<lparr>locks := k\<rparr>) = this_cpu s"
  by (auto simp: this_cpu_def intro!: find_cong)

lemma mycpu_eq: "\<not> readeflags_if s \<Longrightarrow> this_cpu s = Some i \<Longrightarrow> mycpu s = Inr i"
  by (simp add: mycpu_def this_cpu_def)

lemma pushcli_eq:
  assumes "this_cpu s = Some i"
  shows "pushcli s = Inr (s\<lparr>eflags_if := (eflags_if s)(lapicid s := False),
           cpus := (cpus s)(i := (cpus s i)\<lparr>
             intena := (if ncli (cpus s i) = 0 then readeflags_if s else intena (cpus s i)),
             ncli := ncli (cpus s i) + 1\<rparr>)\<rparr>)"
proof -
  have "mycpu (cli s) = Inr i"
    using assms by (intro mycpu_eq) (simp_all add: mach_defs)
  then show ?thesis by (simp add: pushcli_def Let_def mach_defs)
qed

lemma popcli_eq:
  assumes "this_cpu s = Some i" and "\<not> readeflags_if s" and "0 < ncli (cpus s i)"
  shows "popcli s = Inr (s\<lparr>eflags_if := (eflags_if s)(lapicid s :=
             (ncli (cpus s i) = 1 \<and> intena (cpus s i))),
           cpus := (cpus s)(i := (cpus s i)\<lparr>ncli := ncli (cpus s i) - 1\<rparr>)\<rparr>)"
proof -
  have "(eflags_if s)(lapicid s := False) = eflags_if s"
    using assms(2) by (auto simp: readeflags_if_def fun_eq_iff)
  then show ?thesis
    using assms mycpu_eq [OF assms(2,1)] by (auto simp: popcli_def Let_def mach_defs intro!: mach.equality)
qed

lemma holding_eq:
  assumes "this_cpu s = Some i" and "\<not> readeflags_if s" and "0 < ncli (cpus s i)"
  shows "holding l s = Inr (locked (locks s l) \<noteq> 0 \<and> lk_cpu (locks s l) = Some i, s)"
proof -
  have "(eflags_if s)(lapicid s := False) = eflags_if s"
    using assms(2) by (auto simp: readeflags_if_def fun_eq_iff)
  then have push: "pushcli s =
      Inr (s\<lparr>cpus := (cpus s)(i := (cpus s i)\<lparr>ncli := ncli (cpus s i) + 1\<rparr>)\<rparr>)"
    using assms by (simp add: pushcli_eq)
  let ?s = "s\<lparr>cpus := (cpus s)(i := (cpus s i)\<lparr>ncli := ncli (cpus s i) + 1\<rparr>)\<rparr>"
  have "mycpu ?s = Inr i"
    using assms by (intro mycpu_eq) (simp_all add: mach_defs)
  moreover have "popcli ?s = Inr s"
    using assms \<open>(eflags_if s)(lapicid s := False) = eflags_if s\<close>
    by (subst popcli_eq [of _ i]) (simp_all add: mach_defs)
  ultimately show ?thesis by (simp add: holding_def push)
qed

lemma acquire_eq:
  assumes "mach_ok s" and "free l s"
  shows "acquire l s = Inr (acq l s)"
proof -
  from assms obtain i where i: "this_cpu s = Some i" "0 \<le> ncli (cpus s i)"
    by (auto simp: mach_ok_def split: option.splits)
  define s1 where "s1 = s\<lparr>eflags_if := (eflags_if s)(lapicid s := False),
           cpus := (cpus s)(i := (cpus s i)\<lparr>
             intena := (if ncli (cpus s i) = 0 then readeflags_if s else intena (cpus s i)),
             ncli := ncli (cpus s i) + 1\<rparr>)\<rparr>"
  have s1: "this_cpu s1 = Some i" "\<not> readeflags_if s1" "0 < ncli (cpus s1 i)"
    using i by (simp_all add: s1_def mach_defs)
  have "holding l s1 = Inr (False, s1)"
    using assms(2) holding_eq [OF s1] by (simp add: free_def s1_def)
  moreover have "mycpu (upd_lock l (locked_update (\<lambda>_. 1)) s1) = Inr i"
    using s1 by (intro mycpu_eq) (simp_all add: mach_defs)
  ultimately show ?thesis
    using i assms(2) s1(1)
    by (simp add: acquire_def pushcli_eq flip: s1_def)
       (simp add: s1_def acq_def free_def upd_lock_def Let_def)
qed

lemma release_eq:
  assumes "mach_ok s" and "holds l s"
  shows "release l s = Inr (rel l s)"
proof -
  from assms obtain i where i: "this_cpu s = Some i" "\<not> readeflags_if s" "0 < ncli (cpus s i)"
    by (auto simp: mach_ok_def holds_def split: option.splits)
  with assms have "holding l s = Inr (True, s)"
    by (auto simp: holding_eq holds_def)
  with i show ?thesis
    by (simp add: release_def Let_def upd_lock_def)
       (subst popcli_eq [of _ i], auto simp: mach_defs rel_def Let_def intro!: mach.equality)
qed

text \<open>The client's view: what acquire and release do to the lock predicates.\<close>

lemma mach_ok_acq [simp]: "mach_ok s \<Longrightarrow> mach_ok (acq l s)"
  by (auto simp: mach_ok_def acq_def Let_def readeflags_if_def split: option.splits)

lemma holds_acq [simp]: "mach_ok s \<Longrightarrow> holds l (acq l s)"
  by (auto simp: mach_ok_def acq_def Let_def holds_def split: option.splits)

lemma holds_acq_other: "mach_ok s \<Longrightarrow> k \<noteq> l \<Longrightarrow> holds k s \<Longrightarrow> holds k (acq l s)"
  by (auto simp: mach_ok_def acq_def Let_def holds_def split: option.splits)

lemma free_acq [simp]: "free k (acq l s) \<longleftrightarrow> k \<noteq> l \<and> free k s"
  by (simp add: acq_def Let_def free_def)

lemma free_rel [simp]: "free k (rel l s) \<longleftrightarrow> k = l \<or> free k s"
  by (simp add: rel_def Let_def free_def)

lemma mach_ok_rel [simp]: "mach_ok s \<Longrightarrow> holds l s \<Longrightarrow> mach_ok (rel l s)"
  by (auto simp: mach_ok_def rel_def Let_def holds_def readeflags_if_def split: option.splits)

lemma more_acq [simp]: "mach.more (acq l s) = mach.more s"
  and more_rel [simp]: "mach.more (rel l s) = mach.more s"
  by (simp_all add: acq_def rel_def Let_def)

lemma holds_not_free: "holds l s \<Longrightarrow> \<not> free l s"
  by (simp add: holds_def free_def)

text \<open>A lock taken while another is held, and given back: the outer one is still held.\<close>

lemma holds_rel_acq [simp]:
  "mach_ok s \<Longrightarrow> holds k s \<Longrightarrow> k \<noteq> l \<Longrightarrow> holds k (rel l (acq l s))"
  by (auto simp: mach_ok_def acq_def rel_def Let_def holds_def split: option.splits)

lemma rel_acq:
  assumes "mach_ok s" "free l s"
  shows "readeflags_if (rel l (acq l s)) = readeflags_if s"
    and "ncli (cpus (rel l (acq l s)) i) = ncli (cpus s i)"
  using assms
  by (auto simp: mach_ok_def acq_def rel_def Let_def readeflags_if_def split: option.splits)

section \<open>The locking interface of the other components\<close>

text \<open>
  What a client of the locks relies on: acquire of a free lock returns with the lock held and
  everything outside the lock layer (\<open>rest\<close>) as it was, release gives the lock back. The client
  lemma: a critical section whose body keeps the lock returns with the same locks free as before.
\<close>

locale lock_api =
  fixes acquire :: "'l \<Rightarrow> 's \<Rightarrow> 's res"
    and release :: "'l \<Rightarrow> 's \<Rightarrow> 's res"
    and ready :: "'s \<Rightarrow> bool"
    and free :: "'l \<Rightarrow> 's \<Rightarrow> bool"
    and holds :: "'l \<Rightarrow> 's \<Rightarrow> bool"
    and rest :: "'s \<Rightarrow> 'r"
  assumes acquire_ok: "ready s \<Longrightarrow> free l s \<Longrightarrow> returns (acquire l s)
      (\<lambda>s'. ready s' \<and> holds l s' \<and> rest s' = rest s \<and> (\<forall>k. free k s' \<longleftrightarrow> k \<noteq> l \<and> free k s))"
    and release_ok: "ready s \<Longrightarrow> holds l s \<Longrightarrow> returns (release l s)
      (\<lambda>s'. ready s' \<and> rest s' = rest s \<and> (\<forall>k. free k s' \<longleftrightarrow> k = l \<or> free k s))"
begin

lemma section_ok:
  assumes "ready s" and "free l s"
    and "\<And>s1. ready s1 \<Longrightarrow> holds l s1 \<Longrightarrow> rest s1 = rest s \<Longrightarrow> (\<forall>k. free k s1 \<longleftrightarrow> k \<noteq> l \<and> free k s) \<Longrightarrow>
      returns (body s1) (\<lambda>s2. ready s2 \<and> holds l s2 \<and> Q (rest s2) \<and>
        (\<forall>k. free k s2 \<longleftrightarrow> k \<noteq> l \<and> free k s))"
  shows "returns (bindr (acquire l s) (\<lambda>s. bindr (body s) (release l)))
    (\<lambda>s'. ready s' \<and> Q (rest s') \<and> (\<forall>k. free k s' \<longleftrightarrow> free k s))"
proof -
  from acquire_ok [OF assms(1,2)] obtain s1 where s1: "acquire l s = Inr s1" "ready s1" "holds l s1"
      "rest s1 = rest s" "\<forall>k. free k s1 \<longleftrightarrow> k \<noteq> l \<and> free k s"
    by (auto simp: returns_iff)
  from assms(3) [OF s1(2-5)] obtain s2 where s2: "body s1 = Inr s2" "ready s2" "holds l s2"
      "Q (rest s2)" "\<forall>k. free k s2 \<longleftrightarrow> k \<noteq> l \<and> free k s"
    by (auto simp: returns_iff)
  from release_ok [OF s2(2,3)] s1(1) s2 assms(2) show ?thesis by (auto simp: returns_iff)
qed

end

interpretation spin: lock_api acquire release mach_ok free holds mach.more
  by unfold_locales (simp_all add: acquire_eq release_eq)

section \<open>Mutual exclusion between CPUs\<close>

text \<open>
  Any number of CPUs execute acquire and release in any order; \<open>h l\<close> is the history set of the
  CPUs that acquired \<open>l\<close> and did not release it since.
\<close>

inductive lock_run :: "'a mach_scheme \<Rightarrow> (lock_id \<Rightarrow> nat set) \<Rightarrow> bool" where
  boot: "inj_on (\<lambda>i. apicid (cpus s i)) {..<ncpu s} \<Longrightarrow> (\<forall>l. locked (locks s l) = 0) \<Longrightarrow>
     (\<forall>i. ncli (cpus s i) = 0) \<Longrightarrow> lock_run s (\<lambda>_. {})"
| acquires: "lock_run s h \<Longrightarrow> this_cpu (s\<lparr>lapicid := a\<rparr>) = Some i \<Longrightarrow>
     acquire l (s\<lparr>lapicid := a\<rparr>) = Inr s' \<Longrightarrow> lock_run s' (h(l := insert i (h l)))"
| releases: "lock_run s h \<Longrightarrow> this_cpu (s\<lparr>lapicid := a\<rparr>) = Some i \<Longrightarrow>
     release l (s\<lparr>lapicid := a\<rparr>) = Inr s' \<Longrightarrow> lock_run s' (h(l := h l - {i}))"

definition lock_inv :: "'a mach_scheme \<Rightarrow> (lock_id \<Rightarrow> nat set) \<Rightarrow> bool" where
  "lock_inv s h \<longleftrightarrow> inj_on (\<lambda>i. apicid (cpus s i)) {..<ncpu s}
     \<and> (\<forall>l i. i \<in> h l \<longleftrightarrow> locked (locks s l) \<noteq> 0 \<and> lk_cpu (locks s l) = Some i)
     \<and> (\<forall>l. locked (locks s l) \<noteq> 0 \<longrightarrow> lk_cpu (locks s l) \<noteq> None)
     \<and> (\<forall>i. finite {l. i \<in> h l} \<and> ncli (cpus s i) = int (card {l. i \<in> h l}))
     \<and> (\<forall>i < ncpu s. 0 < ncli (cpus s i) \<longrightarrow> \<not> eflags_if s (apicid (cpus s i)))"

lemma lock_invD:
  assumes "lock_inv s h"
  shows "inj_on (\<lambda>i. apicid (cpus s i)) {..<ncpu s}"
    and "i \<in> h l \<longleftrightarrow> locked (locks s l) \<noteq> 0 \<and> lk_cpu (locks s l) = Some i"
    and "locked (locks s l) \<noteq> 0 \<Longrightarrow> lk_cpu (locks s l) \<noteq> None"
    and "finite {l. i \<in> h l}" and "ncli (cpus s i) = int (card {l. i \<in> h l})"
    and "i < ncpu s \<Longrightarrow> 0 < ncli (cpus s i) \<Longrightarrow> \<not> eflags_if s (apicid (cpus s i))"
  using assms unfolding lock_inv_def by blast+

lemma lock_invI:
  assumes "inj_on (\<lambda>i. apicid (cpus s i)) {..<ncpu s}"
    and "\<And>i l. i \<in> h l \<longleftrightarrow> locked (locks s l) \<noteq> 0 \<and> lk_cpu (locks s l) = Some i"
    and "\<And>l. locked (locks s l) \<noteq> 0 \<longrightarrow> lk_cpu (locks s l) \<noteq> None"
    and "\<And>i. finite {l. i \<in> h l} \<and> ncli (cpus s i) = int (card {l. i \<in> h l})"
    and "\<And>i. i < ncpu s \<longrightarrow> 0 < ncli (cpus s i) \<longrightarrow> \<not> eflags_if s (apicid (cpus s i))"
  shows "lock_inv s h"
  using assms unfolding lock_inv_def by blast

lemma this_cpu_Some: "this_cpu s = Some i \<Longrightarrow> i < ncpu s \<and> apicid (cpus s i) = lapicid s"
  by (auto simp: this_cpu_def find_Some_iff)

lemma holding_val:
  assumes "mach_ok s" and "this_cpu s = Some i"
  shows "\<exists>s'. holding l s = Inr (locked (locks s l) \<noteq> 0 \<and> lk_cpu (locks s l) = Some i, s')"
proof -
  define s1 where "s1 = s\<lparr>eflags_if := (eflags_if s)(lapicid s := False),
           cpus := (cpus s)(i := (cpus s i)\<lparr>
             intena := (if ncli (cpus s i) = 0 then readeflags_if s else intena (cpus s i)),
             ncli := ncli (cpus s i) + 1\<rparr>)\<rparr>"
  have s1: "this_cpu s1 = Some i" "\<not> readeflags_if s1" "0 < ncli (cpus s1 i)"
    using assms by (simp_all add: s1_def mach_defs mach_ok_def)
  have "locks s1 = locks s" by (simp add: s1_def)
  then show ?thesis
    using pushcli_eq [OF assms(2)] mycpu_eq [OF s1(2,1)] popcli_eq [OF s1]
    by (simp add: holding_def flip: s1_def)
qed

lemma acquire_Inr:
  assumes "mach_ok s" and "acquire l s = Inr s'"
  shows "free l s \<and> s' = acq l s"
proof -
  from assms obtain i where i: "this_cpu s = Some i" by (auto simp: mach_ok_def split: option.splits)
  have "free l s"
  proof (rule ccontr)
    assume locked: "\<not> free l s"
    define s1 where "s1 = s\<lparr>eflags_if := (eflags_if s)(lapicid s := False),
           cpus := (cpus s)(i := (cpus s i)\<lparr>
             intena := (if ncli (cpus s i) = 0 then readeflags_if s else intena (cpus s i)),
             ncli := ncli (cpus s i) + 1\<rparr>)\<rparr>"
    have s1: "this_cpu s1 = Some i" "\<not> readeflags_if s1" "0 < ncli (cpus s1 i)"
      using assms i by (simp_all add: s1_def mach_defs mach_ok_def)
    have "locks s1 = locks s" by (simp add: s1_def)
    with assms(2) locked holding_eq [OF s1] pushcli_eq [OF i] show False
      by (auto simp: acquire_def free_def split: if_splits simp flip: s1_def)
  qed
  with assms show ?thesis by (simp add: acquire_eq)
qed

lemma release_Inr:
  assumes "mach_ok s" and "this_cpu s = Some i" and "release l s = Inr s'"
    and "lk_cpu (locks s l) = Some i \<Longrightarrow> locked (locks s l) \<noteq> 0 \<Longrightarrow> 0 < ncli (cpus s i)"
  shows "holds l s \<and> s' = rel l s"
proof -
  from holding_val [OF assms(1,2), of l] assms(3)
  have "locked (locks s l) \<noteq> 0 \<and> lk_cpu (locks s l) = Some i"
    by (auto simp: release_def split: if_splits)
  with assms(2,4) have "holds l s" by (simp add: holds_def)
  with assms(1,3) show ?thesis by (simp add: release_eq)
qed

lemma lock_inv_mach_ok:
  assumes "lock_inv s h" and "this_cpu (s\<lparr>lapicid := a\<rparr>) = Some i"
  shows "mach_ok (s\<lparr>lapicid := a\<rparr>)"
  using this_cpu_Some [OF assms(2)] assms(2) lock_invD(5,6) [OF assms(1), of i]
  by (simp add: mach_ok_def readeflags_if_def)

lemma lock_inv_acq:
  assumes inv: "lock_inv s h" and i: "this_cpu (s\<lparr>lapicid := a\<rparr>) = Some i"
    and free: "free l (s\<lparr>lapicid := a\<rparr>)"
  shows "lock_inv (acq l (s\<lparr>lapicid := a\<rparr>)) (h(l := insert i (h l)))" (is "lock_inv ?s ?h")
proof -
  from this_cpu_Some [OF i] have a: "i < ncpu s" "a = apicid (cpus s i)" by auto
  from free have l: "j \<notin> h l" for j using lock_invD(2) [OF inv, of j l] by (simp add: free_def)
  then have held: "{k. j \<in> ?h k} = (if j = i then insert l {k. j \<in> h k} else {k. j \<in> h k})" for j
    by auto
  have f4: "finite {k. j \<in> ?h k} \<and> ncli (cpus ?s j) = int (card {k. j \<in> ?h k})" for j
    using lock_invD(4,5) [OF inv, of j] l i unfolding held
    by (cases "j = i") (simp_all add: acq_def Let_def card_insert_if)
  have f2: "j \<in> ?h k \<longleftrightarrow> locked (locks ?s k) \<noteq> 0 \<and> lk_cpu (locks ?s k) = Some j" for j k
    using lock_invD(2) [OF inv, of j k] l [of j] i by (auto simp: acq_def Let_def)
  have f3: "locked (locks ?s k) \<noteq> 0 \<longrightarrow> lk_cpu (locks ?s k) \<noteq> None" for k
    using lock_invD(3) [OF inv, of k] i by (auto simp: acq_def Let_def)
  have f5: "j < ncpu ?s \<longrightarrow> 0 < ncli (cpus ?s j) \<longrightarrow> \<not> eflags_if ?s (apicid (cpus ?s j))" for j
    using lock_invD(6) [OF inv, of j] i a by (auto simp: acq_def Let_def)
  have f1: "inj_on (\<lambda>i. apicid (cpus ?s i)) {..<ncpu ?s}"
  proof -
    have "apicid (cpus ?s j) = apicid (cpus s j)" for j by (simp add: acq_def Let_def)
    moreover have "ncpu ?s = ncpu s" by (simp add: acq_def Let_def)
    ultimately show ?thesis using lock_invD(1) [OF inv] by (simp only:)
  qed
  show ?thesis using f1 f2 f3 f4 f5 by (rule lock_invI)
qed

lemma lock_inv_rel:
  assumes inv: "lock_inv s h" and i: "this_cpu (s\<lparr>lapicid := a\<rparr>) = Some i"
    and holds: "holds l (s\<lparr>lapicid := a\<rparr>)"
  shows "lock_inv (rel l (s\<lparr>lapicid := a\<rparr>)) (h(l := h l - {i}))" (is "lock_inv ?s ?h")
proof -
  from this_cpu_Some [OF i] have a: "i < ncpu s" "a = apicid (cpus s i)" by auto
  from holds i have l: "j \<in> h l \<longleftrightarrow> j = i" for j
    using lock_invD(2) [OF inv, of j l] by (auto simp: holds_def)
  then have held: "{k. j \<in> ?h k} = (if j = i then {k. j \<in> h k} - {l} else {k. j \<in> h k})" for j
    by auto
  have "l \<in> {k. i \<in> h k}" using l by simp
  with lock_invD(4) [OF inv, of i] have "Suc (card ({k. i \<in> h k} - {l})) = card {k. i \<in> h k}"
    by (rule card_Suc_Diff1)
  then have "int (card ({k. i \<in> h k} - {l})) = int (card {k. i \<in> h k}) - 1" by linarith
  then have f4: "finite {k. j \<in> ?h k} \<and> ncli (cpus ?s j) = int (card {k. j \<in> ?h k})" for j
    using lock_invD(4,5) [OF inv, of j] i unfolding held
    by (cases "j = i") (simp_all add: rel_def Let_def)
  have f2: "j \<in> ?h k \<longleftrightarrow> locked (locks ?s k) \<noteq> 0 \<and> lk_cpu (locks ?s k) = Some j" for j k
    using lock_invD(2) [OF inv, of j k] l [of j] i by (auto simp: rel_def Let_def)
  have f3: "locked (locks ?s k) \<noteq> 0 \<longrightarrow> lk_cpu (locks ?s k) \<noteq> None" for k
    using lock_invD(3) [OF inv, of k] i by (auto simp: rel_def Let_def)
  have f5: "j < ncpu ?s \<longrightarrow> 0 < ncli (cpus ?s j) \<longrightarrow> \<not> eflags_if ?s (apicid (cpus ?s j))" for j
    using lock_invD(6) [OF inv, of j] lock_invD(1) [OF inv] i a
    by (auto simp: rel_def Let_def inj_on_def)
  have f1: "inj_on (\<lambda>i. apicid (cpus ?s i)) {..<ncpu ?s}"
  proof -
    have "apicid (cpus ?s j) = apicid (cpus s j)" for j by (simp add: rel_def Let_def)
    moreover have "ncpu ?s = ncpu s" by (simp add: rel_def Let_def)
    ultimately show ?thesis using lock_invD(1) [OF inv] by (simp only:)
  qed
  show ?thesis using f1 f2 f3 f4 f5 by (rule lock_invI)
qed

lemma lock_run_inv: "lock_run s h \<Longrightarrow> lock_inv s h"
proof (induction rule: lock_run.induct)
  case (boot s)
  then show ?case by (simp add: lock_inv_def)
next
  case (acquires s h a i l s')
  from acquire_Inr [OF lock_inv_mach_ok [OF acquires(4,2)] acquires(3)]
  show ?case using lock_inv_acq [OF acquires(4,2), of l] by (simp add: fun_upd_def)
next
  case (releases s h a i l s')
  have "0 < ncli (cpus s i)" if "lk_cpu (locks s l) = Some i" "locked (locks s l) \<noteq> 0"
  proof -
    from that have "l \<in> {k. i \<in> h k}" using lock_invD(2) [OF releases(4), of i l] by simp
    with lock_invD(4) [OF releases(4), of i] have "0 < card {k. i \<in> h k}"
      by (auto simp only: card_gt_0_iff)
    with lock_invD(5) [OF releases(4), of i] show ?thesis by simp
  qed
  then have "holds l (s\<lparr>lapicid := a\<rparr>) \<and> s' = rel l (s\<lparr>lapicid := a\<rparr>)"
    using releases by (intro release_Inr [OF lock_inv_mach_ok]) auto
  then show ?case using lock_inv_rel [OF releases(4,2), of l] by (simp add: fun_upd_def)
qed

section \<open>Properties\<close>

text \<open>A machine with two CPUs, all locks free and interrupts on.\<close>

definition mach0 :: mach where
  "mach0 = \<lparr>cpus = \<lambda>i. \<lparr>apicid = i, ncli = 0, intena = False, cpu_proc = None, cr3 = 0,
             ts_ss0 = 0, ts_esp0 = 0, ts_iomb = 0\<rparr>,
     ncpu = 2, lapicid = 0, eflags_if = \<lambda>_. True,
     locks = \<lambda>_. \<lparr>locked = 0, lk_name = [], lk_cpu = None\<rparr>\<rparr>"

lemma mach0_ok [simp]: "mach_ok mach0" "free l mach0" "this_cpu mach0 = Some 0"
  by (simp_all add: mach_ok_def mach0_def this_cpu_def free_def upt_rec)

text \<open>
  C3. Mutual exclusion: whatever acquires and releases the CPUs of the machine execute, in whatever
  order, no two CPUs hold the same lock, and a CPU that holds a lock runs with interrupts off.
\<close>
theorem lock_mutual_exclusion:
  assumes "lock_run s h" and "i \<in> h l" and "j \<in> h l" and "i < ncpu s"
  shows "i = j \<and> \<not> eflags_if s (apicid (cpus s i))"
proof -
  note inv = lock_run_inv [OF assms(1)]
  have "i = j" using lock_invD(2) [OF inv] assms(2,3) by (metis option.inject)
  moreover have "0 < card {l. i \<in> h l}"
    using lock_invD(4) [OF inv, of i] assms(2) by (auto simp only: card_gt_0_iff)
  then have "0 < ncli (cpus s i)" using lock_invD(5) [OF inv, of i] by simp
  ultimately show ?thesis using lock_invD(6) [OF inv assms(4)] by simp
qed

theorem lock_mutual_exclusion_witness:
  "\<not> eflags_if (acq Kmem_lock mach0) (apicid (cpus (acq Kmem_lock mach0) 0))"
proof -
  have "mach0\<lparr>lapicid := 0\<rparr> = mach0" by (simp add: mach0_def)
  moreover have "lock_run mach0 (\<lambda>_. {})" by (rule lock_run.boot) (auto simp: mach0_def inj_on_def)
  ultimately have "lock_run (acq Kmem_lock mach0) ((\<lambda>_. {})(Kmem_lock := insert 0 {}))"
    using lock_run.acquires [of mach0 "\<lambda>_. {}" 0 0 Kmem_lock] by (simp add: acquire_eq)
  from lock_mutual_exclusion [OF this, of 0 Kmem_lock 0] show ?thesis
    by (simp add: acq_def mach0_def Let_def)
qed

text \<open>
  C22. A critical section gives the interrupt flag and the nesting depth of the CPU back as they
  were, and leaves every part of the kernel state outside the lock layer alone.
\<close>
theorem critical_section_restores:
  assumes "mach_ok s" and "free l s"
  shows "returns (bindr (acquire l s) (release l)) (\<lambda>s'. readeflags_if s' = readeflags_if s
    \<and> ncli (cpus s' i) = ncli (cpus s i) \<and> free l s' \<and> mach.more s' = mach.more s)"
  using assms rel_acq [OF assms] by (simp add: acquire_eq release_eq)

theorem critical_section_restores_witness:
  "returns (bindr (acquire Cons_lock mach0) (release Cons_lock)) (\<lambda>s'. readeflags_if s')"
  using critical_section_restores [where s = mach0 and l = Cons_lock and i = 0]
  by (rule returns_mono) (simp_all add: readeflags_if_def, simp add: mach0_def)

text \<open>
  The deadlock check of acquire: taking a lock that the CPU already holds panics, and while
  another CPU holds it acquire spins; it never returns with a lock that is taken.
\<close>
theorem acquire_locked:
  assumes "mach_ok s" and "\<not> free l s"
  shows "acquire l s = Inl (if lk_cpu (locks s l) = this_cpu s then Panic ''acquire'' else Spin)"
proof -
  from assms obtain i where i: "this_cpu s = Some i" by (auto simp: mach_ok_def split: option.splits)
  define s1 where "s1 = s\<lparr>eflags_if := (eflags_if s)(lapicid s := False),
           cpus := (cpus s)(i := (cpus s i)\<lparr>
             intena := (if ncli (cpus s i) = 0 then readeflags_if s else intena (cpus s i)),
             ncli := ncli (cpus s i) + 1\<rparr>)\<rparr>"
  have s1: "this_cpu s1 = Some i" "\<not> readeflags_if s1" "0 < ncli (cpus s1 i)" "locks s1 = locks s"
    using assms i by (simp_all add: s1_def mach_defs mach_ok_def)
  have "holding l s1 = Inr (lk_cpu (locks s l) = Some i, s1)"
    using holding_eq [OF s1(1-3), of l] assms(2) s1(4) by (simp add: free_def)
  then show ?thesis
    using i assms(2) pushcli_eq [OF i] s1(4)
    by (simp add: acquire_def free_def flip: s1_def)
qed

theorem acquire_locked_witness: "acquire Cons_lock (acq Cons_lock mach0) = Inl (Panic ''acquire'')"
  using acquire_locked [of "acq Cons_lock mach0" Cons_lock] holds_acq [of mach0 Cons_lock]
  by (simp add: holds_def)

end
