(* ===== verification/Kalloc.thy ===== *)
theory Kalloc
  imports CString Spinlock
begin

text \<open>
  The physical page allocator (kalloc.c). The free list is threaded through the free pages
  themselves: the first four bytes of a free page are the address of the next one. Memory is the
  byte memory of CString; \<open>kend\<close> is the linker symbol \<open>end\<close>, the first address after the kernel.
\<close>

section \<open>Definitions\<close>

definition PGSIZE :: nat where "PGSIZE = 4096"
definition KERNBASE :: nat where "KERNBASE = 0x80000000"
definition PHYSTOP :: nat where "PHYSTOP = 0xE000000"

definition V2P :: "nat \<Rightarrow> nat" where
  "V2P a = u32 (int a - int KERNBASE)"

definition PGROUNDUP :: "nat \<Rightarrow> nat" where
  "PGROUNDUP sz = nat (int (u32 (int sz + int PGSIZE - 1)) AND NOT (int PGSIZE - 1))"

definition PGROUNDDOWN :: "nat \<Rightarrow> nat" where
  "PGROUNDDOWN a = nat (int a AND NOT (int PGSIZE - 1))"

record kmem = mach +
  mem :: mem
  use_lock :: bool
  freelist :: nat
  kend :: nat

definition kfree :: "nat \<Rightarrow> 'a kmem_scheme \<Rightarrow> 'a kmem_scheme res" where
  "kfree v s =
     (if v mod PGSIZE \<noteq> 0 \<or> v < kend s \<or> V2P v \<ge> PHYSTOP then Inl (Panic ''kfree'')
      else
        let s = s\<lparr>mem := memset v 1 PGSIZE (mem s)\<rparr>
        in bindr (if use_lock s then acquire Kmem_lock s else Inr s) (\<lambda>s.
             let s = s\<lparr>mem := store32 (mem s) v (int (freelist s))\<rparr>;
                 s = s\<lparr>freelist := v\<rparr>
             in if use_lock s then release Kmem_lock s else Inr s))"

definition kalloc :: "'a kmem_scheme \<Rightarrow> (nat \<times> 'a kmem_scheme) res" where
  "kalloc s =
     bindr (if use_lock s then acquire Kmem_lock s else Inr s) (\<lambda>s.
       let r = freelist s;
           s = (if r \<noteq> 0 then s\<lparr>freelist := nat (load32 (mem s) r)\<rparr> else s)
       in bindr (if use_lock s then release Kmem_lock s else Inr s) (\<lambda>s. Inr (r, s)))"

function freerange_from :: "nat \<Rightarrow> nat \<Rightarrow> 'a kmem_scheme \<Rightarrow> 'a kmem_scheme res" where
  "freerange_from p vend s =
     (if p + 4096 \<le> vend then bindr (kfree p s) (\<lambda>s. freerange_from (p + 4096) vend s) else Inr s)"
  by pat_completeness auto
termination by (relation "measure (\<lambda>(p, vend, s). vend - p)") simp_all

definition freerange :: "nat \<Rightarrow> nat \<Rightarrow> 'a kmem_scheme \<Rightarrow> 'a kmem_scheme res" where
  "freerange vstart vend s = freerange_from (PGROUNDUP vstart) vend s"

definition kinit1 :: "nat \<Rightarrow> nat \<Rightarrow> 'a kmem_scheme \<Rightarrow> 'a kmem_scheme res" where
  "kinit1 vstart vend s =
     freerange vstart vend ((initlock Kmem_lock ''kmem'' s)\<lparr>use_lock := False\<rparr>)"

definition kinit2 :: "nat \<Rightarrow> nat \<Rightarrow> 'a kmem_scheme \<Rightarrow> 'a kmem_scheme res" where
  "kinit2 vstart vend s = bindr (freerange vstart vend s) (\<lambda>s. Inr (s\<lparr>use_lock := True\<rparr>))"

declare freerange_from.simps [simp del]

section \<open>Words in memory\<close>

lemma load32_cong: "(\<And>i. i < 4 \<Longrightarrow> m' (a + i) = m (a + i)) \<Longrightarrow> load32 m' a = load32 m a"
proof -
  assume *: "\<And>i. i < 4 \<Longrightarrow> m' (a + i) = m (a + i)"
  from * [of 0] * [of 1] * [of 2] * [of 3] show ?thesis by (simp add: load32_def)
qed

lemma load32_store32:
  assumes "0 \<le> v" and "v < 2 ^ 32"
  shows "load32 (store32 m a v) a = v"
proof -
  define x y z where "x = v div 256" and "y = x div 256" and "z = y div 256"
  have "v = 256 * x + v mod 256" "x = 256 * y + x mod 256" "y = 256 * z + y mod 256"
    by (simp_all add: x_def y_def z_def)
  moreover have "z mod 256 = z"
    using assms by (simp add: x_def y_def z_def div_less_iff_less_mult flip: div_mult2_eq)
  moreover have "drop_bit 8 v = x" "drop_bit 16 v = y" "drop_bit 24 v = z"
    by (simp_all add: drop_bit_eq_div x_def y_def z_def flip: div_mult2_eq)
  ultimately show ?thesis by (simp add: load32_def store32_def)
qed

lemma load32_store32_other: "a + 4 \<le> b \<or> b + 4 \<le> a \<Longrightarrow> load32 (store32 m b v) a = load32 m a"
  by (rule load32_cong) (auto simp: store32_def)

lemma and_not_mask: "(0 :: int) \<le> x \<Longrightarrow> x AND NOT 4095 = x - x mod 4096"
proof -
  have "x AND NOT (mask 12) = push_bit 12 (drop_bit 12 x)"
    by (rule bit_eqI) (auto simp: bit_simps)
  then have "x AND NOT 4095 = x div 4096 * 4096"
    by (simp add: mask_eq_exp_minus_1 push_bit_eq_mult drop_bit_eq_div)
  then show ?thesis by (simp add: minus_mod_eq_div_mult)
qed

lemma PGROUNDUP_eq:
  "sz + 4095 < 2 ^ 32 \<Longrightarrow> PGROUNDUP sz = (sz + 4095) div 4096 * 4096"
proof -
  assume "sz + 4095 < 2 ^ 32"
  then have "int (u32 (int sz + int PGSIZE - 1)) = int (sz + 4095)" by (simp add: PGSIZE_def)
  moreover have "int (sz + 4095) AND NOT (int PGSIZE - 1) = int (sz + 4095) - int (sz + 4095) mod 4096"
    using and_not_mask [of "int (sz + 4095)"] by (simp add: PGSIZE_def)
  moreover have "int (sz + 4095) - int (sz + 4095) mod 4096 = int ((sz + 4095) div 4096 * 4096)"
    by (simp add: minus_mod_eq_div_mult zdiv_int)
  ultimately show ?thesis by (simp only: PGROUNDUP_def nat_int)
qed

section \<open>The free list\<close>

definition page_ok :: "nat \<Rightarrow> nat \<Rightarrow> bool" where
  "page_ok k p \<longleftrightarrow> p mod 4096 = 0 \<and> k \<le> p \<and> V2P p < PHYSTOP \<and> 0 < p \<and> p < 2 ^ 32"

fun flist :: "mem \<Rightarrow> nat \<Rightarrow> nat list \<Rightarrow> bool" where
  "flist m p [] \<longleftrightarrow> p = 0"
| "flist m p (q # qs) \<longleftrightarrow> p = q \<and> flist m (nat (load32 m q)) qs"

definition free_pages :: "'a kmem_scheme \<Rightarrow> nat list \<Rightarrow> bool" where
  "free_pages s ps \<longleftrightarrow> flist (mem s) (freelist s) ps \<and> distinct ps \<and> (\<forall>p \<in> set ps. page_ok (kend s) p)"

definition kmem_ready :: "'a kmem_scheme \<Rightarrow> bool" where
  "kmem_ready s \<longleftrightarrow> mach_ok s \<and> (use_lock s \<longrightarrow> free Kmem_lock s)"

lemma flist_cong: "(\<And>q. q \<in> set ps \<Longrightarrow> load32 m' q = load32 m q) \<Longrightarrow> flist m' p ps = flist m p ps"
  by (induction ps arbitrary: p) auto

lemma flist_head: "flist m p ps \<Longrightarrow> p = (case ps of [] \<Rightarrow> 0 | q # _ \<Rightarrow> q)"
  by (cases ps) auto

lemma page_disjoint:
  assumes "p mod 4096 = (0 :: nat)" and "q mod 4096 = 0" and "p \<noteq> q"
  shows "p + 4096 \<le> q \<or> q + 4096 \<le> p"
proof -
  from assms(1,2) obtain a b where "p = 4096 * a" "q = 4096 * b" by (auto elim!: dvdE)
  with assms(3) show ?thesis by auto
qed

lemma flist_kfree:
  assumes "flist m p ps" and "\<forall>q \<in> set ps. page_ok k q" and "page_ok k v" and "v \<notin> set ps"
    and "p < 2 ^ 32"
  shows "flist (store32 (memset v 1 4096 m) v (int p)) v (v # ps)"
proof -
  let ?m = "store32 (memset v 1 4096 m) v (int p)"
  have "load32 ?m q = load32 m q" if "q \<in> set ps" for q
  proof -
    from that assms have "q + 4096 \<le> v \<or> v + 4096 \<le> q"
      using page_disjoint [of q v] by (auto simp: page_ok_def)
    then have "load32 ?m q = load32 (memset v 1 4096 m) q"
      by (intro load32_store32_other) auto
    also have "\<dots> = load32 m q"
      using \<open>q + 4096 \<le> v \<or> v + 4096 \<le> q\<close> by (intro load32_cong) (auto simp: memset_eq)
    finally show ?thesis .
  qed
  then have "flist ?m p ps" using assms(1) flist_cong by blast
  then show ?thesis using assms(5) by (simp add: load32_store32)
qed

text \<open>
  \<open>kmem_frame\<close>: what the allocator leaves alone, namely everything outside memory, the list
  head and the lock layer.
\<close>

definition kmem_frame :: "'a kmem_scheme \<Rightarrow> 'a kmem_scheme \<Rightarrow> bool" where
  "kmem_frame s s' \<longleftrightarrow> kend s' = kend s \<and> use_lock s' = use_lock s \<and> kmem.more s' = kmem.more s
     \<and> (\<forall>k. free k s' \<longleftrightarrow> free k s)"

lemma kmem_fields_acq [simp]:
  "mem (acq l s) = mem s" "freelist (acq l s) = freelist s" "use_lock (acq l s) = use_lock s"
  "kend (acq l s) = kend s" "kmem.more (acq l s) = kmem.more s"
  "mem (rel l s) = mem s" "freelist (rel l s) = freelist s" "use_lock (rel l s) = use_lock s"
  "kend (rel l s) = kend s" "kmem.more (rel l s) = kmem.more s"
  by (simp_all add: acq_def rel_def Let_def)

lemma kmem_upd_locks [simp]:
  "mach_ok (s\<lparr>mem := m\<rparr>) = mach_ok s" "mach_ok (s\<lparr>freelist := p\<rparr>) = mach_ok s"
  "holds l (s\<lparr>mem := m\<rparr>) = holds l s" "holds l (s\<lparr>freelist := p\<rparr>) = holds l s"
  "free l (s\<lparr>mem := m\<rparr>) = free l s" "free l (s\<lparr>freelist := p\<rparr>) = free l s"
  by (simp_all add: mach_ok_def holds_def free_def this_cpu_def readeflags_if_def cong: option.case_cong)

lemma kalloc_returns:
  assumes "kmem_ready s" and "free_pages s ps"
  shows "returns (kalloc s) (\<lambda>(r, s'). kmem_ready s' \<and> kmem_frame s s' \<and> mem s' = mem s
     \<and> (case ps of [] \<Rightarrow> r = 0 \<and> free_pages s' [] | p # qs \<Rightarrow> r = p \<and> free_pages s' qs))"
proof -
  have hd: "freelist s = (case ps of [] \<Rightarrow> 0 | q # _ \<Rightarrow> q)"
    using assms(2) flist_head by (auto simp: free_pages_def)
  have "0 < q" if "ps = q # qs" for q qs
    using assms(2) that by (auto simp: free_pages_def page_ok_def)
  with assms hd show ?thesis
    by (cases "use_lock s"; cases ps)
       (auto simp: kalloc_def kmem_ready_def acquire_eq release_eq Let_def free_pages_def
         kmem_frame_def)
qed

lemma kfree_returns:
  assumes "kmem_ready s" and "free_pages s ps" and "page_ok (kend s) v" and "v \<notin> set ps"
  shows "returns (kfree v s) (\<lambda>s'. kmem_ready s' \<and> kmem_frame s s' \<and> free_pages s' (v # ps)
     \<and> (\<forall>a. a < v \<or> v + 4096 \<le> a \<longrightarrow> mem s' a = mem s a))"
proof -
  have "freelist s < 2 ^ 32"
    using assms(2) by (cases ps) (auto simp: free_pages_def page_ok_def)
  with assms have fl: "flist (store32 (memset v 1 4096 (mem s)) v (int (freelist s))) v (v # ps)"
    by (intro flist_kfree [where k = "kend s"]) (auto simp: free_pages_def)
  have m: "store32 (memset v 1 4096 (mem s)) v x a = mem s a" if "a < v \<or> v + 4096 \<le> a" for a x
    using that by (auto simp: store32_def memset_eq)
  have ok: "\<not> (v mod PGSIZE \<noteq> 0 \<or> v < kend s \<or> V2P v \<ge> PHYSTOP)"
    using assms(3) by (auto simp: page_ok_def PGSIZE_def)
  show ?thesis
    using assms fl m ok
    by (cases "use_lock s")
       (auto simp: kfree_def kmem_ready_def acquire_eq release_eq Let_def free_pages_def
         kmem_frame_def PGSIZE_def)
qed

lemma kmem_frame_trans: "kmem_frame s s' \<Longrightarrow> kmem_frame s' s'' \<Longrightarrow> kmem_frame s s''"
  by (simp add: kmem_frame_def)

text \<open>The pages that \<open>freerange\<close> hands to the allocator, in the order it frees them.\<close>

function range_pages :: "nat \<Rightarrow> nat \<Rightarrow> nat list" where
  "range_pages p vend = (if p + 4096 \<le> vend then p # range_pages (p + 4096) vend else [])"
  by pat_completeness auto
termination by (relation "measure (\<lambda>(p, vend). vend - p)") auto

declare range_pages.simps [simp del]

lemma range_pages_ge: "q \<in> set (range_pages p vend) \<Longrightarrow> p \<le> q \<and> q + 4096 \<le> vend"
proof (induction p vend rule: range_pages.induct)
  case (1 p vend)
  then show ?case by (auto simp: range_pages.simps [of p vend] split: if_splits)
qed

lemma freerange_from_returns:
  assumes "kmem_ready s" and "free_pages s ps"
    and "\<forall>q \<in> set (range_pages p vend). page_ok (kend s) q \<and> q \<notin> set ps"
  shows "returns (freerange_from p vend s) (\<lambda>s'. kmem_ready s' \<and> kmem_frame s s'
     \<and> free_pages s' (rev (range_pages p vend) @ ps))"
  using assms
proof (induction p vend arbitrary: s ps rule: range_pages.induct)
  case (1 p vend)
  show ?case
  proof (cases "p + 4096 \<le> vend")
    case True
    then have pages: "range_pages p vend = p # range_pages (p + 4096) vend"
      by (simp add: range_pages.simps [of p vend])
    from kfree_returns [OF 1(2,3), of p] 1(4) obtain s1 where s1: "kfree p s = Inr s1"
        "kmem_ready s1" "kmem_frame s s1" "free_pages s1 (p # ps)"
      by (auto simp: pages returns_iff)
    have "\<forall>q \<in> set (range_pages (p + 4096) vend). page_ok (kend s1) q \<and> q \<notin> set (p # ps)"
      using 1(4) s1(3) range_pages_ge [of _ "p + 4096" vend] by (fastforce simp: pages kmem_frame_def)
    from 1(1) [OF True s1(2,4) this] True s1(1) show ?thesis
      by (auto simp: freerange_from.simps [of p vend s] pages returns_iff
          intro: kmem_frame_trans [OF s1(3)])
  next
    case False
    with 1 show ?thesis
      by (simp add: freerange_from.simps [of p vend s] range_pages.simps [of p vend] kmem_frame_def)
  qed
qed

section \<open>The allocator interface\<close>

text \<open>
  What the users of the allocator (kernel stacks, page tables, pipes) rely on: an allocated page
  is one that was free and is not handed out again before it is freed.
\<close>

locale page_alloc =
  fixes alloc :: "'s \<Rightarrow> (nat \<times> 's) res"
    and dealloc :: "nat \<Rightarrow> 's \<Rightarrow> 's res"
    and ready :: "'s \<Rightarrow> bool"
    and pages :: "'s \<Rightarrow> nat set \<Rightarrow> bool"
    and usable :: "'s \<Rightarrow> nat \<Rightarrow> bool"
  assumes alloc_empty: "ready s \<Longrightarrow> pages s {} \<Longrightarrow> returns (alloc s) (\<lambda>(r, s'). r = 0 \<and> ready s' \<and> pages s' {})"
    and alloc_some: "ready s \<Longrightarrow> pages s P \<Longrightarrow> P \<noteq> {} \<Longrightarrow>
      returns (alloc s) (\<lambda>(r, s'). r \<noteq> 0 \<and> r \<in> P \<and> ready s' \<and> pages s' (P - {r}) \<and> usable s' = usable s)"
    and dealloc_ok: "ready s \<Longrightarrow> pages s P \<Longrightarrow> usable s v \<Longrightarrow> v \<notin> P \<Longrightarrow>
      returns (dealloc v s) (\<lambda>s'. ready s' \<and> pages s' (insert v P) \<and> usable s' = usable s)"
    and pages_usable: "pages s P \<Longrightarrow> p \<in> P \<Longrightarrow> usable s p"
begin

lemma alloc_twice_distinct:
  assumes "ready s" and "pages s P"
  shows "returns (bindr (alloc s) (\<lambda>(p, s). bindr (alloc s) (\<lambda>(q, s). Inr (p, q))))
    (\<lambda>(p, q). p \<noteq> 0 \<and> q \<noteq> 0 \<longrightarrow> p \<noteq> q)"
proof (cases "P = {}")
  case True
  with alloc_empty [of s] assms obtain s' where "alloc s = Inr (0, s')" "ready s'" "pages s' {}"
    by (auto simp: returns_iff)
  with alloc_empty [of s'] show ?thesis by (auto simp: returns_iff)
next
  case False
  with alloc_some [OF assms] obtain p s' where s': "alloc s = Inr (p, s')" "ready s'"
      "pages s' (P - {p})"
    by (auto simp: returns_iff)
  show ?thesis
  proof (cases "P - {p} = {}")
    case True
    with alloc_empty [of s'] s' show ?thesis by (auto simp: returns_iff)
  next
    case False
    with alloc_some [OF s'(2,3)] s' show ?thesis by (auto simp: returns_iff)
  qed
qed

lemma alloc_dealloc:
  assumes "ready s" and "pages s P" and "P \<noteq> {}"
  shows "returns (bindr (alloc s) (\<lambda>(p, s). dealloc p s)) (\<lambda>s'. ready s' \<and> pages s' P)"
proof -
  from alloc_some [OF assms] obtain p s' where s': "alloc s = Inr (p, s')" "ready s'"
      "pages s' (P - {p})" "p \<in> P" "usable s' = usable s"
    by (auto simp: returns_iff)
  with pages_usable [OF assms(2)] have "usable s' p" by simp
  from dealloc_ok [OF s'(2,3) this] s' show ?thesis by (auto simp: returns_iff insert_absorb)
qed

end

definition kpages :: "'a kmem_scheme \<Rightarrow> nat set \<Rightarrow> bool" where
  "kpages s P \<longleftrightarrow> (\<exists>ps. free_pages s ps \<and> set ps = P)"

interpretation kpage: page_alloc kalloc kfree kmem_ready kpages "\<lambda>s. page_ok (kend s)"
proof unfold_locales
  fix s :: "'a kmem_scheme" and P v p
  {
    assume "kmem_ready s" "kpages s {}"
    then show "returns (kalloc s) (\<lambda>(r, s'). r = 0 \<and> kmem_ready s' \<and> kpages s' {})"
      using kalloc_returns [of s "[]"] by (fastforce simp: kpages_def returns_iff)
  next
    assume "kmem_ready s" "kpages s P" "P \<noteq> {}"
    then obtain ps where "free_pages s ps" "P = set ps" "ps \<noteq> []" by (auto simp: kpages_def)
    then obtain q qs where q: "free_pages s (q # qs)" "P = set (q # qs)" by (cases ps) auto
    then have "0 < q" "set qs = P - {q}" by (auto simp: free_pages_def page_ok_def)
    with kalloc_returns [OF \<open>kmem_ready s\<close> q(1)] q(2)
    show "returns (kalloc s) (\<lambda>(r, s'). r \<noteq> 0 \<and> r \<in> P \<and> kmem_ready s' \<and> kpages s' (P - {r})
        \<and> page_ok (kend s') = page_ok (kend s))"
      by (fastforce simp: kpages_def kmem_frame_def returns_iff)
  next
    assume "kmem_ready s" "kpages s P" "page_ok (kend s) v" "v \<notin> P"
    then show "returns (kfree v s) (\<lambda>s'. kmem_ready s' \<and> kpages s' (insert v P)
        \<and> page_ok (kend s') = page_ok (kend s))"
      using kfree_returns [of s _ v] by (fastforce simp: kpages_def kmem_frame_def returns_iff)
  next
    assume "kpages s P" "p \<in> P"
    then show "page_ok (kend s) p" by (auto simp: kpages_def free_pages_def)
  }
qed

section \<open>Properties\<close>

text \<open>A machine whose free list holds the single page \<open>0x80200000\<close>.\<close>

definition kmem0 :: kmem where
  "kmem0 = \<lparr>cpus = cpus mach0, ncpu = 2, lapicid = 0, eflags_if = eflags_if mach0, locks = locks mach0,
     mem = \<lambda>_. nul, use_lock = True, freelist = 0x80200000, kend = 0x80110000\<rparr>"

lemma kmem0_ok: "kmem_ready kmem0" "free_pages kmem0 [0x80200000]"
proof -
  show "kmem_ready kmem0"
    by (simp add: kmem_ready_def mach_ok_def kmem0_def mach0_def this_cpu_def free_def upt_rec)
  show "free_pages kmem0 [0x80200000]"
    by (simp add: free_pages_def kmem0_def load32_def page_ok_def V2P_def KERNBASE_def PHYSTOP_def)
qed

text \<open>
  kalloc hands out the first page of the free list, or 0 when there is none; the page leaves
  the list, the rest of it and the memory are as before, and no lock stays taken.
\<close>
theorem kalloc_takes_head:
  assumes "kmem_ready s" and "free_pages s ps"
  shows "returns (kalloc s) (\<lambda>(r, s'). kmem_ready s' \<and> kmem_frame s s' \<and> mem s' = mem s
     \<and> r = (case ps of [] \<Rightarrow> 0 | p # qs \<Rightarrow> p) \<and> free_pages s' (tl ps))"
  using kalloc_returns [OF assms] by (cases ps) (auto elim!: returns_mono)

theorem kalloc_takes_head_witness:
  "returns (kalloc kmem0) (\<lambda>(r, s'). r = 0x80200000 \<and> free_pages s' [])"
  using kalloc_takes_head [OF kmem0_ok] by (rule returns_mono) auto

text \<open>
  kfree of a page that is usable and not free fills it with junk and puts it on the free list,
  writing nothing outside it; the list stays free of duplicates.
\<close>
theorem kfree_adds_page:
  assumes "kmem_ready s" and "free_pages s ps" and "page_ok (kend s) v" and "v \<notin> set ps"
  shows "returns (kfree v s) (\<lambda>s'. kmem_ready s' \<and> free_pages s' (v # ps)
     \<and> (\<forall>a. a < v \<or> v + 4096 \<le> a \<longrightarrow> mem s' a = mem s a))"
  using kfree_returns [OF assms] by (rule returns_mono) simp

theorem kfree_adds_page_witness:
  "returns (kfree 0x80300000 kmem0) (\<lambda>s'. free_pages s' [0x80300000, 0x80200000])"
proof -
  have "page_ok (kend kmem0) 0x80300000"
    by (simp add: kmem0_def page_ok_def V2P_def KERNBASE_def PHYSTOP_def)
  from kfree_adds_page [OF kmem0_ok this] show ?thesis by (auto elim: returns_mono)
qed

text \<open>
  C8. Allocating a page and giving it back leaves the set of free pages as it was, and two
  successive allocations never return the same page.
\<close>
theorem kalloc_kfree_roundtrip:
  assumes "kmem_ready s" and "kpages s P" and "P \<noteq> {}"
  shows "returns (bindr (kalloc s) (\<lambda>(p, s). kfree p s)) (\<lambda>s'. kmem_ready s' \<and> kpages s' P)
    \<and> returns (bindr (kalloc s) (\<lambda>(p, s). bindr (kalloc s) (\<lambda>(q, s). Inr (p, q))))
        (\<lambda>(p, q). p \<noteq> 0 \<and> q \<noteq> 0 \<longrightarrow> p \<noteq> q)"
  using kpage.alloc_dealloc [OF assms] kpage.alloc_twice_distinct [OF assms(1,2)] by blast

theorem kalloc_kfree_roundtrip_witness:
  "returns (bindr (kalloc kmem0) (\<lambda>(p, s). kfree p s)) (\<lambda>s'. kpages s' {0x80200000})"
proof -
  have "kpages kmem0 {0x80200000}" using kmem0_ok(2) unfolding kpages_def by (intro exI) auto
  from kalloc_kfree_roundtrip [OF kmem0_ok(1) this] show ?thesis by (auto elim: returns_mono)
qed

text \<open>
  kfree refuses an address that is not a page of the allocator: unaligned, below the end of
  the kernel image, or beyond the physical memory, it panics.
\<close>
theorem kfree_panics:
  assumes "v mod PGSIZE \<noteq> 0 \<or> v < kend s \<or> V2P v \<ge> PHYSTOP"
  shows "kfree v s = Inl (Panic ''kfree'')"
  using assms by (auto simp: kfree_def)

theorem kfree_panics_witness: "kfree 0x80200001 kmem0 = Inl (Panic ''kfree'')"
  using kfree_panics [where v = "0x80200001" and s = kmem0] by (simp add: PGSIZE_def)

end
