(* ===== verification/Proc.thy ===== *)
theory Proc
  imports Kalloc
begin

text \<open>
  The process table and the scheduler (proc.c, proc.h; switchuvm and switchkvm of vm.c). A
  process is an index into the table; \<open>None\<close> is the null pointer. A call to \<open>swtch\<close> transfers
  control to another kernel thread, so each function that calls it is split there: \<open>_enter\<close> is
  the part before the switch and \<open>_resume\<close> the part after it. Wait channels are the addresses
  the kernel sleeps on. \<open>trapret\<close> and \<open>forkret\<close> are code addresses. The operations that need the
  file system or the page tables (fork, exit, wait, growproc, userinit) are not in this theory.
\<close>

section \<open>Definitions\<close>

datatype procstate = UNUSED | EMBRYO | SLEEPING | RUNNABLE | RUNNING | ZOMBIE

datatype chan =
    Chan_proc nat | Chan_ticks | Chan_input_r | Chan_log | Chan_buf nat
  | Chan_sleep sleep_id | Chan_pipe_nread nat | Chan_pipe_nwrite nat

record proc =
  sz :: nat
  pgdir :: nat
  kstack :: nat
  pstate :: procstate
  pid :: int
  parent :: "nat option"
  tf :: nat
  pcontext :: nat
  chan :: "chan option"
  killed :: bool
  ofile :: "nat option list"
  cwd :: "nat option"
  pname :: string

definition NPROC :: nat where "NPROC = 64"
definition KSTACKSIZE :: nat where "KSTACKSIZE = 4096"

record pstate_t = kmem +
  ptable :: "nat \<Rightarrow> proc"
  initproc :: "nat option"
  nextpid :: int
  kpgdir :: nat
  trapret :: nat
  forkret_addr :: nat

definition upd_proc :: "nat \<Rightarrow> (proc \<Rightarrow> proc) \<Rightarrow> 'a pstate_t_scheme \<Rightarrow> 'a pstate_t_scheme" where
  "upd_proc i f s = s\<lparr>ptable := (ptable s)(i := f (ptable s i))\<rparr>"

definition pinit :: "'a pstate_t_scheme \<Rightarrow> 'a pstate_t_scheme" where
  "pinit s = initlock Ptable_lock ''ptable'' s"

definition cpuid :: "'a mach_scheme \<Rightarrow> nat res" where
  "cpuid s = mycpu s"

definition myproc :: "'a mach_scheme \<Rightarrow> (nat option \<times> 'a mach_scheme) res" where
  "myproc s =
     bindr (pushcli s) (\<lambda>s.
     bindr (mycpu s) (\<lambda>c.
       let p = cpu_proc (cpus s c)
       in bindr (popcli s) (\<lambda>s. Inr (p, s))))"

text \<open>
  The new kernel stack holds, from the top, the trap frame (76 bytes), the return address
  trapret, and the context (20 bytes) whose eip is forkret.
\<close>

definition allocproc :: "'a pstate_t_scheme \<Rightarrow> (nat option \<times> 'a pstate_t_scheme) res" where
  "allocproc s =
     bindr (acquire Ptable_lock s) (\<lambda>s.
     case find (\<lambda>i. pstate (ptable s i) = UNUSED) [0..<NPROC] of
       None \<Rightarrow> bindr (release Ptable_lock s) (\<lambda>s. Inr (None, s))
     | Some p \<Rightarrow>
         let s = upd_proc p (\<lambda>q. q\<lparr>pstate := EMBRYO, pid := nextpid s\<rparr>) s;
             s = s\<lparr>nextpid := nextpid s + 1\<rparr>
         in bindr (release Ptable_lock s) (\<lambda>s.
            bindr (kalloc s) (\<lambda>(k, s).
              let s = upd_proc p (\<lambda>q. q\<lparr>kstack := k\<rparr>) s
              in if k = 0 then Inr (None, upd_proc p (\<lambda>q. q\<lparr>pstate := UNUSED\<rparr>) s)
                 else
                   let sp = k + KSTACKSIZE;
                       sp = sp - 76;
                       s = upd_proc p (\<lambda>q. q\<lparr>tf := sp\<rparr>) s;
                       sp = sp - 4;
                       s = s\<lparr>mem := store32 (mem s) sp (int (trapret s))\<rparr>;
                       sp = sp - 20;
                       s = upd_proc p (\<lambda>q. q\<lparr>pcontext := sp\<rparr>) s;
                       s = s\<lparr>mem := memset sp 0 20 (mem s)\<rparr>;
                       s = s\<lparr>mem := store32 (mem s) (sp + 16) (int (forkret_addr s))\<rparr>
                   in Inr (Some p, s))))"

definition switchkvm :: "'a pstate_t_scheme \<Rightarrow> 'a pstate_t_scheme res" where
  "switchkvm s = bindr (mycpu s) (\<lambda>c. Inr (upd_cpu c (\<lambda>k. k\<lparr>cr3 := V2P (kpgdir s)\<rparr>) s))"

definition switchuvm :: "nat option \<Rightarrow> 'a pstate_t_scheme \<Rightarrow> 'a pstate_t_scheme res" where
  "switchuvm p s =
     (case p of None \<Rightarrow> Inl (Panic ''switchuvm: no process'')
      | Some i \<Rightarrow>
          if kstack (ptable s i) = 0 then Inl (Panic ''switchuvm: no kstack'')
          else if pgdir (ptable s i) = 0 then Inl (Panic ''switchuvm: no pgdir'')
          else bindr (pushcli s) (\<lambda>s.
               bindr (mycpu s) (\<lambda>c.
                 let s = upd_cpu c (\<lambda>k. k\<lparr>ts_ss0 := 16,
                           ts_esp0 := kstack (ptable s i) + KSTACKSIZE, ts_iomb := 0xFFFF\<rparr>) s;
                     s = upd_cpu c (\<lambda>k. k\<lparr>cr3 := V2P (pgdir (ptable s i))\<rparr>) s
                 in popcli s)))"

definition scheduler_init :: "'a pstate_t_scheme \<Rightarrow> 'a pstate_t_scheme res" where
  "scheduler_init s = bindr (mycpu s) (\<lambda>c. Inr (upd_cpu c (\<lambda>k. k\<lparr>cpu_proc := None\<rparr>) s))"

definition scheduler_loop :: "'a pstate_t_scheme \<Rightarrow> 'a pstate_t_scheme res" where
  "scheduler_loop s = acquire Ptable_lock (sti s)"

definition scheduler_run :: "nat \<Rightarrow> 'a pstate_t_scheme \<Rightarrow> ('a pstate_t_scheme option) res" where
  "scheduler_run p s =
     (if pstate (ptable s p) \<noteq> RUNNABLE then Inr None
      else bindr (mycpu s) (\<lambda>c.
        let s = upd_cpu c (\<lambda>k. k\<lparr>cpu_proc := Some p\<rparr>) s
        in bindr (switchuvm (Some p) s) (\<lambda>s.
           Inr (Some (upd_proc p (\<lambda>q. q\<lparr>pstate := RUNNING\<rparr>) s)))))"

definition scheduler_back :: "'a pstate_t_scheme \<Rightarrow> 'a pstate_t_scheme res" where
  "scheduler_back s =
     bindr (switchkvm s) (\<lambda>s.
     bindr (mycpu s) (\<lambda>c. Inr (upd_cpu c (\<lambda>k. k\<lparr>cpu_proc := None\<rparr>) s)))"

definition sched_enter :: "'a pstate_t_scheme \<Rightarrow> (bool \<times> 'a pstate_t_scheme) res" where
  "sched_enter s =
     bindr (myproc s) (\<lambda>(p, s).
     bindr (holding Ptable_lock s) (\<lambda>(h, s).
       if \<not> h then Inl (Panic ''sched ptable.lock'')
       else bindr (mycpu s) (\<lambda>c.
         if ncli (cpus s c) \<noteq> 1 then Inl (Panic ''sched locks'')
         else case p of None \<Rightarrow> Inl (Undef ''null pointer'')
         | Some i \<Rightarrow>
             if pstate (ptable s i) = RUNNING then Inl (Panic ''sched running'')
             else if readeflags_if s then Inl (Panic ''sched interruptible'')
             else Inr (intena (cpus s c), s))))"

definition sched_resume :: "bool \<Rightarrow> 'a pstate_t_scheme \<Rightarrow> 'a pstate_t_scheme res" where
  "sched_resume ena s = bindr (mycpu s) (\<lambda>c. Inr (upd_cpu c (\<lambda>k. k\<lparr>intena := ena\<rparr>) s))"

definition yield_enter :: "'a pstate_t_scheme \<Rightarrow> (bool \<times> 'a pstate_t_scheme) res" where
  "yield_enter s =
     bindr (acquire Ptable_lock s) (\<lambda>s.
     bindr (myproc s) (\<lambda>(p, s).
       case p of None \<Rightarrow> Inl (Undef ''null pointer'')
       | Some i \<Rightarrow> sched_enter (upd_proc i (\<lambda>q. q\<lparr>pstate := RUNNABLE\<rparr>) s)))"

definition yield_resume :: "bool \<Rightarrow> 'a pstate_t_scheme \<Rightarrow> 'a pstate_t_scheme res" where
  "yield_resume ena s = bindr (sched_resume ena s) (\<lambda>s. release Ptable_lock s)"

definition sleep_enter ::
  "chan \<Rightarrow> lock_id option \<Rightarrow> 'a pstate_t_scheme \<Rightarrow> (bool \<times> 'a pstate_t_scheme) res" where
  "sleep_enter ch lk s =
     bindr (myproc s) (\<lambda>(p, s).
       case p of None \<Rightarrow> Inl (Panic ''sleep'')
       | Some i \<Rightarrow>
         (case lk of None \<Rightarrow> Inl (Panic ''sleep without lk'')
          | Some l \<Rightarrow>
              bindr (if l \<noteq> Ptable_lock
                     then bindr (acquire Ptable_lock s) (\<lambda>s. release l s) else Inr s) (\<lambda>s.
              sched_enter (upd_proc i (\<lambda>q. q\<lparr>chan := Some ch, pstate := SLEEPING\<rparr>) s))))"

definition sleep_resume :: "nat \<Rightarrow> lock_id \<Rightarrow> bool \<Rightarrow> 'a pstate_t_scheme \<Rightarrow> 'a pstate_t_scheme res" where
  "sleep_resume i l ena s =
     bindr (sched_resume ena s) (\<lambda>s.
       let s = upd_proc i (\<lambda>q. q\<lparr>chan := None\<rparr>) s
       in if l \<noteq> Ptable_lock then bindr (release Ptable_lock s) (\<lambda>s. acquire l s) else Inr s)"

definition wakeup1 :: "chan \<Rightarrow> 'a pstate_t_scheme \<Rightarrow> 'a pstate_t_scheme" where
  "wakeup1 ch s =
     fold (\<lambda>i s. if pstate (ptable s i) = SLEEPING \<and> chan (ptable s i) = Some ch
                 then upd_proc i (\<lambda>q. q\<lparr>pstate := RUNNABLE\<rparr>) s else s) [0..<NPROC] s"

definition wakeup :: "chan \<Rightarrow> 'a pstate_t_scheme \<Rightarrow> 'a pstate_t_scheme res" where
  "wakeup ch s = bindr (acquire Ptable_lock s) (\<lambda>s. release Ptable_lock (wakeup1 ch s))"

definition kill :: "int \<Rightarrow> 'a pstate_t_scheme \<Rightarrow> (int \<times> 'a pstate_t_scheme) res" where
  "kill n s =
     bindr (acquire Ptable_lock s) (\<lambda>s.
     case find (\<lambda>i. pid (ptable s i) = n) [0..<NPROC] of
       Some i \<Rightarrow>
         let s = upd_proc i (\<lambda>q. q\<lparr>killed := True\<rparr>) s;
             s = (if pstate (ptable s i) = SLEEPING
                  then upd_proc i (\<lambda>q. q\<lparr>pstate := RUNNABLE\<rparr>) s else s)
         in bindr (release Ptable_lock s) (\<lambda>s. Inr (0, s))
     | None \<Rightarrow> bindr (release Ptable_lock s) (\<lambda>s. Inr (-1, s)))"

section \<open>Waking up sleepers\<close>

definition woken :: "chan \<Rightarrow> (nat \<Rightarrow> proc) \<Rightarrow> nat \<Rightarrow> proc" where
  "woken ch pt i =
     (if i < NPROC \<and> pstate (pt i) = SLEEPING \<and> chan (pt i) = Some ch
      then (pt i)\<lparr>pstate := RUNNABLE\<rparr> else pt i)"

lemma ptable_acq [simp]: "ptable (acq l s) = ptable s"
  and ptable_rel [simp]: "ptable (rel l s) = ptable s"
  by (simp_all add: acq_def rel_def Let_def)

lemma mach_ok_ptable [simp]: "mach_ok (s\<lparr>ptable := f\<rparr>) = mach_ok s"
  and holds_ptable [simp]: "holds l (s\<lparr>ptable := f\<rparr>) = holds l s"
  and free_ptable [simp]: "free l (s\<lparr>ptable := f\<rparr>) = free l s"
  and this_cpu_ptable [simp]: "this_cpu (s\<lparr>ptable := f\<rparr>) = this_cpu s"
  by (simp_all add: mach_ok_def holds_def free_def this_cpu_def readeflags_if_def split: option.split)

lemma rel_ptable: "rel l (s\<lparr>ptable := f\<rparr>) = (rel l s)\<lparr>ptable := f\<rparr>"
  by (simp add: rel_def Let_def)

lemma wakeup1_eq: "wakeup1 ch s = s\<lparr>ptable := woken ch (ptable s)\<rparr>"
proof -
  have "fold (\<lambda>i s. if pstate (ptable s i) = SLEEPING \<and> chan (ptable s i) = Some ch
              then upd_proc i (\<lambda>q. q\<lparr>pstate := RUNNABLE\<rparr>) s else s) [0..<n] s
        = s\<lparr>ptable := \<lambda>i. if i < n \<and> pstate (ptable s i) = SLEEPING \<and> chan (ptable s i) = Some ch
              then (ptable s i)\<lparr>pstate := RUNNABLE\<rparr> else ptable s i\<rparr>" for n
    by (induction n) (auto simp: upd_proc_def fun_eq_iff less_Suc_eq intro!: pstate_t.equality)
  then show ?thesis by (simp add: wakeup1_def woken_def [abs_def])
qed

definition wk :: "chan \<Rightarrow> 'a pstate_t_scheme \<Rightarrow> 'a pstate_t_scheme" where
  "wk ch s = (rel Ptable_lock (acq Ptable_lock s))\<lparr>ptable := woken ch (ptable s)\<rparr>"

lemma wakeup_eq:
  assumes "mach_ok s" and "free Ptable_lock s"
  shows "wakeup ch s = Inr (wk ch s)"
  using assms by (simp add: wakeup_def acquire_eq wakeup1_eq release_eq rel_ptable wk_def)

lemma wk_simps [simp]:
  "ptable (wk ch s) = woken ch (ptable s)"
  "pstate_t.more (wk ch s) = pstate_t.more s"
  "mach_ok s \<Longrightarrow> mach_ok (wk ch s)"
  "mach_ok s \<Longrightarrow> holds l s \<Longrightarrow> l \<noteq> Ptable_lock \<Longrightarrow> holds l (wk ch s)"
  "free Ptable_lock s \<Longrightarrow> free l (wk ch s) = free l s"
  by (auto simp: wk_def) (simp add: acq_def rel_def Let_def)

lemma woken_not_sleeping:
  "i < NPROC \<Longrightarrow> chan (pt i) = Some ch \<Longrightarrow> pstate (woken ch pt i) \<noteq> SLEEPING"
  by (simp add: woken_def)

lemma woken_other:
  "pstate (pt i) \<noteq> SLEEPING \<or> chan (pt i) \<noteq> Some ch \<Longrightarrow> woken ch pt i = pt i"
  by (auto simp: woken_def)

section \<open>One CPU per running process\<close>

text \<open>
  Interrupt nesting and the locks do not touch what the scheduler keeps: \<open>same_sched\<close> is that
  frame, and every operation of the lock layer is inside it whenever it returns.
\<close>

definition same_sched :: "'a pstate_t_scheme \<Rightarrow> 'a pstate_t_scheme \<Rightarrow> bool" where
  "same_sched s t \<longleftrightarrow> ncpu t = ncpu s \<and> lapicid t = lapicid s \<and>
     (\<forall>c. apicid (cpus t c) = apicid (cpus s c) \<and> cpu_proc (cpus t c) = cpu_proc (cpus s c)) \<and>
     ptable t = ptable s"

lemma same_sched_refl [simp]: "same_sched s s"
  by (simp add: same_sched_def)

lemma same_sched_trans: "same_sched s t \<Longrightarrow> same_sched t u \<Longrightarrow> same_sched s u"
  by (simp add: same_sched_def)

lemma same_schedD:
  assumes "same_sched s t"
  shows "ptable t = ptable s" "this_cpu t = this_cpu s" "ncpu t = ncpu s"
    "cpu_proc (cpus t c) = cpu_proc (cpus s c)"
  using assms by (auto simp: same_sched_def this_cpu_def)

lemma mycpu_Inr: "mycpu s = Inr c \<Longrightarrow> this_cpu s = Some c"
  by (auto simp: mycpu_def this_cpu_def split: if_splits option.splits)

lemma same_pushcli: "pushcli s = Inr t \<Longrightarrow> same_sched s t"
  by (auto simp: pushcli_def bindr_eq_Inr Let_def same_sched_def mach_defs split: if_splits)

lemma same_popcli: "popcli s = Inr t \<Longrightarrow> same_sched s t"
  by (auto simp: popcli_def bindr_eq_Inr Let_def same_sched_def mach_defs split: if_splits)

lemma same_holding:
  assumes "holding l s = Inr (h, t)"
  shows "same_sched s t"
proof -
  from assms obtain s1 where "pushcli s = Inr s1" "popcli s1 = Inr t"
    by (auto simp: holding_def bindr_eq_Inr Let_def)
  then show ?thesis by (blast intro: same_sched_trans same_pushcli same_popcli)
qed

lemma same_upd_lock [simp]:
  "same_sched s (upd_lock l f t) = same_sched s t"
  "same_sched (upd_lock l f s) t = same_sched s t"
  by (simp_all add: same_sched_def mach_defs)

lemma same_acquire: "acquire l s = Inr t \<Longrightarrow> same_sched s t"
  by (auto simp: acquire_def bindr_eq_Inr Let_def split: if_splits prod.splits
      dest!: same_pushcli same_holding elim: same_sched_trans)

lemma same_release: "release l s = Inr t \<Longrightarrow> same_sched s t"
  by (auto simp: release_def bindr_eq_Inr Let_def split: if_splits prod.splits
      dest!: same_popcli same_holding elim: same_sched_trans)

lemma myproc_Inr:
  assumes "myproc s = Inr (p, t)"
  shows "same_sched s t" and "\<exists>c. this_cpu s = Some c \<and> p = cpu_proc (cpus s c)"
proof -
  from assms obtain s1 c where *: "pushcli s = Inr s1" "mycpu s1 = Inr c"
    "p = cpu_proc (cpus s1 c)" "popcli s1 = Inr t"
    by (auto simp: myproc_def bindr_eq_Inr Let_def)
  note f = same_pushcli [OF *(1)]
  show "same_sched s t" using f same_popcli [OF *(4)] by (rule same_sched_trans)
  show "\<exists>c. this_cpu s = Some c \<and> p = cpu_proc (cpus s c)"
    using * mycpu_Inr [OF *(2)] same_schedD [OF f] by auto
qed

definition sched_inv :: "'a pstate_t_scheme \<Rightarrow> bool" where
  "sched_inv s \<longleftrightarrow>
     (\<forall>c i. c < ncpu s \<longrightarrow> cpu_proc (cpus s c) = Some i \<longrightarrow> pstate (ptable s i) = RUNNING) \<and>
     (\<forall>c d i. c < ncpu s \<longrightarrow> d < ncpu s \<longrightarrow> cpu_proc (cpus s c) = Some i \<longrightarrow>
        cpu_proc (cpus s d) = Some i \<longrightarrow> c = d) \<and>
     (\<forall>i. pstate (ptable s i) = RUNNING \<longrightarrow> (\<exists>c < ncpu s. cpu_proc (cpus s c) = Some i))"

lemma sched_inv_same: "same_sched s t \<Longrightarrow> sched_inv s \<Longrightarrow> sched_inv t"
  by (simp add: sched_inv_def same_schedD)

text \<open>A CPU gives up its process: the process has left \<open>RUNNING\<close>, then the CPU forgets it.\<close>

lemma sched_inv_leave:
  assumes "sched_inv s" and "this_cpu s = Some c" and "cpu_proc (cpus s c) = Some i"
    and "ncpu t = ncpu s" and "\<And>d. cpu_proc (cpus t d) = (if d = c then None else cpu_proc (cpus s d))"
    and "\<And>j. j \<noteq> i \<Longrightarrow> pstate (ptable t j) = pstate (ptable s j)" and "pstate (ptable t i) \<noteq> RUNNING"
  shows "sched_inv t"
proof -
  have c: "c < ncpu s" using assms(2) this_cpu_Some by blast
  have ne: "cpu_proc (cpus s d) \<noteq> Some i" if "d < ncpu s" "d \<noteq> c" for d
    using that assms(1,3) c unfolding sched_inv_def by blast
  show ?thesis
    unfolding sched_inv_def
  proof (intro conjI allI impI)
    fix d j assume "d < ncpu t" "cpu_proc (cpus t d) = Some j"
    then have "d \<noteq> c" "d < ncpu s" "cpu_proc (cpus s d) = Some j"
      using assms(4,5) by (auto split: if_splits)
    with ne have "j \<noteq> i" by blast
    with \<open>d < ncpu s\<close> \<open>cpu_proc (cpus s d) = Some j\<close> assms(1,6) show "pstate (ptable t j) = RUNNING"
      by (simp add: sched_inv_def)
  next
    fix d e j assume "d < ncpu t" "e < ncpu t" "cpu_proc (cpus t d) = Some j" "cpu_proc (cpus t e) = Some j"
    with assms(1,4,5) show "d = e" unfolding sched_inv_def by (metis option.distinct(1))
  next
    fix j assume "pstate (ptable t j) = RUNNING"
    with assms(6,7) have "j \<noteq> i" "pstate (ptable s j) = RUNNING" by metis+
    with assms(1) obtain d where "d < ncpu s" "cpu_proc (cpus s d) = Some j"
      unfolding sched_inv_def by blast
    with assms(3,4,5) \<open>j \<noteq> i\<close> show "\<exists>d<ncpu t. cpu_proc (cpus t d) = Some j" by (intro exI [of _ d]) auto
  qed
qed

text \<open>An idle CPU takes a runnable process.\<close>

lemma sched_inv_take:
  assumes "sched_inv s" and "this_cpu s = Some c" and "cpu_proc (cpus s c) = None"
    and "pstate (ptable s i) = RUNNABLE"
    and "ncpu t = ncpu s" and "\<And>d. cpu_proc (cpus t d) = (if d = c then Some i else cpu_proc (cpus s d))"
    and "\<And>j. pstate (ptable t j) = (if j = i then RUNNING else pstate (ptable s j))"
  shows "sched_inv t"
proof -
  have c: "c < ncpu s" using assms(2) this_cpu_Some by blast
  have ne: "cpu_proc (cpus s d) \<noteq> Some i" if "d < ncpu s" for d
    using that assms(1,4) unfolding sched_inv_def by (metis procstate.distinct)
  show ?thesis
    unfolding sched_inv_def
  proof (intro conjI allI impI)
    fix d j assume "d < ncpu t" "cpu_proc (cpus t d) = Some j"
    with assms(1,5-7) show "pstate (ptable t j) = RUNNING"
      by (auto simp: sched_inv_def split: if_splits)
  next
    fix d e j assume "d < ncpu t" "e < ncpu t" "cpu_proc (cpus t d) = Some j" "cpu_proc (cpus t e) = Some j"
    with assms(1,5,6) ne show "d = e" unfolding sched_inv_def by (metis option.inject)
  next
    fix j assume *: "pstate (ptable t j) = RUNNING"
    show "\<exists>d<ncpu t. cpu_proc (cpus t d) = Some j"
    proof (cases "j = i")
      case False
      with * assms(1,7) obtain d where "d < ncpu s" "cpu_proc (cpus s d) = Some j"
        unfolding sched_inv_def by metis
      with assms(3,5,6) show ?thesis by (intro exI [of _ d]) auto
    qed (use c assms(5,6) in auto)
  qed
qed

text \<open>A change of the table that moves no process into or out of \<open>RUNNING\<close>.\<close>

lemma sched_inv_ptable:
  assumes "sched_inv s" and "ncpu t = ncpu s" and "\<And>d. cpu_proc (cpus t d) = cpu_proc (cpus s d)"
    and "\<And>j. pstate (ptable t j) = RUNNING \<longleftrightarrow> pstate (ptable s j) = RUNNING"
  shows "sched_inv t"
  using assms by (simp add: sched_inv_def)

lemma same_upd_proc_chan: "same_sched s t \<Longrightarrow> pstate (ptable (upd_proc i f t) j) =
    (if j = i then pstate (f (ptable s i)) else pstate (ptable s j))"
  by (simp add: upd_proc_def same_schedD)

lemma upd_proc_simps [simp]:
  "ncpu (upd_proc i f s) = ncpu s" "cpus (upd_proc i f s) = cpus s"
  "this_cpu (upd_proc i f s) = this_cpu s" "lapicid (upd_proc i f s) = lapicid s"
  "ptable (upd_proc i f s) = (ptable s)(i := f (ptable s i))"
  by (simp_all add: upd_proc_def)

lemma sched_enter_Inr: "sched_enter s = Inr (e, t) \<Longrightarrow> same_sched s t"
  by (auto simp: sched_enter_def bindr_eq_Inr split: if_splits prod.splits option.splits
      dest!: myproc_Inr(1) same_holding elim: same_sched_trans)

lemma scheduler_back_Inr:
  assumes "scheduler_back s = Inr t"
  obtains c where "this_cpu s = Some c" "ncpu t = ncpu s" "ptable t = ptable s"
    "\<forall>d. cpu_proc (cpus t d) = (if d = c then None else cpu_proc (cpus s d))"
proof -
  from assms obtain b c where bc: "mycpu s = Inr b"
    "mycpu (upd_cpu b (\<lambda>k. k\<lparr>cr3 := V2P (kpgdir s)\<rparr>) s) = Inr c"
    "t = upd_cpu c (\<lambda>k. k\<lparr>cpu_proc := None\<rparr>) (upd_cpu b (\<lambda>k. k\<lparr>cr3 := V2P (kpgdir s)\<rparr>) s)"
    by (auto simp: scheduler_back_def switchkvm_def bindr_eq_Inr)
  then have "this_cpu s = Some c"
    by (auto dest!: mycpu_Inr simp: upd_cpu_def)
  with bc that show thesis by (auto simp: upd_cpu_def)
qed

text \<open>\<open>yield\<close> and \<open>sleep\<close>, up to the switch: the current process leaves \<open>RUNNING\<close>.\<close>

lemma yield_enter_Inr:
  assumes "yield_enter s = Inr (e, t)"
  obtains c i where "this_cpu s = Some c" "cpu_proc (cpus s c) = Some i"
    "same_sched (upd_proc i (\<lambda>q. q\<lparr>pstate := RUNNABLE\<rparr>) s) t"
proof -
  from assms obtain s1 p s2 where *: "acquire Ptable_lock s = Inr s1" "myproc s1 = Inr (Some p, s2)"
    "sched_enter (upd_proc p (\<lambda>q. q\<lparr>pstate := RUNNABLE\<rparr>) s2) = Inr (e, t)"
    by (auto simp: yield_enter_def bindr_eq_Inr split: option.splits)
  have f1: "same_sched s s1" and f2: "same_sched s1 s2"
    using * same_acquire myproc_Inr(1) by blast+
  from myproc_Inr(2) [OF *(2)] obtain c where "this_cpu s1 = Some c" "cpu_proc (cpus s1 c) = Some p"
    by auto
  moreover have "same_sched (upd_proc p (\<lambda>q. q\<lparr>pstate := RUNNABLE\<rparr>) s)
      (upd_proc p (\<lambda>q. q\<lparr>pstate := RUNNABLE\<rparr>) s2)"
    using same_sched_trans [OF f1 f2] by (simp add: same_sched_def)
  ultimately show thesis
    using same_schedD [OF f1]
    by (intro that [of c p] same_sched_trans [OF _ sched_enter_Inr [OF *(3)]]) simp_all
qed

lemma sleep_enter_Inr:
  assumes "sleep_enter ch lk s = Inr (e, t)"
  obtains c i where "this_cpu s = Some c" "cpu_proc (cpus s c) = Some i"
    "same_sched (upd_proc i (\<lambda>q. q\<lparr>chan := Some ch, pstate := SLEEPING\<rparr>) s) t"
proof -
  from assms obtain p s1 l s2 where *: "myproc s = Inr (Some p, s1)" "lk = Some l"
    "(if l \<noteq> Ptable_lock then bindr (acquire Ptable_lock s1) (\<lambda>s. release l s) else Inr s1) = Inr s2"
    "sched_enter (upd_proc p (\<lambda>q. q\<lparr>chan := Some ch, pstate := SLEEPING\<rparr>) s2) = Inr (e, t)"
    by (cases lk) (auto simp: sleep_enter_def bindr_eq_Inr split: option.splits)
  have f1: "same_sched s s1" using * myproc_Inr(1) by blast
  have f2: "same_sched s1 s2"
    using *(3) by (auto simp: bindr_eq_Inr split: if_splits
        dest!: same_acquire same_release elim: same_sched_trans)
  from myproc_Inr(2) [OF *(1)] obtain c where "this_cpu s = Some c" "cpu_proc (cpus s c) = Some p"
    by auto
  moreover have "same_sched (upd_proc p (\<lambda>q. q\<lparr>chan := Some ch, pstate := SLEEPING\<rparr>) s)
      (upd_proc p (\<lambda>q. q\<lparr>chan := Some ch, pstate := SLEEPING\<rparr>) s2)"
    using same_sched_trans [OF f1 f2] by (simp add: same_sched_def)
  ultimately show thesis
    by (intro that [of c p] same_sched_trans [OF _ sched_enter_Inr [OF *(4)]]) simp_all
qed

lemma scheduler_run_Inr:
  assumes "scheduler_run i s = Inr (Some t)"
  obtains c where "this_cpu s = Some c" "pstate (ptable s i) = RUNNABLE" "ncpu t = ncpu s"
    "\<forall>d. cpu_proc (cpus t d) = (if d = c then Some i else cpu_proc (cpus s d))"
    "\<forall>j. pstate (ptable t j) = (if j = i then RUNNING else pstate (ptable s j))"
proof -
  from assms obtain c s1 where *: "pstate (ptable s i) = RUNNABLE" "mycpu s = Inr c"
    "switchuvm (Some i) (upd_cpu c (\<lambda>k. k\<lparr>cpu_proc := Some i\<rparr>) s) = Inr s1"
    "t = upd_proc i (\<lambda>q. q\<lparr>pstate := RUNNING\<rparr>) s1"
    by (auto simp: scheduler_run_def bindr_eq_Inr Let_def split: if_splits)
  have "same_sched (upd_cpu c (\<lambda>k. k\<lparr>cpu_proc := Some i\<rparr>) s) s1"
    using *(3) by (auto simp: switchuvm_def bindr_eq_Inr Let_def split: if_splits
        dest!: same_pushcli same_popcli) (auto simp: same_sched_def upd_cpu_def)
  note f = same_schedD [OF this]
  show thesis
    by (rule that [of c]) (use * mycpu_Inr [OF *(2)] f in \<open>auto simp: upd_cpu_def\<close>)
qed

text \<open>
  The steps of a machine: the executing CPU changes at any point between the steps below, and
  each step runs under ptable.lock from the acquire in it to the switch. \<open>runs\<close> is the body of
  the scheduler loop on a CPU that has no process and holds the lock.
\<close>

inductive sched_step :: "'a pstate_t_scheme \<Rightarrow> 'a pstate_t_scheme \<Rightarrow> bool" where
  cpu_switch: "sched_step s (s\<lparr>lapicid := a\<rparr>)"
| yields: "yield_enter s = Inr (e, s1) \<Longrightarrow> scheduler_back s1 = Inr s2 \<Longrightarrow> sched_step s s2"
| sleeps: "sleep_enter ch lk s = Inr (e, s1) \<Longrightarrow> scheduler_back s1 = Inr s2 \<Longrightarrow> sched_step s s2"
| loops: "scheduler_loop s = Inr s1 \<Longrightarrow> sched_step s s1"
| runs: "holds Ptable_lock s \<Longrightarrow> this_cpu s = Some c \<Longrightarrow> cpu_proc (cpus s c) = None \<Longrightarrow>
    scheduler_run i s = Inr (Some s1) \<Longrightarrow> sched_step s s1"
| yield_returns: "yield_resume e s = Inr s1 \<Longrightarrow> sched_step s s1"
| sleep_returns: "sleep_resume i l e s = Inr s1 \<Longrightarrow> sched_step s s1"
| wakes: "wakeup ch s = Inr s1 \<Longrightarrow> sched_step s s1"
| kills: "kill n s = Inr (r, s1) \<Longrightarrow> sched_step s s1"
| allocs: "allocproc s = Inr (p, s1) \<Longrightarrow> sched_step s s1"

inductive sched_steps :: "'a pstate_t_scheme \<Rightarrow> 'a pstate_t_scheme \<Rightarrow> bool" where
  done_steps: "sched_steps s s"
| more_steps: "sched_steps s t \<Longrightarrow> sched_step t u \<Longrightarrow> sched_steps s u"

lemma sched_resume_same: "sched_resume e s = Inr t \<Longrightarrow> same_sched s t"
  by (auto simp: sched_resume_def bindr_eq_Inr same_sched_def upd_cpu_def)

lemma sched_inv_yield:
  assumes "sched_inv s" and "yield_enter s = Inr (e, s1)" and "scheduler_back s1 = Inr s2"
  shows "sched_inv s2"
proof -
  obtain c i where 1: "this_cpu s = Some c" "cpu_proc (cpus s c) = Some i"
    "same_sched (upd_proc i (\<lambda>q. q\<lparr>pstate := RUNNABLE\<rparr>) s) s1"
    using assms(2) by (rule yield_enter_Inr)
  obtain c' where 2: "this_cpu s1 = Some c'" "ncpu s2 = ncpu s1" "ptable s2 = ptable s1"
    "\<forall>d. cpu_proc (cpus s2 d) = (if d = c' then None else cpu_proc (cpus s1 d))"
    using assms(3) by (rule scheduler_back_Inr)
  note f = same_schedD [OF 1(3)]
  from 1 2 f have "c' = c" by simp
  show ?thesis
    by (rule sched_inv_leave [OF assms(1) 1(1,2)]) (use 2 f \<open>c' = c\<close> in auto)
qed

lemma sched_inv_sleep:
  assumes "sched_inv s" and "sleep_enter ch lk s = Inr (e, s1)" and "scheduler_back s1 = Inr s2"
  shows "sched_inv s2"
proof -
  obtain c i where 1: "this_cpu s = Some c" "cpu_proc (cpus s c) = Some i"
    "same_sched (upd_proc i (\<lambda>q. q\<lparr>chan := Some ch, pstate := SLEEPING\<rparr>) s) s1"
    using assms(2) by (rule sleep_enter_Inr)
  obtain c' where 2: "this_cpu s1 = Some c'" "ncpu s2 = ncpu s1" "ptable s2 = ptable s1"
    "\<forall>d. cpu_proc (cpus s2 d) = (if d = c' then None else cpu_proc (cpus s1 d))"
    using assms(3) by (rule scheduler_back_Inr)
  note f = same_schedD [OF 1(3)]
  from 1 2 f have "c' = c" by simp
  show ?thesis
    by (rule sched_inv_leave [OF assms(1) 1(1,2)]) (use 2 f \<open>c' = c\<close> in auto)
qed

text \<open>The remaining operations keep every process on its side of \<open>RUNNING\<close>.\<close>

definition same_running :: "'a pstate_t_scheme \<Rightarrow> 'a pstate_t_scheme \<Rightarrow> bool" where
  "same_running s t \<longleftrightarrow> ncpu t = ncpu s \<and> (\<forall>d. cpu_proc (cpus t d) = cpu_proc (cpus s d)) \<and>
     (\<forall>j. pstate (ptable t j) = RUNNING \<longleftrightarrow> pstate (ptable s j) = RUNNING)"

lemma same_running_sched: "same_sched s t \<Longrightarrow> same_running s t"
  by (simp add: same_sched_def same_running_def)

lemma same_running_trans: "same_running s t \<Longrightarrow> same_running t u \<Longrightarrow> same_running s u"
  by (simp add: same_running_def)

lemma same_running_inv: "same_running s t \<Longrightarrow> sched_inv s \<Longrightarrow> sched_inv t"
  by (rule sched_inv_ptable) (simp_all add: same_running_def)

lemma same_running_upd:
  "pstate (f (ptable s i)) = RUNNING \<longleftrightarrow> pstate (ptable s i) = RUNNING \<Longrightarrow>
     same_running s (upd_proc i f s)"
  by (simp add: same_running_def)

lemma wakeup_running:
  assumes "wakeup ch s = Inr t"
  shows "same_running s t"
proof -
  from assms obtain s1 where "acquire Ptable_lock s = Inr s1" "release Ptable_lock (wakeup1 ch s1) = Inr t"
    by (auto simp: wakeup_def bindr_eq_Inr)
  moreover have "same_running s1 (wakeup1 ch s1)"
    by (simp add: same_running_def wakeup1_eq woken_def)
  ultimately show ?thesis
    by (blast intro: same_running_trans same_running_sched same_acquire same_release)
qed

definition kill_upd :: "nat \<Rightarrow> 'a pstate_t_scheme \<Rightarrow> 'a pstate_t_scheme" where
  "kill_upd i s = upd_proc i (\<lambda>q. if pstate q = SLEEPING
     then q\<lparr>killed := True, pstate := RUNNABLE\<rparr> else q\<lparr>killed := True\<rparr>) s"

lemma kill_alt:
  "kill n s = bindr (acquire Ptable_lock s) (\<lambda>s.
     case find (\<lambda>i. pid (ptable s i) = n) [0..<NPROC] of
       Some i \<Rightarrow> bindr (release Ptable_lock (kill_upd i s)) (\<lambda>s. Inr (0, s))
     | None \<Rightarrow> bindr (release Ptable_lock s) (\<lambda>s. Inr (-1, s)))"
  unfolding kill_def
  by (rule arg_cong [where f = "bindr _"], rule ext)
     (simp add: Let_def kill_upd_def upd_proc_def split: option.split)

lemma kill_running:
  assumes "kill n s = Inr (r, t)"
  shows "same_running s t"
proof -
  from assms obtain s1 where acq: "acquire Ptable_lock s = Inr s1" and
    k: "(case find (\<lambda>i. pid (ptable s1 i) = n) [0..<NPROC] of
       Some i \<Rightarrow> bindr (release Ptable_lock (kill_upd i s1)) (\<lambda>s. Inr (0, s))
     | None \<Rightarrow> bindr (release Ptable_lock s1) (\<lambda>s. Inr (-1, s))) = Inr (r, t)"
    by (auto simp: kill_alt bindr_eq_Inr)
  have "same_running s1 t"
  proof (cases "find (\<lambda>i. pid (ptable s1 i) = n) [0..<NPROC]")
    case None
    with k show ?thesis by (auto simp: bindr_eq_Inr intro: same_running_sched same_release)
  next
    case (Some i)
    have "same_running s1 (kill_upd i s1)" unfolding kill_upd_def by (rule same_running_upd) simp
    with Some k show ?thesis
      by (auto simp: bindr_eq_Inr intro: same_running_trans same_running_sched same_release)
  qed
  with acq show ?thesis by (blast intro: same_running_trans same_running_sched same_acquire)
qed

lemma kalloc_same:
  assumes "kalloc s = Inr (k, t)"
  shows "same_sched s t"
proof -
  from assms obtain s1 s2 where *: "(if use_lock s then acquire Kmem_lock s else Inr s) = Inr s1"
    "(if use_lock s2 then release Kmem_lock s2 else Inr s2) = Inr t"
    "s2 = (if freelist s1 \<noteq> 0 then s1\<lparr>freelist := nat (load32 (mem s1) (freelist s1))\<rparr> else s1)"
    by (auto simp: kalloc_def bindr_eq_Inr Let_def split del: if_split)
  have "same_sched s s1" using *(1) by (auto split: if_splits intro: same_acquire)
  moreover have "same_sched s1 s2" using *(3) by (simp add: same_sched_def)
  moreover have "same_sched s2 t" using *(2) by (auto split: if_splits intro: same_release)
  ultimately show ?thesis by (blast intro: same_sched_trans)
qed

lemma allocproc_running:
  assumes "allocproc s = Inr (p, t)"
  shows "same_running s t"
proof -
  from assms obtain s1 where acq: "acquire Ptable_lock s = Inr s1"
    by (auto simp: allocproc_def bindr_eq_Inr)
  have "same_running s1 t"
  proof (cases "find (\<lambda>i. pstate (ptable s1 i) = UNUSED) [0..<NPROC]")
    case None
    with assms acq show ?thesis
      by (auto simp: allocproc_def bindr_eq_Inr intro: same_running_sched same_release)
  next
    case (Some i)
    then have u: "pstate (ptable s1 i) = UNUSED" by (auto simp: find_Some_iff)
    let ?s1 = "(upd_proc i (\<lambda>q. q\<lparr>pstate := EMBRYO, pid := nextpid s1\<rparr>) s1)\<lparr>nextpid := nextpid s1 + 1\<rparr>"
    from assms acq Some obtain s2 k s3 where *: "release Ptable_lock ?s1 = Inr s2" "kalloc s2 = Inr (k, s3)"
      and t: "ncpu t = ncpu s3" "cpus t = cpus s3"
        "\<forall>j. j \<noteq> i \<longrightarrow> pstate (ptable t j) = pstate (ptable s3 j)"
        "pstate (ptable t i) = pstate (ptable s3 i) \<or> pstate (ptable t i) = UNUSED"
      by (auto simp: allocproc_def bindr_eq_Inr Let_def upd_proc_def split: if_splits)
    note f = same_schedD [OF same_sched_trans [OF same_release [OF *(1)] kalloc_same [OF *(2)]]]
    have "\<forall>j. pstate (ptable t j) = RUNNING \<longleftrightarrow> pstate (ptable s1 j) = RUNNING"
    proof
      fix j
      show "pstate (ptable t j) = RUNNING \<longleftrightarrow> pstate (ptable s1 j) = RUNNING"
        using t(3,4) f(1) u by (cases "j = i") auto
    qed
    with t(1,2) f(3,4) show ?thesis by (simp add: same_running_def)
  qed
  with acq show ?thesis by (blast intro: same_running_trans same_running_sched same_acquire)
qed

lemma sleep_resume_running:
  assumes "sleep_resume i l e s = Inr t"
  shows "same_running s t"
proof -
  from assms obtain s1 where s1: "sched_resume e s = Inr s1" and
    r: "(if l \<noteq> Ptable_lock then bindr (release Ptable_lock (upd_proc i (\<lambda>q. q\<lparr>chan := None\<rparr>) s1))
        (\<lambda>s. acquire l s) else Inr (upd_proc i (\<lambda>q. q\<lparr>chan := None\<rparr>) s1)) = Inr t"
    by (auto simp: sleep_resume_def bindr_eq_Inr Let_def split del: if_split)
  have "same_running s1 (upd_proc i (\<lambda>q. q\<lparr>chan := None\<rparr>) s1)" by (rule same_running_upd) simp
  moreover have "same_sched (upd_proc i (\<lambda>q. q\<lparr>chan := None\<rparr>) s1) t"
    using r by (auto simp: bindr_eq_Inr split: if_splits
        dest!: same_acquire same_release elim: same_sched_trans)
  ultimately show ?thesis
    using s1 by (blast intro: same_running_trans same_running_sched sched_resume_same)
qed

lemma yield_resume_running: "yield_resume e s = Inr t \<Longrightarrow> same_running s t"
  by (auto simp: yield_resume_def bindr_eq_Inr
      intro: same_running_trans same_running_sched sched_resume_same same_release)

lemma scheduler_loop_running:
  assumes "scheduler_loop s = Inr t"
  shows "same_running s t"
proof -
  have "same_running s (sti s)" by (simp add: same_running_def sti_def)
  with assms show ?thesis
    unfolding scheduler_loop_def by (blast intro: same_running_trans same_running_sched same_acquire)
qed

lemma sched_step_inv: "sched_step s t \<Longrightarrow> sched_inv s \<Longrightarrow> sched_inv t"
proof (induction rule: sched_step.induct)
  case (cpu_switch s a)
  then show ?case by (simp add: sched_inv_def)
next
  case (runs s c i s1)
  obtain c' where "this_cpu s = Some c'" "pstate (ptable s i) = RUNNABLE" "ncpu s1 = ncpu s"
    "\<forall>d. cpu_proc (cpus s1 d) = (if d = c' then Some i else cpu_proc (cpus s d))"
    "\<forall>j. pstate (ptable s1 j) = (if j = i then RUNNING else pstate (ptable s j))"
    using runs.hyps(4) by (rule scheduler_run_Inr)
  with runs show ?case by (intro sched_inv_take [of s c i s1]) auto
qed (blast intro: sched_inv_yield sched_inv_sleep same_running_inv yield_resume_running
      sleep_resume_running wakeup_running kill_running allocproc_running scheduler_loop_running)+

lemma sched_steps_inv: "sched_steps s t \<Longrightarrow> sched_inv s \<Longrightarrow> sched_inv t"
  by (induction rule: sched_steps.induct) (auto intro: sched_step_inv)

section \<open>Going to sleep\<close>

lemma myproc_eq:
  assumes "this_cpu s = Some i" and "\<not> readeflags_if s" and "0 < ncli (cpus s i)"
  shows "myproc s = Inr (cpu_proc (cpus s i), s)"
proof -
  have "(eflags_if s)(lapicid s := False) = eflags_if s"
    using assms(2) by (auto simp: readeflags_if_def fun_eq_iff)
  then have push: "pushcli s = Inr (s\<lparr>cpus := (cpus s)(i := (cpus s i)\<lparr>ncli := ncli (cpus s i) + 1\<rparr>)\<rparr>)"
    using assms by (simp add: pushcli_eq)
  let ?s = "s\<lparr>cpus := (cpus s)(i := (cpus s i)\<lparr>ncli := ncli (cpus s i) + 1\<rparr>)\<rparr>"
  have "mycpu ?s = Inr i" using assms by (intro mycpu_eq) (simp_all add: mach_defs)
  moreover have "popcli ?s = Inr s"
    using assms \<open>(eflags_if s)(lapicid s := False) = eflags_if s\<close>
    by (subst popcli_eq [of _ i]) (simp_all add: mach_defs)
  ultimately show ?thesis by (simp add: myproc_def push)
qed

text \<open>The state in which sched switches away, and what it checks there.\<close>

lemma sched_enter_eq:
  assumes "mach_ok s" "holds Ptable_lock s" "this_cpu s = Some c" "ncli (cpus s c) = 1"
    "cpu_proc (cpus s c) = Some i" "pstate (ptable s i) \<noteq> RUNNING"
  shows "sched_enter s = Inr (intena (cpus s c), s)"
proof -
  have ifl: "\<not> readeflags_if s" using assms(1,3,4) by (simp add: mach_ok_def)
  have "holding Ptable_lock s = Inr (True, s)"
    using holding_eq [OF assms(3) ifl, of Ptable_lock] assms(2-4) by (simp add: holds_def)
  then show ?thesis
    using assms myproc_eq [OF assms(3) ifl] mycpu_eq [OF ifl assms(3)] ifl by (simp add: sched_enter_def)
qed

lemma cpus_acq: "this_cpu s = Some c \<Longrightarrow> cpus (acq l s) c = (cpus s c)\<lparr>
    intena := (if ncli (cpus s c) = 0 then readeflags_if s else intena (cpus s c)), ncli := ncli (cpus s c) + 1\<rparr>"
  and this_cpu_acq [simp]: "this_cpu (acq l s) = this_cpu s"
  and cpus_rel: "this_cpu s = Some c \<Longrightarrow> cpus (rel l s) c = (cpus s c)\<lparr>ncli := ncli (cpus s c) - 1\<rparr>"
  and this_cpu_rel [simp]: "this_cpu (rel l s) = this_cpu s"
  by (simp_all add: acq_def rel_def Let_def)

lemma holds_rel_other:
  "mach_ok s \<Longrightarrow> holds k s \<Longrightarrow> k \<noteq> l \<Longrightarrow> 1 < ncli (cpus s (the (this_cpu s))) \<Longrightarrow> holds k (rel l s)"
  by (auto simp: holds_def rel_def Let_def)

lemma sleep_enter_eq:
  assumes "mach_ok s" "holds l s" "l \<noteq> Ptable_lock" "free Ptable_lock s" "this_cpu s = Some c"
    "ncli (cpus s c) = 1" "cpu_proc (cpus s c) = Some i"
  shows "sleep_enter ch (Some l) s = Inr (intena (cpus s c),
    upd_proc i (\<lambda>q. q\<lparr>chan := Some ch, pstate := SLEEPING\<rparr>) (rel l (acq Ptable_lock s)))"
proof -
  have ifl: "\<not> readeflags_if s" using assms(1,5,6) by (simp add: mach_ok_def)
  let ?t = "acq Ptable_lock s"
  have t: "mach_ok ?t" "holds l ?t" "holds Ptable_lock ?t" "this_cpu ?t = Some c" "ncli (cpus ?t c) = 2"
    using assms holds_acq_other [OF assms(1,3,2)] by (simp_all add: cpus_acq)
  let ?u = "upd_proc i (\<lambda>q. q\<lparr>chan := Some ch, pstate := SLEEPING\<rparr>) (rel l ?t)"
  have "mach_ok (rel l ?t)" "holds Ptable_lock (rel l ?t)"
    using t assms(3) by (auto intro: holds_rel_other)
  then have "sched_enter ?u = Inr (intena (cpus ?u c), ?u)"
    using t assms(5,7)
    by (intro sched_enter_eq [where i = i]) (simp_all add: upd_proc_def cpus_rel cpus_acq)
  moreover have "myproc s = Inr (Some i, s)" using myproc_eq [OF assms(5) ifl] assms(6,7) by simp
  ultimately show ?thesis
    using assms t by (simp add: sleep_enter_def acquire_eq release_eq cpus_rel cpus_acq)
qed

section \<open>Properties\<close>

definition proc0 :: proc where
  "proc0 = \<lparr>sz = 0, pgdir = 4096, kstack = 4096, pstate = UNUSED, pid = 0, parent = None, tf = 0,
     pcontext = 0, chan = None, killed = False, ofile = replicate 16 None, cwd = None, pname = []\<rparr>"

text \<open>
  A machine with two CPUs: CPU 0 runs process 0, process 1 waits for the clock.
\<close>

definition pst0 :: pstate_t where
  "pst0 = \<lparr>cpus = (\<lambda>i. (cpus mach0 i)\<lparr>cpu_proc := if i = 0 then Some 0 else None\<rparr>), ncpu = 2,
     lapicid = 0, eflags_if = eflags_if mach0, locks = locks mach0,
     mem = \<lambda>_. nul, use_lock = True, freelist = 0x80200000, kend = 0x80110000,
     ptable = (\<lambda>_. proc0)(0 := proc0\<lparr>pid := 1, pstate := RUNNING\<rparr>,
       1 := proc0\<lparr>pid := 2, pstate := SLEEPING, chan := Some Chan_ticks\<rparr>),
     initproc = Some 0, nextpid = 3, kpgdir = 4096, trapret = 0x80106000, forkret_addr = 0x80103000\<rparr>"

lemma pst0_ok: "mach_ok pst0" "free l pst0" "this_cpu pst0 = Some 0" "sched_inv pst0"
proof -
  show "this_cpu pst0 = Some 0" by (simp add: this_cpu_def pst0_def mach0_def upt_rec)
  then show "mach_ok pst0" by (simp add: mach_ok_def pst0_def mach0_def)
  show "free l pst0" by (simp add: free_def pst0_def mach0_def)
  show "sched_inv pst0" by (auto simp: sched_inv_def pst0_def mach0_def proc0_def)
qed



text \<open>
  C23. wakeup makes exactly the processes that sleep on the channel runnable and changes nothing
  else of the process table; the locks are as before.
\<close>
theorem wakeup_exact:
  assumes "mach_ok s" and "free Ptable_lock s"
  shows "returns (wakeup ch s) (\<lambda>s'. (\<forall>i. ptable s' i =
      (if i < NPROC \<and> pstate (ptable s i) = SLEEPING \<and> chan (ptable s i) = Some ch
       then (ptable s i)\<lparr>pstate := RUNNABLE\<rparr> else ptable s i))
    \<and> mach_ok s' \<and> (\<forall>l. free l s' \<longleftrightarrow> free l s) \<and> pstate_t.more s' = pstate_t.more s)"
  using assms by (simp add: wakeup_eq woken_def)

theorem wakeup_exact_witness:
  "returns (wakeup Chan_ticks pst0) (\<lambda>s'. pstate (ptable s' 1) = RUNNABLE \<and> pstate (ptable s' 0) = RUNNING)"
  using wakeup_exact [OF pst0_ok(1,2), of Chan_ticks]
  by (rule returns_mono) (auto simp: pst0_def proc0_def NPROC_def)



end
