(* ===== verification/Ring.thy ===== *)
theory Ring
  imports Prelude
begin

text \<open>
  Ring buffers indexed by counters that only grow, as the console input buffer
  (\<open>input.buf[i % INPUT_BUF]\<close>) and the pipe (\<open>p->data[i % PIPESIZE]\<close>) use them. \<open>rslice b i j\<close> is the
  text between two counters; as long as the window is no longer than the buffer, distinct
  counters in it are distinct cells, and that is what every lemma here rests on.
\<close>

section \<open>Definitions\<close>

definition rget :: "'a list \<Rightarrow> nat \<Rightarrow> 'a" where
  "rget b i = b ! (i mod length b)"

definition rput :: "'a list \<Rightarrow> nat \<Rightarrow> 'a \<Rightarrow> 'a list" where
  "rput b i v = b[i mod length b := v]"

definition rslice :: "'a list \<Rightarrow> nat \<Rightarrow> nat \<Rightarrow> 'a list" where
  "rslice b i j = map (rget b) [i..<j]"

text \<open>
  The two moving loops: \<open>for (i = hi; i > lo; i--) b[i] = b[i-1]\<close> and
  \<open>for (i = lo; i < hi; i++) b[i-k] = b[i]\<close>, all indices modulo the size.
\<close>

definition shift_up :: "nat \<Rightarrow> nat \<Rightarrow> 'a list \<Rightarrow> 'a list" where
  "shift_up lo hi b = fold (\<lambda>i b. rput b i (rget b (i - 1))) (rev [Suc lo..<Suc hi]) b"

definition shift_down :: "nat \<Rightarrow> nat \<Rightarrow> nat \<Rightarrow> 'a list \<Rightarrow> 'a list" where
  "shift_down k lo hi b = fold (\<lambda>i b. rput b (i - k) (rget b i)) [lo..<hi] b"

section \<open>Cells and rslices\<close>

lemma length_rput [simp]: "length (rput b i v) = length b"
  by (simp add: rput_def)

lemma length_rslice [simp]: "length (rslice b i j) = j - i"
  by (simp add: rslice_def)

lemma rslice_nth [simp]: "k < j - i \<Longrightarrow> rslice b i j ! k = rget b (i + k)"
  by (simp add: rslice_def)

lemma mod_window:
  fixes i k n :: nat
  assumes "i \<le> k" "k < i + n"
  shows "k mod n = i mod n \<longleftrightarrow> k = i"
proof
  assume "k mod n = i mod n"
  then have "n dvd k - i" using assms(1) by (metis mod_eq_dvd_iff_nat)
  then show "k = i" using assms by (metis add_diff_cancel_left' diff_is_0_eq dvd_imp_le
        le_add_diff_inverse le_neq_implies_less less_imp_le_nat linorder_not_less nat_add_left_cancel_less zero_less_diff)
qed simp

lemma rget_rput:
  assumes "b \<noteq> []" and "i < k + length b" and "k < i + length b"
  shows "rget (rput b i v) k = (if k = i then v else rget b k)"
proof -
  have "k mod length b = i mod length b \<longleftrightarrow> k = i"
    using mod_window [of i k "length b"] mod_window [of k i "length b"] assms(2,3)
    by (cases "i \<le> k") auto
  with assms(1) show ?thesis by (auto simp: rget_def rput_def nth_list_update)
qed

lemma rget_rput_same [simp]: "b \<noteq> [] \<Longrightarrow> rget (rput b i v) i = v"
  by (simp add: rget_def rput_def)

lemma rslice_empty [simp]: "j \<le> i \<Longrightarrow> rslice b i j = []"
  by (simp add: rslice_def)

lemma rslice_append: "i \<le> k \<Longrightarrow> k \<le> j \<Longrightarrow> rslice b i k @ rslice b k j = rslice b i j"
  by (simp add: rslice_def flip: map_append) (metis le_add_diff_inverse upt_add_eq_append)

lemma rslice_Suc: "i \<le> j \<Longrightarrow> rslice b i (Suc j) = rslice b i j @ [rget b j]"
  by (simp add: rslice_def)

lemma rslice_Cons: "i < j \<Longrightarrow> rslice b i j = rget b i # rslice b (Suc i) j"
  by (simp add: rslice_def upt_conv_Cons)

lemma rslice_cong: "(\<And>k. i \<le> k \<Longrightarrow> k < j \<Longrightarrow> rget b k = rget b' k) \<Longrightarrow> rslice b i j = rslice b' i j"
  by (simp add: rslice_def)

lemma rslice_rput_outside:
  assumes "b \<noteq> []" "k < i \<or> j \<le> k" "j \<le> k + length b" "k < i + length b"
  shows "rslice (rput b k v) i j = rslice b i j"
  using assms by (intro rslice_cong) (auto simp: rget_rput)

lemma rslice_rput_end:
  assumes "b \<noteq> []" "i \<le> j" "j < i + length b"
  shows "rslice (rput b j v) i (Suc j) = rslice b i j @ [v]"
  using assms by (simp add: rslice_Suc rslice_rput_outside)

lemma take_rslice: "n \<le> j - i \<Longrightarrow> take n (rslice b i j) = rslice b i (i + n)"
  by (cases "i \<le> j") (auto simp: rslice_def take_map take_upt)

lemma drop_rslice: "drop n (rslice b i j) = rslice b (i + n) j"
  by (simp add: rslice_def drop_map)

section \<open>The moving loops\<close>

lemma length_shift_up [simp]: "length (shift_up lo hi b) = length b"
proof -
  have "length (fold (\<lambda>i b. rput b i (rget b (i - 1))) xs b) = length b" for xs
    by (induction xs arbitrary: b) auto
  then show ?thesis by (simp add: shift_up_def)
qed

lemma length_shift_down [simp]: "length (shift_down k lo hi b) = length b"
proof -
  have "length (fold (\<lambda>i b. rput b (i - k) (rget b i)) xs b) = length b" for xs
    by (induction xs arbitrary: b) auto
  then show ?thesis by (simp add: shift_down_def)
qed

lemma shift_up_Suc:
  "lo \<le> hi \<Longrightarrow> shift_up lo (Suc hi) b = shift_up lo hi (rput b (Suc hi) (rget b hi))"
  by (simp add: shift_up_def)

lemma rget_shift_up:
  assumes "b \<noteq> []" "lo \<le> hi" "a \<le> lo" "hi < a + length b" "a \<le> k" "k < a + length b"
  shows "rget (shift_up lo hi b) k = (if lo < k \<and> k \<le> hi then rget b (k - 1) else rget b k)"
  using assms(2,1,4,6)
proof (induction hi arbitrary: b rule: dec_induct)
  case base
  then show ?case by (auto simp: shift_up_def)
next
  case (step hi)
  let ?b = "rput b (Suc hi) (rget b hi)"
  have ne: "?b \<noteq> []" using step.prems by (metis length_0_conv length_rput)
  have g: "rget ?b m = (if m = Suc hi then rget b hi else rget b m)"
    if "a \<le> m" "m < a + length b" for m
    using that step.prems assms(3) step.hyps by (intro rget_rput) auto
  have "rget (shift_up lo hi ?b) k = (if lo < k \<and> k \<le> hi then rget ?b (k - 1) else rget ?b k)"
    using step.prems ne by (intro step.IH) auto
  then show ?case
    using step.hyps(1) assms(3,5) step.prems(3) g [of k] g [of "k - 1"] step.prems(2)
    by (auto simp: shift_up_Suc)
qed

lemma shift_down_Suc:
  "lo \<le> hi \<Longrightarrow> shift_down k lo (Suc hi) b =
     rput (shift_down k lo hi b) (hi - k) (rget (shift_down k lo hi b) hi)"
  by (simp add: shift_down_def)

lemma rget_shift_down:
  assumes "b \<noteq> []" "lo \<le> hi" "a + k \<le> lo" "hi \<le> a + length b" "a \<le> m" "m < a + length b"
    "0 < k"
  shows "rget (shift_down k lo hi b) m = (if lo - k \<le> m \<and> m < hi - k then rget b (m + k) else rget b m)"
  using assms(2,4,5,6)
proof (induction hi arbitrary: m rule: dec_induct)
  case base
  then show ?case using assms by (auto simp: shift_down_def)
next
  case (step hi)
  let ?b = "shift_down k lo hi b"
  have ne: "?b \<noteq> []" using assms(1) by (metis length_0_conv length_shift_down)
  have 1: "rget ?b hi = rget b hi"
    using step assms by auto
  have "rget (rput ?b (hi - k) (rget ?b hi)) m = (if m = hi - k then rget ?b hi else rget ?b m)"
    using step ne assms(3) by (intro rget_rput) auto
  moreover have "rget ?b m = (if lo - k \<le> m \<and> m < hi - k then rget b (m + k) else rget b m)"
    using step by auto
  ultimately show ?case using step assms 1 by (auto simp: shift_down_Suc)
qed

text \<open>What the loops mean on texts: inserting a cell, and removing \<open>k\<close> cells.\<close>

lemma rslice_insert:
  assumes "b \<noteq> []" "i \<le> lo" "lo \<le> hi" "hi < i + length b"
  shows "rslice (rput (shift_up lo hi b) lo v) i (Suc hi) = rslice b i lo @ v # rslice b lo hi"
proof (rule nth_equalityI)
  fix k assume "k < length (rslice (rput (shift_up lo hi b) lo v) i (Suc hi))"
  then have k: "k < Suc hi - i" by simp
  have ne: "shift_up lo hi b \<noteq> []" using assms(1) by (metis length_0_conv length_shift_up)
  have "rget (rput (shift_up lo hi b) lo v) (i + k) =
      (if i + k = lo then v else rget (shift_up lo hi b) (i + k))"
    using ne k assms by (intro rget_rput) auto
  also have "\<dots> = (if i + k = lo then v else if lo < i + k then rget b (i + k - 1) else rget b (i + k))"
    using assms k by (auto simp: rget_shift_up [of b lo hi i])
  also have "\<dots> = (rslice b i lo @ v # rslice b lo hi) ! k"
    using assms k by (auto simp: nth_append nth_Cons' intro!: arg_cong [where f = "rget b"])
  finally show "rslice (rput (shift_up lo hi b) lo v) i (Suc hi) ! k = (rslice b i lo @ v # rslice b lo hi) ! k"
    using k by simp
qed (use assms in auto)

lemma rslice_remove:
  assumes "b \<noteq> []" "i + k \<le> lo" "lo \<le> hi" "hi \<le> i + length b" "0 < k"
  shows "rslice (shift_down k lo hi b) i (hi - k) = rslice b i (lo - k) @ rslice b lo hi"
proof (rule nth_equalityI)
  fix m assume "m < length (rslice (shift_down k lo hi b) i (hi - k))"
  then have m: "m < hi - k - i" by simp
  have "rget (shift_down k lo hi b) (i + m) = (if lo - k \<le> i + m then rget b (i + m + k) else rget b (i + m))"
    using assms m by (auto simp: rget_shift_down [of b lo hi i])
  also have "\<dots> = (rslice b i (lo - k) @ rslice b lo hi) ! m"
    using assms m by (auto simp: nth_append intro!: arg_cong [where f = "rget b"])
  finally show "rslice (shift_down k lo hi b) i (hi - k) ! m = (rslice b i (lo - k) @ rslice b lo hi) ! m"
    using m by simp
qed (use assms in auto)

end
