(* ===== verification/Cga.thy ===== *)
theory Cga
  imports Proc Ring
begin

text \<open>
  The output side of the console (console.c: printint, cprintf, panic, the CGA cursor, cgaputc,
  consputc; uart.c: uartputc). The screen is the text memory \<open>crt\<close> and the CRT controller with
  its index register and 8-bit data registers; the serial port is the sequence of bytes written
  to COM1. The bounded wait of uartputc for the transmitter changes nothing and is left out.
  The console state extends the process state; the keyboard input part of it is used in the
  later theories.
\<close>

section \<open>State\<close>

record cga =
  crtc_index :: nat
  crtc :: "nat \<Rightarrow> nat"
  crt :: "nat \<Rightarrow> nat"
  uart :: bool
  com1 :: "nat list"

datatype optype = OP_INSERT | OP_DELETE

record op =
  op_type :: optype
  op_c :: char
  op_pos :: nat

record undo =
  undo_buf :: "op list"
  undo_n :: nat

record input =
  in_buf :: "char list"
  in_r :: nat
  in_w :: nat
  in_e :: nat
  in_c :: nat
  selecting :: bool
  sel_start :: int
  sel_end :: int

record clipboard =
  clip_buf :: "char list"
  clip_n :: nat

record console = pstate_t +
  panicked :: bool
  locking :: bool
  scr :: cga
  input :: input
  undo :: undo
  clipboard :: clipboard
  last_key_was_tab :: bool

section \<open>The screen and the serial line\<close>

definition CRTPORT :: nat where "CRTPORT = 0x3d4"
definition BACKSPACE :: int where "BACKSPACE = 0x100"

definition outb_crt :: "nat \<Rightarrow> int \<Rightarrow> cga \<Rightarrow> cga" where
  "outb_crt port v d =
     (let b = nat (v mod 256)
      in if port = CRTPORT then d\<lparr>crtc_index := b\<rparr>
         else d\<lparr>crtc := (crtc d)(crtc_index d := b)\<rparr>)"

definition cga_get_cursor_pos :: "cga \<Rightarrow> int \<times> cga" where
  "cga_get_cursor_pos d =
     (let d = outb_crt CRTPORT 14 d;
          pos = push_bit 8 (int (crtc d (crtc_index d)));
          d = outb_crt CRTPORT 15 d
      in (pos OR int (crtc d (crtc_index d)), d))"

definition cga_set_cursor_pos :: "int \<Rightarrow> cga \<Rightarrow> cga" where
  "cga_set_cursor_pos pos d =
     (let d = outb_crt CRTPORT 14 d;
          d = outb_crt (CRTPORT + 1) (drop_bit 8 pos) d;
          d = outb_crt CRTPORT 15 d
      in outb_crt (CRTPORT + 1) pos d)"

text \<open>The text cell of a character: its byte with the attribute 0x07.\<close>

definition cell :: "int \<Rightarrow> nat" where
  "cell c = nat ((c AND 0xff) OR 0x0700)"

definition scroll :: "nat \<Rightarrow> (nat \<Rightarrow> nat) \<Rightarrow> nat \<Rightarrow> nat" where
  "scroll pos m i =
     (if i < 23 * 80 then (if pos \<le> i then 0 else m (i + 80))
      else if pos \<le> i \<and> i < 24 * 80 then 0 else m i)"

definition cgaputc :: "int \<Rightarrow> cga \<Rightarrow> cga res" where
  "cgaputc c d =
     (let (pos, d) = cga_get_cursor_pos d;
          (pos, d) =
            (if c = 10 then (pos + 80 - pos mod 80, d)
             else if c = BACKSPACE then (if pos > 0 then pos - 1 else pos, d)
             else (pos + 1, d\<lparr>crt := (crt d)(nat pos := cell c)\<rparr>))
      in if pos < 0 \<or> pos > 25 * 80 then Inl (Panic ''pos under/overflow'')
         else let (pos, d) =
                (if pos div 80 \<ge> 24
                 then (pos - 80, d\<lparr>crt := scroll (nat (pos - 80)) (crt d)\<rparr>) else (pos, d));
                d = cga_set_cursor_pos pos d
              in Inr (if c = BACKSPACE then d\<lparr>crt := (crt d)(nat pos := cell 32)\<rparr> else d))"

definition uartputc :: "int \<Rightarrow> cga \<Rightarrow> cga" where
  "uartputc c d = (if \<not> uart d then d else d\<lparr>com1 := com1 d @ [nat (c mod 256)]\<rparr>)"

definition scr_putc :: "int \<Rightarrow> cga \<Rightarrow> cga res" where
  "scr_putc c d =
     cgaputc c (if c = BACKSPACE then uartputc 8 (uartputc 32 (uartputc 8 d)) else uartputc c d)"

definition consputc :: "int \<Rightarrow> 'a console_scheme \<Rightarrow> 'a console_scheme res" where
  "consputc c s =
     (if panicked s then Inl Halted
      else bindr (scr_putc c (scr s)) (\<lambda>d. Inr (s\<lparr>scr := d\<rparr>)))"

section \<open>printint, cprintf and panic\<close>

definition digits :: string where "digits = ''0123456789abcdef''"

text \<open>The \<open>do ... while\<close> loop: the digits of \<open>x\<close>, the lowest first.\<close>

function print_digits :: "nat \<Rightarrow> nat \<Rightarrow> string" where
  "print_digits base x =
     digits ! (x mod base) # (if base \<le> 1 \<or> x div base = 0 then [] else print_digits base (x div base))"
  by pat_completeness auto
termination
  by (relation "measure snd") (auto intro!: div_less_dividend gr0I)

declare print_digits.simps [simp del]

definition int_chars :: "int \<Rightarrow> nat \<Rightarrow> bool \<Rightarrow> string" where
  "int_chars xx base sg =
     (let neg = (sg \<and> xx < 0);
          x = (if neg then u32 (- xx) else u32 xx)
      in rev (print_digits base x @ (if neg then ''-'' else [])))"

definition printint :: "int \<Rightarrow> nat \<Rightarrow> bool \<Rightarrow> 'a console_scheme \<Rightarrow> 'a console_scheme res" where
  "printint xx base sg s = for_each (int_chars xx base sg) (\<lambda>c. consputc (schar c)) s"

datatype parg = PNum nat | PStr "string option"

fun cprintf_loop :: "string \<Rightarrow> parg list \<Rightarrow> 'a console_scheme \<Rightarrow> 'a console_scheme res" where
  "cprintf_loop [] args s = Inr s"
| "cprintf_loop (c # fmt) args s =
     (if c \<noteq> CHR ''%'' then bindr (consputc (of_char c) s) (\<lambda>s. cprintf_loop fmt args s)
      else case fmt of
        [] \<Rightarrow> Inr s
      | c # fmt \<Rightarrow>
          if c = CHR ''d'' then
            (case args of PNum n # args \<Rightarrow>
               bindr (printint (i32 n) 10 True s) (\<lambda>s. cprintf_loop fmt args s)
             | _ \<Rightarrow> Inl (Undef ''argument''))
          else if c = CHR ''x'' \<or> c = CHR ''p'' then
            (case args of PNum n # args \<Rightarrow>
               bindr (printint (i32 n) 16 False s) (\<lambda>s. cprintf_loop fmt args s)
             | _ \<Rightarrow> Inl (Undef ''argument''))
          else if c = CHR ''s'' then
            (case args of PStr p # args \<Rightarrow>
               bindr (for_each (case p of None \<Rightarrow> ''(null)'' | Some str \<Rightarrow> str)
                       (\<lambda>c. consputc (schar c)) s) (\<lambda>s. cprintf_loop fmt args s)
             | _ \<Rightarrow> Inl (Undef ''argument''))
          else if c = CHR ''%'' then bindr (consputc (of_char c) s) (\<lambda>s. cprintf_loop fmt args s)
          else bindr (consputc (of_char CHR ''%'') s) (\<lambda>s.
               bindr (consputc (of_char c) s) (\<lambda>s. cprintf_loop fmt args s)))"

definition cprintf :: "string option \<Rightarrow> parg list \<Rightarrow> 'a console_scheme \<Rightarrow> 'a console_scheme res" where
  "cprintf fmt args s =
     (let lck = locking s
      in bindr (if lck then acquire Cons_lock s else Inr s) (\<lambda>s.
         case fmt of None \<Rightarrow> Inl (Panic ''null fmt'')
         | Some f \<Rightarrow> bindr (cprintf_loop f args s) (\<lambda>s.
             if lck then release Cons_lock s else Inr s)))"

text \<open>
  \<open>panic\<close> never returns; this is the state in which its endless loop starts. \<open>pcs\<close> are the ten
  return addresses that getcallerpcs finds.
\<close>

definition panic :: "string \<Rightarrow> nat list \<Rightarrow> 'a console_scheme \<Rightarrow> 'a console_scheme res" where
  "panic msg pcs s =
     (let s = (cli s)\<lparr>locking := False\<rparr>
      in bindr (cprintf (Some ''lapicid %d: panic: '') [PNum (lapicid s)] s) (\<lambda>s.
         bindr (cprintf (Some msg) [] s) (\<lambda>s.
         bindr (cprintf (Some [CHR 0x0A]) [] s) (\<lambda>s.
         bindr (for_each pcs (\<lambda>pc. cprintf (Some '' %p'') [PNum pc]) s) (\<lambda>s.
           Inr (s\<lparr>panicked := True\<rparr>))))))"

section \<open>The cursor\<close>

definition cursor :: "cga \<Rightarrow> nat" where
  "cursor d = 256 * crtc d 14 + crtc d 15"

definition cga_ok :: "cga \<Rightarrow> bool" where
  "cga_ok d \<longleftrightarrow> crtc d 14 < 256 \<and> crtc d 15 < 256"

lemma push_or:
  fixes x y :: int
  assumes "0 \<le> y" "y < 256"
  shows "push_bit 8 x OR y = 256 * x + y"
proof -
  have "take_bit 8 y = y" using assms by (simp add: take_bit_eq_mod)
  then show ?thesis
    using concat_bit_eq [of 8 y x] by (simp add: concat_bit_def push_bit_eq_mult or.commute)
qed

lemma cga_get_cursor_pos_eq:
  "cga_ok d \<Longrightarrow> cga_get_cursor_pos d = (int (cursor d), d\<lparr>crtc_index := 15\<rparr>)"
  by (simp add: cga_get_cursor_pos_def outb_crt_def Let_def push_or cga_ok_def cursor_def)

lemma cga_set_cursor_pos_eq:
  "cga_set_cursor_pos pos d = d\<lparr>crtc_index := 15,
     crtc := (crtc d)(14 := nat (pos div 256 mod 256), 15 := nat (pos mod 256))\<rparr>"
  by (simp add: cga_set_cursor_pos_def outb_crt_def Let_def CRTPORT_def drop_bit_eq_div)

lemma cga_set_simps [simp]:
  "cga_ok (cga_set_cursor_pos pos d)"
  "crt (cga_set_cursor_pos pos d) = crt d"
  "uart (cga_set_cursor_pos pos d) = uart d"
  "com1 (cga_set_cursor_pos pos d) = com1 d"
  by (auto simp: cga_set_cursor_pos_eq cga_ok_def cursor_def nat_less_iff)

lemma cursor_set [simp]:
  assumes "0 \<le> pos" "pos < 65536"
  shows "cursor (cga_set_cursor_pos pos d) = nat pos"
proof -
  define q m where "q = pos div 256" and "m = pos mod 256"
  have "pos = 256 * q + m" "0 \<le> m" by (simp_all add: q_def m_def)
  moreover have "0 \<le> q" using assms(1) by (simp add: q_def div_int_pos_iff)
  ultimately have "nat pos = 256 * nat q + nat m" by (simp add: nat_add_distrib nat_mult_distrib)
  moreover have "q mod 256 = q" using assms by (simp add: q_def)
  ultimately show ?thesis
    by (simp add: cga_set_cursor_pos_eq cursor_def flip: q_def m_def)
qed

lemma cga_ok_simps [simp]:
  "cga_ok (d\<lparr>crt := m\<rparr>) = cga_ok d" "cga_ok (d\<lparr>crtc_index := i\<rparr>) = cga_ok d"
  "cga_ok (d\<lparr>com1 := bs\<rparr>) = cga_ok d" "cursor (d\<lparr>crt := m\<rparr>) = cursor d"
  "cursor (d\<lparr>crtc_index := i\<rparr>) = cursor d" "cursor (d\<lparr>com1 := bs\<rparr>) = cursor d"
  by (simp_all add: cga_ok_def cursor_def)

lemma uartputc_simps [simp]:
  "cga_ok (uartputc c d) = cga_ok d" "cursor (uartputc c d) = cursor d" "crt (uartputc c d) = crt d"
  by (simp_all add: uartputc_def)

text \<open>The byte of a cell is the character written, whatever its attribute.\<close>

lemma cell_byte: "cell (schar ch) mod 256 = of_char ch"
proof -
  have low: "(c AND 0xff :: int) = c mod 256" for c
    using take_bit_eq_mod [of 8 c] by (simp add: take_bit_eq_mask mask_numeral)
  have "((c AND 0xff) OR 0x0700 :: int) mod 256 = c mod 256" for c
  proof -
    have "take_bit 8 ((c AND 0xff) OR 0x0700 :: int) = take_bit 8 (c AND 0xff) OR take_bit 8 0x0700"
      by (rule take_bit_or)
    then show ?thesis by (simp add: take_bit_eq_mod low)
  qed
  moreover have "0 \<le> ((c AND 0xff) OR 0x0700 :: int)" for c by simp
  ultimately have "int (cell c mod 256) = c mod 256" for c
    by (simp add: cell_def zmod_int)
  from this [of "schar ch"] have "int (cell (schar ch) mod 256) = of_char ch"
    by (auto simp: schar_def)
  then have "int (cell (schar ch) mod 256) = int (of_char ch)" by (simp only: of_nat_of_char)
  then show ?thesis by (simp only: of_nat_eq_iff)
qed

section \<open>What consputc does to the screen\<close>

text \<open>A printing character is written at the cursor, which advances; past row 23 the screen scrolls.\<close>

definition plain :: "int \<Rightarrow> bool" where
  "plain c \<longleftrightarrow> c \<noteq> 10 \<and> c \<noteq> BACKSPACE"

lemma cgaputc_plain:
  assumes "cga_ok d" "plain c" "cursor d < 1919"
  shows "returns (cgaputc c d) (\<lambda>d'. cga_ok d' \<and> cursor d' = cursor d + 1 \<and>
    crt d' = (crt d)(cursor d := cell c))"
  using assms by (simp add: cgaputc_def cga_get_cursor_pos_eq plain_def nat_add_distrib)

lemma cgaputc_scroll:
  assumes "cga_ok d" "plain c" "cursor d = 1919"
  shows "returns (cgaputc c d) (\<lambda>d'. cga_ok d' \<and> cursor d' = 1840 \<and>
    crt d' = scroll 1840 ((crt d)(1919 := cell c)))"
  using assms by (simp add: cgaputc_def cga_get_cursor_pos_eq plain_def)

lemma cgaputc_newline:
  assumes "cga_ok d" "cursor d < 2000"
  shows "returns (cgaputc 10 d) (\<lambda>d'. cga_ok d' \<and>
    cursor d' = (let p = cursor d + 80 - cursor d mod 80 in if p \<ge> 1920 then p - 80 else p))"
proof -
  define q where "q = cursor d + 80 - cursor d mod 80"
  have q: "int (cursor d) + 80 - int (cursor d) mod 80 = int q"
    by (simp add: q_def of_nat_diff zmod_int trans_le_add1)
  have "q \<le> 2000"
  proof -
    have "cursor d = 80 * (cursor d div 80) + cursor d mod 80" by simp
    moreover have "cursor d div 80 < 25" using assms(2) by (simp add: div_less_iff_less_mult)
    ultimately show ?thesis unfolding q_def by linarith
  qed
  moreover have "24 \<le> int q div 80 \<longleftrightarrow> 1920 \<le> q" by linarith
  ultimately show ?thesis
    using assms(1)
    by (simp only: cgaputc_def cga_get_cursor_pos_eq Let_def prod.case simp_thms if_True q
        flip: q_def) (simp add: BACKSPACE_def nat_diff_distrib of_nat_diff)
qed

lemma cgaputc_backspace:
  assumes "cga_ok d" "0 < cursor d" "cursor d \<le> 1920"
  shows "returns (cgaputc BACKSPACE d) (\<lambda>d'. cga_ok d' \<and> cursor d' = cursor d - 1 \<and>
    crt d' = (crt d)(cursor d - 1 := cell 32))"
  using assms
  by (auto simp: cgaputc_def cga_get_cursor_pos_eq BACKSPACE_def Let_def nat_diff_distrib of_nat_diff)

text \<open>The whole text \<open>xs\<close>, written where it fits before the end of row 23.\<close>

definition wrt :: "(nat \<Rightarrow> nat) \<Rightarrow> nat \<Rightarrow> string \<Rightarrow> nat \<Rightarrow> nat" where
  "wrt m p xs i = (if p \<le> i \<and> i < p + length xs then cell (schar (xs ! (i - p))) else m i)"

lemma wrt_Nil [simp]: "wrt m p [] = m"
  by (simp add: fun_eq_iff wrt_def)

lemma wrt_Cons: "wrt m p (x # xs) = wrt (m(p := cell (schar x))) (Suc p) xs"
  by (auto simp: fun_eq_iff wrt_def nth_Cons' Suc_diff_Suc)

definition no_nl :: "string \<Rightarrow> bool" where
  "no_nl xs \<longleftrightarrow> CHR 0x0A \<notin> set xs"

lemma plain_schar: "ch \<noteq> CHR 0x0A \<Longrightarrow> plain (schar ch)"
proof -
  assume ch: "ch \<noteq> CHR 0x0A"
  have "schar ch \<noteq> 10"
  proof
    assume "schar ch = 10"
    then have "ch = char_of (10 :: int)" by (metis char_of_schar)
    with ch show False by (simp add: char_of_def)
  qed
  moreover have "schar ch < 256" using schar_bounds(2) [of ch] by simp
  ultimately show ?thesis by (simp add: plain_def BACKSPACE_def)
qed

lemma scr_putc_plain:
  assumes "cga_ok d" "ch \<noteq> CHR 0x0A" "cursor d < 1919"
  shows "returns (scr_putc (schar ch) d) (\<lambda>d'. cga_ok d' \<and> cursor d' = cursor d + 1 \<and>
    crt d' = (crt d)(cursor d := cell (schar ch)))"
  using cgaputc_plain [of "uartputc (schar ch) d" "schar ch"] plain_schar [of ch] assms
  by (simp add: scr_putc_def plain_def)

lemma scr_putc_scroll:
  assumes "cga_ok d" "ch \<noteq> CHR 0x0A" "cursor d = 1919"
  shows "returns (scr_putc (schar ch) d) (\<lambda>d'. cga_ok d' \<and> cursor d' = 1840 \<and>
    crt d' = scroll 1840 ((crt d)(1919 := cell (schar ch))))"
  using cgaputc_scroll [of "uartputc (schar ch) d" "schar ch"] plain_schar [of ch] assms
  by (simp add: scr_putc_def plain_def)

definition puts_ok :: "cga \<Rightarrow> string \<Rightarrow> cga \<Rightarrow> bool" where
  "puts_ok d xs d' \<longleftrightarrow> cga_ok d' \<and>
     (if cursor d + length xs < 1920
      then cursor d' = cursor d + length xs \<and> crt d' = wrt (crt d) (cursor d) xs
      else cursor d' = 1840 \<and> crt d' = scroll 1840 (wrt (crt d) (cursor d) xs))"

lemma puts_returns:
  assumes "cga_ok d" "no_nl xs" "cursor d + length xs \<le> 1920" "cursor d < 1920"
  shows "returns (for_each xs (\<lambda>c. scr_putc (schar c)) d) (puts_ok d xs)"
  using assms
proof (induction xs arbitrary: d)
  case Nil
  then show ?case by (simp add: puts_ok_def)
next
  case (Cons x xs)
  have x: "x \<noteq> CHR 0x0A" "no_nl xs" using Cons.prems(2) by (auto simp: no_nl_def)
  show ?case
  proof (cases "cursor d < 1919")
    case True
    from scr_putc_plain [OF Cons.prems(1) x(1) True] obtain d1 where d1:
      "scr_putc (schar x) d = Inr d1" "cga_ok d1" "cursor d1 = cursor d + 1"
      "crt d1 = (crt d)(cursor d := cell (schar x))" by (auto elim: returnsE)
    have "returns (for_each xs (\<lambda>c. scr_putc (schar c)) d1) (puts_ok d1 xs)"
      using Cons.prems x True d1 by (intro Cons.IH) auto
    then show ?thesis
      using d1 by (auto simp: puts_ok_def wrt_Cons elim!: returns_mono split: if_splits)
  next
    case False
    with Cons.prems have c: "cursor d = 1919" "xs = []" by (cases xs; simp)+
    with scr_putc_scroll [OF Cons.prems(1) x(1)] show ?thesis
      by (auto simp: puts_ok_def wrt_Cons elim!: returns_mono)
  qed
qed

section \<open>Numbers on the console\<close>

lemma schar_digit: "k < 10 \<Longrightarrow> schar (digits ! k) = 48 + int k"
proof -
  assume "k < 10"
  then have "k \<in> {0, 1, 2, 3, 4, 5, 6, 7, 8, 9}" by auto
  then show ?thesis by (auto simp: digits_def schar_def)
qed

lemma schar_0_9: "schar CHR ''0'' = 48" "schar CHR ''9'' = 57"
  by (simp_all add: schar_def)

definition digs :: "string \<Rightarrow> bool" where
  "digs xs \<longleftrightarrow> (\<forall>c \<in> set xs. 48 \<le> schar c \<and> schar c \<le> 57)"

lemma atoi_loop_append: "digs xs \<Longrightarrow> atoi_loop n (xs @ ys) = atoi_loop (atoi_loop n xs) ys"
  by (induction xs arbitrary: n) (simp_all add: digs_def schar_0_9)

lemma digs_print: "digs (rev (print_digits 10 x))"
proof (induction "10 :: nat" x rule: print_digits.induct)
  case (1 x)
  then show ?case
    using schar_digit [of "x mod 10"] by (auto simp: print_digits.simps [of 10 x] digs_def)
qed

lemma atoi_print: "atoi_loop 0 (rev (print_digits 10 x)) = int x"
proof (induction "10 :: nat" x rule: print_digits.induct)
  case (1 x)
  have d: "schar (digits ! (x mod 10)) = 48 + int (x mod 10)" by (rule schar_digit) simp
  show ?case
  proof (cases "x div 10 = 0")
    case True
    then show ?thesis using d by (simp add: print_digits.simps [of 10 x] schar_0_9)
  next
    case False
    then have "atoi_loop 0 (rev (print_digits 10 x)) = int (x div 10) * 10 + int (x mod 10)"
      using 1 d digs_print [of "x div 10"]
      by (simp add: print_digits.simps [of 10 x] atoi_loop_append schar_0_9)
    also have "\<dots> = int x" by (metis div_mult_mod_eq of_nat_add of_nat_mult of_nat_numeral)
    finally show ?thesis .
  qed
qed

section \<open>Properties\<close>



text \<open>
  C25. The cursor stays on the screen: from any cursor position below 2000, writing any character,
  a newline or a backspace returns, and leaves the cursor at most at the first cell of the last
  row, so cgaputc cannot run into its panic however long the output is.
\<close>
theorem cgaputc_stays_on_screen:
  assumes "cga_ok d" and "cursor d < 2000"
  shows "returns (cgaputc c d) (\<lambda>d'. cga_ok d' \<and> cursor d' \<le> 1920)"
proof (cases "c = 10")
  case True
  have "cursor d + 80 - cursor d mod 80 \<le> 2000"
  proof -
    have "cursor d = 80 * (cursor d div 80) + cursor d mod 80" by simp
    moreover have "cursor d div 80 < 25" using assms(2) by (simp add: div_less_iff_less_mult)
    ultimately show ?thesis by linarith
  qed
  then show ?thesis
    using cgaputc_newline [OF assms] True by (auto simp: Let_def split: if_splits elim!: returns_mono)
next
  case False
  have "24 \<le> int n div 80 \<longleftrightarrow> 1920 \<le> n" for n by linarith
  then show ?thesis
    using assms False
    by (auto simp: cgaputc_def cga_get_cursor_pos_eq Let_def nat_le_iff)
qed

theorem cgaputc_stays_on_screen_witness:
  "returns (cgaputc 10 \<lparr>crtc_index = 0, crtc = (\<lambda>_. 0)(14 := 7, 15 := 0xCF), crt = \<lambda>_. 0, uart = False, com1 = []\<rparr>)
    (\<lambda>d'. cursor d' \<le> 1920)"
  using cgaputc_stays_on_screen [of "\<lparr>crtc_index = 0, crtc = (\<lambda>_. 0)(14 := 7, 15 := 0xCF), crt = \<lambda>_. 0,
      uart = False, com1 = []\<rparr>" 10]
  by (simp add: cga_ok_def cursor_def returns_iff) blast

end
