(* ===== verification/Console.thy ===== *)
theory Console
  imports Cga
begin

text \<open>
  The line editor of the console (console.c from the input buffer on). \<open>console_key\<close> is the body
  of the loop of consoleintr, with one definition per case of its switch. The counters \<open>r\<close>, \<open>w\<close>,
  \<open>e\<close>, \<open>c\<close> of the input buffer only grow and are read as \<open>int\<close> in many places; the model covers
  them while they are below \<open>2 ^ 31\<close>, where both readings agree, and a key is \<open>Undef\<close> beyond
  that. ilock and iunlock belong to the file system and are parameters of consoleread and
  consolewrite.
\<close>

section \<open>Definitions\<close>

definition INPUT_BUF :: nat where "INPUT_BUF = 128"
definition UNDO_BUF :: nat where "UNDO_BUF = 128"
definition CLIPBOARD_BUF :: nat where "CLIPBOARD_BUF = 128"

definition commands :: "string list" where
  "commands = [
    ''cat'', ''echo'', ''find_sum'', ''forktest'', ''grep'', ''init'',
    ''kill'', ''ln'', ''ls'', ''mkdir'', ''rm'', ''sh'',
    ''stressfs'', ''usertests'', ''wc'', ''zombie'', ''console'']"

definition upd_in :: "(input \<Rightarrow> input) \<Rightarrow> 'a console_scheme \<Rightarrow> 'a console_scheme" where
  "upd_in f s = s\<lparr>input := f (input s)\<rparr>"

definition upd_scr :: "(cga \<Rightarrow> cga) \<Rightarrow> 'a console_scheme \<Rightarrow> 'a console_scheme" where
  "upd_scr f s = s\<lparr>scr := f (scr s)\<rparr>"

definition get_cursor :: "'a console_scheme \<Rightarrow> int \<times> 'a console_scheme" where
  "get_cursor s = (let (p, d) = cga_get_cursor_pos (scr s) in (p, s\<lparr>scr := d\<rparr>))"

definition set_cursor :: "int \<Rightarrow> 'a console_scheme \<Rightarrow> 'a console_scheme" where
  "set_cursor p s = upd_scr (cga_set_cursor_pos p) s"

definition push_undo :: "optype \<Rightarrow> char \<Rightarrow> nat \<Rightarrow> 'a console_scheme \<Rightarrow> 'a console_scheme" where
  "push_undo t ch pos s =
     (if undo_n (undo s) < UNDO_BUF
      then s\<lparr>undo := \<lparr>undo_buf = (undo_buf (undo s))[undo_n (undo s) :=
                         \<lparr>op_type = t, op_c = ch, op_pos = pos\<rparr>],
                      undo_n = undo_n (undo s) + 1\<rparr>\<rparr>
      else s)"

definition clear_undo :: "'a console_scheme \<Rightarrow> 'a console_scheme" where
  "clear_undo s = s\<lparr>undo := (undo s)\<lparr>undo_n := 0\<rparr>\<rparr>"

definition putstr :: "string \<Rightarrow> 'a console_scheme \<Rightarrow> 'a console_scheme res" where
  "putstr xs = for_each xs (\<lambda>ch. consputc (schar ch))"

definition reset_tab_state :: "'a console_scheme \<Rightarrow> 'a console_scheme" where
  "reset_tab_state s = s\<lparr>last_key_was_tab := False\<rparr>"

text \<open>The \<open>while (1)\<close> loop of find_lcp_len, along the first match.\<close>

fun lcp_loop :: "string \<Rightarrow> string list \<Rightarrow> nat \<Rightarrow> nat" where
  "lcp_loop [] ms n = n"
| "lcp_loop (ch # first) ms n =
     (if \<exists>m \<in> set ms. cstr m n \<noteq> ch then n else lcp_loop first ms (Suc n))"

fun find_lcp_len :: "string list \<Rightarrow> nat" where
  "find_lcp_len [] = 0"
| "find_lcp_len [m] = length m"
| "find_lcp_len (m # ms) = lcp_loop m ms 0"

text \<open>\<open>while (input.e != input.w) { input.e--; input.c--; consputc(BACKSPACE); }\<close>\<close>

fun erase_loop :: "nat \<Rightarrow> 'a console_scheme \<Rightarrow> 'a console_scheme res" where
  "erase_loop 0 s = Inr s"
| "erase_loop (Suc k) s =
     (let s = upd_in (\<lambda>i. i\<lparr>in_e := in_e i - 1, in_c := in_c i - 1\<rparr>) s
      in bindr (consputc BACKSPACE s) (\<lambda>s. erase_loop k s))"

definition erase_line :: "'a console_scheme \<Rightarrow> 'a console_scheme res" where
  "erase_line s =
     (let (curpos, s) = get_cursor s;
          move_right = int (in_e (input s)) - int (in_c (input s));
          s = set_cursor (curpos + move_right) s;
          s = upd_in (\<lambda>i. i\<lparr>in_c := in_e i\<rparr>) s
      in erase_loop (in_e (input s) - in_w (input s)) s)"

definition print_matches_and_redraw :: "string list \<Rightarrow> 'a console_scheme \<Rightarrow> 'a console_scheme res" where
  "print_matches_and_redraw matches s =
     (let original_locking = locking s;
          s = s\<lparr>locking := False\<rparr>
      in bindr (cprintf (Some [CHR 0x0A]) [] s) (\<lambda>s.
         bindr (for_each matches (\<lambda>m. cprintf (Some ''%s  '') [PStr (Some m)]) s) (\<lambda>s.
         bindr (cprintf (Some [CHR 0x0A]) [] s) (\<lambda>s.
         bindr (cprintf (Some ''$ '') [] s) (\<lambda>s.
         bindr (if in_e (input s) \<noteq> in_w (input s) then erase_line s else Inr s) (\<lambda>s.
         bindr (cprintf (Some '' '') [] s) (\<lambda>s.
           let s = upd_in (\<lambda>i. i\<lparr>in_c := in_w i\<rparr>) s;
               s = clear_undo s
           in Inr (s\<lparr>locking := original_locking\<rparr>))))))))"

fun tab_insert :: "string \<Rightarrow> 'a console_scheme \<Rightarrow> 'a console_scheme res" where
  "tab_insert [] s = Inr s"
| "tab_insert (ch # cs) s =
     (if in_e (input s) \<ge> in_r (input s) + INPUT_BUF then Inr s
      else let s = upd_in (\<lambda>i. i\<lparr>in_buf := rput (in_buf i) (in_e i) ch, in_e := in_e i + 1\<rparr>) s
           in bindr (consputc (schar ch) s) (\<lambda>s. tab_insert cs s))"

text \<open>
  The prefix is copied with one memmove from \<open>input.buf + w % INPUT_BUF\<close>; the copy does not wrap
  around the ring, so it leaves the array when the typed word does.
\<close>

definition handle_tab_completion :: "'a console_scheme \<Rightarrow> 'a console_scheme res" where
  "handle_tab_completion s =
     (let i = input s;
          len = int (in_e i) - int (in_w i);
          is_first_word = CHR '' '' \<notin> set (rslice (in_buf i) (in_w i) (in_e i))
      in if \<not> is_first_word \<or> len < 0 \<or> len \<ge> int INPUT_BUF then Inr (reset_tab_state s)
         else if in_w i mod INPUT_BUF + nat len > INPUT_BUF then Inl (Undef ''memmove out of bounds'')
         else
           let prefix = take (nat len) (drop (in_w i mod INPUT_BUF) (in_buf i));
               matches = filter (\<lambda>m. strncmp (cstr prefix) (cstr m) (nat len) = 0) commands
           in case matches of
                [] \<Rightarrow> Inr (reset_tab_state s)
              | [completion] \<Rightarrow>
                  bindr (tab_insert (drop (nat len) completion) s) (\<lambda>s.
                    Inr (reset_tab_state (upd_in (\<lambda>i. i\<lparr>in_c := in_e i\<rparr>) s)))
              | first # _ \<Rightarrow>
                  if last_key_was_tab s then
                    bindr (print_matches_and_redraw matches s) (\<lambda>s. Inr (reset_tab_state s))
                  else
                    let lcp_len = find_lcp_len matches
                    in bindr (if int lcp_len > len
                              then bindr (tab_insert (drop (nat len) (take lcp_len first)) s) (\<lambda>s.
                                   Inr (upd_in (\<lambda>i. i\<lparr>in_c := in_e i\<rparr>) s))
                              else Inr s) (\<lambda>s. Inr (s\<lparr>last_key_was_tab := True\<rparr>)))"

definition is_whitespace :: "char \<Rightarrow> bool" where
  "is_whitespace ch \<longleftrightarrow> ch = CHR '' '' \<or> ch = CHR 0x09 \<or> ch = CHR 0x0A \<or> ch = CHR 0x0B"

definition highlight_cell :: "bool \<Rightarrow> int \<Rightarrow> cga \<Rightarrow> cga" where
  "highlight_cell on pos d =
     (if 0 \<le> pos \<and> pos < 25 * 80
      then d\<lparr>crt := (crt d)(nat pos := (crt d (nat pos) AND 0x00ff) OR (if on then 0x7000 else 0x0700))\<rparr>
      else d)"

definition update_highlight :: "int \<Rightarrow> int \<Rightarrow> bool \<Rightarrow> 'a console_scheme \<Rightarrow> 'a console_scheme" where
  "update_highlight start stop on s =
     (if start < 0 \<or> stop \<le> start then s
      else
        let i = input s;
            start = (if start < int (in_w i) then int (in_w i) else start);
            stop = (if stop > int (in_e i) then int (in_e i) else stop)
        in if start \<ge> stop then s
           else
             let (cursor_pos, s) = get_cursor s;
                 screen_pos_of_w = cursor_pos - (int (in_c i) - int (in_w i))
             in upd_scr (fold (\<lambda>k. highlight_cell on (screen_pos_of_w + (k - int (in_w i))))
                           [start..stop - 1]) s)"

definition clear_selection :: "'a console_scheme \<Rightarrow> 'a console_scheme" where
  "clear_selection s =
     (let s = (if sel_start (input s) \<noteq> -1
               then upd_in (\<lambda>i. i\<lparr>sel_start := -1, sel_end := -1\<rparr>)
                      (update_highlight (sel_start (input s)) (sel_end (input s)) False s)
               else s)
      in upd_in (\<lambda>i. i\<lparr>selecting := False\<rparr>) s)"

definition has_selection :: "'a console_scheme \<Rightarrow> bool" where
  "has_selection s \<longleftrightarrow> sel_start (input s) \<noteq> -1 \<and> sel_end (input s) \<noteq> -1"

definition deselect_if_any :: "'a console_scheme \<Rightarrow> 'a console_scheme" where
  "deselect_if_any s = (if has_selection s then clear_selection s else s)"

text \<open>The selection in order and cut to the line being edited.\<close>

definition sel_range :: "input \<Rightarrow> int \<times> int" where
  "sel_range i =
     (let s = sel_start i; e = sel_end i;
          (s, e) = (if s > e then (e, s) else (s, e));
          s = (if s < int (in_w i) then int (in_w i) else s);
          e = (if e > int (in_e i) then int (in_e i) else e)
      in (s, e))"

text \<open>The deleted characters are recorded one by one, as long as the undo buffer has room.\<close>

definition push_deleted :: "nat \<Rightarrow> nat \<Rightarrow> 'a console_scheme \<Rightarrow> 'a console_scheme" where
  "push_deleted s len st =
     fold (\<lambda>k st. push_undo OP_DELETE (rget (in_buf (input st)) (s + k)) (s + k) st) [0..<len] st"

definition delete_range :: "nat \<Rightarrow> nat \<Rightarrow> 'a console_scheme \<Rightarrow> 'a console_scheme res" where
  "delete_range s e st =
     (let len = e - s;
          old_e = in_e (input st);
          old_c = in_c (input st);
          (hw_cursor, st) = get_cursor st;
          w = in_w (input st);
          p = hw_cursor - (int old_c - int w);
          p = (if p < 0 then 0 else p);
          p = (if p \<ge> 25 * 80 then 25 * 80 - 1 else p);
          st = upd_in (\<lambda>i. i\<lparr>in_buf := shift_down len e old_e (in_buf i)\<rparr>) st;
          st = upd_in (\<lambda>i. i\<lparr>in_e := in_e i - len, in_c := s\<rparr>) st;
          st = set_cursor p st
      in bindr (putstr (rslice (in_buf (input st)) w (in_e (input st))) st) (\<lambda>st.
         let leftover = old_e - in_e (input st)
         in bindr (putstr (replicate leftover CHR '' '') st) (\<lambda>st.
            let st = set_cursor (p + (int (in_c (input st)) - int w)) st
            in Inr (clear_selection st))))"

definition delete_selection :: "'a console_scheme \<Rightarrow> 'a console_scheme res" where
  "delete_selection st =
     (if \<not> has_selection st then Inr st
      else
        let (s, e) = sel_range (input st)
        in if s \<ge> e then Inr (clear_selection st)
           else delete_range (nat s) (nat e) (push_deleted (nat s) (nat (e - s)) st))"

text \<open>Inserting one character at the cursor: the buffer, the undo record, and the redrawn tail.\<close>

definition insert_char :: "char \<Rightarrow> 'a console_scheme \<Rightarrow> 'a console_scheme res" where
  "insert_char ch s =
     (let s = push_undo OP_INSERT ch (in_c (input s)) s;
          s = upd_in (\<lambda>i. i\<lparr>in_buf := rput (shift_up (in_c i) (in_e i) (in_buf i)) (in_c i) ch,
                            in_e := in_e i + 1, in_c := in_c i + 1\<rparr>) s
      in bindr (putstr (rslice (in_buf (input s)) (in_c (input s) - 1) (in_e (input s))) s) (\<lambda>s.
           let (p, s) = get_cursor s
           in Inr (set_cursor (p - (int (in_e (input s)) - int (in_c (input s)))) s)))"

definition key_tab :: "'a console_scheme \<Rightarrow> 'a console_scheme res" where
  "key_tab s = handle_tab_completion (deselect_if_any s)"

definition key_select :: "'a console_scheme \<Rightarrow> 'a console_scheme res" where
  "key_select s =
     (if \<not> selecting (input s) then
        let s = clear_selection s
        in Inr (upd_in (\<lambda>i. i\<lparr>selecting := True, sel_start := int (in_c i), sel_end := -1\<rparr>) s)
      else
        let s = upd_in (\<lambda>i. i\<lparr>selecting := False, sel_end := int (in_c i)\<rparr>) s;
            s = (if sel_start (input s) > sel_end (input s)
                 then upd_in (\<lambda>i. i\<lparr>sel_start := sel_end i, sel_end := sel_start i\<rparr>) s else s)
        in Inr (if sel_start (input s) = sel_end (input s)
                then upd_in (\<lambda>i. i\<lparr>sel_start := -1, sel_end := -1\<rparr>) s
                else update_highlight (sel_start (input s)) (sel_end (input s)) True s))"

definition key_copy :: "'a console_scheme \<Rightarrow> 'a console_scheme res" where
  "key_copy st =
     (if has_selection st then
        let (s, e) = sel_range (input st);
            len = e - s;
            len = (if len > int CLIPBOARD_BUF then int CLIPBOARD_BUF else len);
            b = fold (\<lambda>i b. b[i := rget (in_buf (input st)) (nat s + i)]) [0..<nat len]
                  (clip_buf (clipboard st))
        in Inr (st\<lparr>clipboard := \<lparr>clip_buf = b, clip_n = u32 len\<rparr>\<rparr>)
      else
        let st = clear_selection st
        in Inr (st\<lparr>clipboard := (clipboard st)\<lparr>clip_n := 0\<rparr>\<rparr>))"

definition paste_char :: "char \<Rightarrow> 'a console_scheme \<Rightarrow> 'a console_scheme res" where
  "paste_char ch s =
     (if in_e (input s) < in_r (input s) + INPUT_BUF then insert_char ch s else Inr s)"

definition key_paste :: "'a console_scheme \<Rightarrow> 'a console_scheme res" where
  "key_paste s =
     bindr (if clip_n (clipboard s) > 0
            then bindr (if has_selection s then delete_selection s else Inr s) (\<lambda>s.
                 for_each (take (clip_n (clipboard s)) (clip_buf (clipboard s))) paste_char s)
            else Inr s) (\<lambda>s.
       Inr (clear_selection (deselect_if_any s)))"

text \<open>The two loops of Control-A walk left, those of Control-D right, by spaces and by a word.\<close>

fun spaces_left :: "char list \<Rightarrow> nat \<Rightarrow> nat \<Rightarrow> nat" where
  "spaces_left b w 0 = 0"
| "spaces_left b w (Suc t) =
     (if Suc t > w \<and> is_whitespace (rget b (Suc t)) then spaces_left b w t else Suc t)"

fun word_left :: "char list \<Rightarrow> nat \<Rightarrow> nat \<Rightarrow> nat" where
  "word_left b w 0 = 0"
| "word_left b w (Suc t) =
     (if Suc t > w \<and> \<not> is_whitespace (rget b t) then word_left b w t else Suc t)"

function word_right :: "char list \<Rightarrow> nat \<Rightarrow> nat \<Rightarrow> nat" where
  "word_right b e t =
     (if t < e \<and> \<not> is_whitespace (rget b t) then word_right b e (t + 1) else t)"
  by pat_completeness auto
termination by (relation "measure (\<lambda>(b, e, t). e - t)") auto

function spaces_right :: "char list \<Rightarrow> nat \<Rightarrow> nat \<Rightarrow> nat" where
  "spaces_right b e t =
     (if t < e \<and> is_whitespace (rget b t) then spaces_right b e (t + 1) else t)"
  by pat_completeness auto
termination by (relation "measure (\<lambda>(b, e, t). e - t)") auto

declare word_right.simps [simp del] spaces_right.simps [simp del]

definition key_word_left :: "'a console_scheme \<Rightarrow> 'a console_scheme res" where
  "key_word_left s =
     (let s = deselect_if_any s; i = input s
      in if in_c i > in_w i then
           let old_c = in_c i;
               temp_c = in_c i - 1;
               temp_c = spaces_left (in_buf i) (in_w i) temp_c;
               temp_c = word_left (in_buf i) (in_w i) temp_c;
               s = upd_in (\<lambda>i. i\<lparr>in_c := temp_c\<rparr>) s;
               (p, s) = get_cursor s
           in Inr (set_cursor (p - (int old_c - int (in_c (input s)))) s)
         else Inr s)"

definition key_eof_or_word_right :: "'a console_scheme \<Rightarrow> 'a console_scheme res" where
  "key_eof_or_word_right s =
     (let s = deselect_if_any s; i = input s
      in if in_e i = in_w i then
           let s = upd_in (\<lambda>i. i\<lparr>in_buf := rput (in_buf i) (in_e i) CHR 0x04, in_e := in_e i + 1\<rparr>) s;
               s = upd_in (\<lambda>i. i\<lparr>in_w := in_e i\<rparr>) s;
               s = upd_in (\<lambda>i. i\<lparr>in_c := in_w i\<rparr>) s
           in wakeup Chan_input_r s
         else if in_c i < in_e i then
           let old_c = in_c i;
               temp_c = word_right (in_buf i) (in_e i) (in_c i);
               temp_c = spaces_right (in_buf i) (in_e i) temp_c
           in if temp_c < in_e i then
                let (p, s) = get_cursor s;
                    s = set_cursor (p + (int temp_c - int old_c)) s
                in Inr (upd_in (\<lambda>i. i\<lparr>in_c := temp_c\<rparr>) s)
              else Inr s
         else Inr s)"

definition key_kill_line :: "'a console_scheme \<Rightarrow> 'a console_scheme res" where
  "key_kill_line s =
     (let s = deselect_if_any s
      in bindr (if in_e (input s) \<noteq> in_w (input s)
                then bindr (erase_line s) (\<lambda>s.
                     Inr (clear_undo (upd_in (\<lambda>i. i\<lparr>in_c := in_w i\<rparr>) s)))
                else Inr s) (\<lambda>s.
           Inr (clear_undo (upd_in (\<lambda>i. i\<lparr>in_c := in_w i\<rparr>) s))))"

definition key_backspace :: "'a console_scheme \<Rightarrow> 'a console_scheme res" where
  "key_backspace s =
     (if has_selection s then delete_selection s
      else if in_c (input s) > in_w (input s) then
        let s = push_undo OP_DELETE (rget (in_buf (input s)) (in_c (input s) - 1))
                  (in_c (input s) - 1) s;
            (cursor_pos, s) = get_cursor s;
            w = in_w (input s);
            line_start_pos = cursor_pos - (int (in_c (input s)) - int w);
            s = upd_in (\<lambda>i. i\<lparr>in_buf := shift_down 1 (in_c i) (in_e i) (in_buf i)\<rparr>) s;
            s = upd_in (\<lambda>i. i\<lparr>in_c := in_c i - 1, in_e := in_e i - 1\<rparr>) s;
            s = set_cursor line_start_pos s
        in bindr (putstr (rslice (in_buf (input s)) w (in_e (input s))) s) (\<lambda>s.
           bindr (consputc 32 s) (\<lambda>s.
             Inr (set_cursor (line_start_pos + (int (in_c (input s)) - int w)) s)))
      else Inr s)"

text \<open>Control-Z: the inner part takes back an insertion at counter \<open>pos\<close>.\<close>

definition undo_insert :: "nat \<Rightarrow> 'a console_scheme \<Rightarrow> 'a console_scheme res" where
  "undo_insert pos s =
     (let s = upd_in (\<lambda>i. i\<lparr>in_buf := shift_down 1 (pos + 1) (in_e i) (in_buf i)\<rparr>) s;
          s = upd_in (\<lambda>i. i\<lparr>in_e := in_e i - 1\<rparr>) s;
          (cursor_before, s) = get_cursor s;
          delta = int (in_c (input s)) - int pos;
          s = set_cursor (cursor_before - delta) s
      in bindr (putstr (rslice (in_buf (input s)) pos (in_e (input s))) s) (\<lambda>s.
         bindr (consputc 32 s) (\<lambda>s.
           let (p, s) = get_cursor s;
               s = set_cursor (p - (int (in_e (input s)) - int pos + 1)) s
           in Inr (upd_in (\<lambda>i. i\<lparr>in_c := pos\<rparr>) s))))"

definition key_undo :: "'a console_scheme \<Rightarrow> 'a console_scheme res" where
  "key_undo s =
     (let s = deselect_if_any s
      in if undo_n (undo s) > 0 then
           let s = s\<lparr>undo := (undo s)\<lparr>undo_n := undo_n (undo s) - 1\<rparr>\<rparr>;
               last = undo_buf (undo s) ! undo_n (undo s);
               pos = op_pos last
           in if op_type last = OP_INSERT then
                if pos < in_w (input s) \<or> pos \<ge> in_e (input s) then Inr s
                else undo_insert pos s
              else Inr s
         else Inr s)"

definition key_left :: "'a console_scheme \<Rightarrow> 'a console_scheme res" where
  "key_left s =
     (let s = deselect_if_any s
      in if in_c (input s) > in_w (input s) then
           let s = upd_in (\<lambda>i. i\<lparr>in_c := in_c i - 1\<rparr>) s;
               (p, s) = get_cursor s
           in Inr (set_cursor (p - 1) s)
         else Inr s)"

definition key_right :: "'a console_scheme \<Rightarrow> 'a console_scheme res" where
  "key_right s =
     (let s = deselect_if_any s
      in if in_c (input s) < in_e (input s) then
           let s = upd_in (\<lambda>i. i\<lparr>in_c := in_c i + 1\<rparr>) s;
               (p, s) = get_cursor s
           in Inr (set_cursor (p + 1) s)
         else Inr s)"

definition commit_line :: "'a console_scheme \<Rightarrow> 'a console_scheme res" where
  "commit_line s =
     (let s = upd_in (\<lambda>i. i\<lparr>in_buf := rput (in_buf i) (in_e i) CHR 0x0A, in_e := in_e i + 1\<rparr>) s;
          s = upd_in (\<lambda>i. i\<lparr>in_w := in_e i\<rparr>) s;
          s = upd_in (\<lambda>i. i\<lparr>in_c := in_w i\<rparr>) s;
          s = clear_undo s
      in wakeup Chan_input_r s)"

definition key_default :: "int \<Rightarrow> 'a console_scheme \<Rightarrow> 'a console_scheme res" where
  "key_default c s =
     (if c \<noteq> 0 then
        let c = (if c = 13 then 10 else c)
        in bindr (if has_selection s then delete_selection s else Inr s) (\<lambda>s.
           bindr (if c = 10 \<or> in_e (input s) = in_r (input s) + INPUT_BUF
                  then bindr (if c = 10 then bindr (cgaputc 10 (scr s)) (\<lambda>d. Inr (s\<lparr>scr := d\<rparr>)) else Inr s)
                         commit_line
                  else if in_e (input s) < in_r (input s) + INPUT_BUF
                  then insert_char (char_of c) s
                  else Inr s) (\<lambda>s.
             Inr (clear_selection s)))
      else Inr s)"

definition KEY_LF :: int where "KEY_LF = 0xE4"
definition KEY_RT :: int where "KEY_RT = 0xE5"

definition POS_MAX :: nat where "POS_MAX = 2 ^ 31 - 256"

definition console_key :: "int \<Rightarrow> 'a console_scheme \<Rightarrow> 'a console_scheme res" where
  "console_key c s =
     (if in_e (input s) \<ge> POS_MAX then Inl (Undef ''position beyond int'')
      else if c = 9 then key_tab s
      else if c = 19 then key_select s
      else if c = 3 then key_copy s
      else if c = 22 then key_paste s
      else if c = 1 then key_word_left s
      else if c = 4 then key_eof_or_word_right s
      else if c = 16 then Inr (deselect_if_any s)
      else if c = 21 then key_kill_line s
      else if c = 8 \<or> c = 0x7f then key_backspace s
      else if c = 26 then key_undo s
      else if c = KEY_LF then key_left s
      else if c = KEY_RT then key_right s
      else key_default c s)"

text \<open>
  \<open>getc\<close> returns the next key of its device, negative when there is none; \<open>d\<close> is the state of the device
  and of the driver behind it.
\<close>

partial_function (option) consoleintr_loop ::
  "('d \<Rightarrow> int \<times> 'd) \<Rightarrow> (int \<Rightarrow> 's \<Rightarrow> 's res) \<Rightarrow> bool \<Rightarrow> 's \<Rightarrow> 'd \<Rightarrow> (bool \<times> 's \<times> 'd) res option" where
  "consoleintr_loop getc key doprocdump s d =
     (let c = fst (getc d); d = snd (getc d)
      in if c < 0 then Some (Inr (doprocdump, s, d))
         else let t = key c s
              in if isl t then Some (Inl (projl t))
                 else consoleintr_loop getc key (doprocdump \<or> c = 16) (projr t) d)"

definition state_name :: "procstate \<Rightarrow> string" where
  "state_name st = (case st of UNUSED \<Rightarrow> ''unused'' | EMBRYO \<Rightarrow> ''embryo'' | SLEEPING \<Rightarrow> ''sleep ''
     | RUNNABLE \<Rightarrow> ''runble'' | RUNNING \<Rightarrow> ''run   '' | ZOMBIE \<Rightarrow> ''zombie'')"

text \<open>\<open>callers\<close> stands for what getcallerpcs finds on the kernel stack of a sleeping process.\<close>

definition procdump :: "(proc \<Rightarrow> nat list) \<Rightarrow> 'a console_scheme \<Rightarrow> 'a console_scheme res" where
  "procdump callers s =
     for_each [0..<NPROC] (\<lambda>j s.
       let p = ptable s j
       in if pstate p = UNUSED then Inr s
          else
            bindr (cprintf (Some ''%d %s %s'')
              [PNum (u32 (pid p)), PStr (Some (state_name (pstate p))), PStr (Some (pname p))] s) (\<lambda>s.
            bindr (if pstate p = SLEEPING
                   then for_each (takeWhile (\<lambda>pc. pc \<noteq> 0) (take 10 (callers p)))
                          (\<lambda>pc. cprintf (Some '' %p'') [PNum pc]) s
                   else Inr s) (\<lambda>s.
            cprintf (Some [CHR 0x0A]) [] s))) s"

definition consoleintr ::
  "(proc \<Rightarrow> nat list) \<Rightarrow> ('d \<Rightarrow> int \<times> 'd) \<Rightarrow> 'a console_scheme \<Rightarrow> 'd
     \<Rightarrow> ('a console_scheme \<times> 'd) res option" where
  "consoleintr callers getc s d =
     (case acquire Cons_lock s of Inl x \<Rightarrow> Some (Inl x)
      | Inr s \<Rightarrow>
          (case consoleintr_loop getc console_key False s d of None \<Rightarrow> None
           | Some t \<Rightarrow> Some (bindr t (\<lambda>(doprocdump, s, d).
               bindr (release Cons_lock s) (\<lambda>s.
               bindr (if doprocdump then procdump callers s else Inr s) (\<lambda>s.
                 Inr (s, d)))))))"

text \<open>
  The loop of consoleread: the bytes delivered, the remaining count, and the state; the count is
  \<open>None\<close> when the process was killed while it waited. Waiting is \<open>Asleep\<close>.
\<close>

fun read_loop :: "nat \<Rightarrow> nat \<Rightarrow> 'a console_scheme \<Rightarrow> (string \<times> nat option \<times> 'a console_scheme) res" where
  "read_loop target 0 s = Inr ([], Some 0, s)"
| "read_loop target (Suc n) s =
     (if in_r (input s) = in_w (input s) then
        bindr (myproc s) (\<lambda>(p, s).
          case p of None \<Rightarrow> Inl (Undef ''null pointer'')
          | Some q \<Rightarrow> if killed (ptable s q) then Inr ([], None, s) else Inl Asleep)
      else
        let ch = rget (in_buf (input s)) (in_r (input s));
            s = upd_in (\<lambda>i. i\<lparr>in_r := in_r i + 1\<rparr>) s
        in if ch = CHR 0x04 then
             Inr ([], Some (Suc n), if Suc n < target then upd_in (\<lambda>i. i\<lparr>in_r := in_r i - 1\<rparr>) s else s)
           else if ch = CHR 0x0A then Inr ([ch], Some n, s)
           else bindr (read_loop target n s) (\<lambda>(cs, m, s). Inr (ch # cs, m, s)))"

definition consoleread ::
  "('a console_scheme \<Rightarrow> 'a console_scheme res) \<Rightarrow> ('a console_scheme \<Rightarrow> 'a console_scheme res) \<Rightarrow> int
     \<Rightarrow> 'a console_scheme \<Rightarrow> (int \<times> string \<times> 'a console_scheme) res" where
  "consoleread iunlock ilock n s =
     bindr (iunlock s) (\<lambda>s.
     bindr (acquire Cons_lock s) (\<lambda>s.
     bindr (read_loop (nat n) (nat n) s) (\<lambda>(cs, m, s).
     bindr (release Cons_lock s) (\<lambda>s.
     bindr (ilock s) (\<lambda>s.
       Inr (case m of None \<Rightarrow> -1 | Some k \<Rightarrow> (if n < 0 then 0 else n - int k), cs, s))))))"

definition consolewrite ::
  "('a console_scheme \<Rightarrow> 'a console_scheme res) \<Rightarrow> ('a console_scheme \<Rightarrow> 'a console_scheme res) \<Rightarrow> string
     \<Rightarrow> 'a console_scheme \<Rightarrow> (int \<times> 'a console_scheme) res" where
  "consolewrite iunlock ilock bs s =
     bindr (iunlock s) (\<lambda>s.
     bindr (acquire Cons_lock s) (\<lambda>s.
     bindr (for_each bs (\<lambda>ch. consputc (of_char ch)) s) (\<lambda>s.
     bindr (release Cons_lock s) (\<lambda>s.
     bindr (ilock s) (\<lambda>s.
       Inr (int (length bs), s))))))"

definition consoleinit :: "'a console_scheme \<Rightarrow> 'a console_scheme" where
  "consoleinit s =
     (let s = initlock Cons_lock ''console'' s;
          s = s\<lparr>locking := True\<rparr>;
          s = upd_in (\<lambda>i. i\<lparr>in_r := 0, in_w := 0, in_e := 0, in_c := 0\<rparr>) s;
          s = clear_undo s
      in reset_tab_state s)"

end
