(* ===== verification/Editor.thy ===== *)
theory Editor
  imports Console
begin

text \<open>
  What the console's line editor promises, and that consoleintr keeps it. The abstract editor has
  the line as a string with a cursor index, the bytes committed and not yet read, the undo stack,
  the clipboard and the selection. \<open>ed\<close> maps a console state to it; every key other than Tab is
  simulated by the operation of the abstract editor, keeps the invariant of the ring buffer, and
  keeps the screen in step: the line is what the screen shows and the hardware cursor is at the
  insertion point. In particular no such key can run into the panic of cgaputc.
\<close>

section \<open>The abstract editor\<close>

record editor =
  a_base :: nat
  a_com :: string
  a_line :: string
  a_pos :: nat
  a_undo :: "op list"
  a_clip :: string
  a_selecting :: bool
  a_start :: int
  a_end :: int

definition a_push :: "optype \<Rightarrow> char \<Rightarrow> nat \<Rightarrow> editor \<Rightarrow> editor" where
  "a_push t ch pos a =
     (if length (a_undo a) < UNDO_BUF
      then a\<lparr>a_undo := a_undo a @ [\<lparr>op_type = t, op_c = ch, op_pos = pos\<rparr>]\<rparr> else a)"

definition a_room :: "editor \<Rightarrow> bool" where
  "a_room a \<longleftrightarrow> length (a_com a) + length (a_line a) < INPUT_BUF"

definition a_insert :: "char \<Rightarrow> editor \<Rightarrow> editor" where
  "a_insert ch a =
     (a_push OP_INSERT ch (a_base a + a_pos a) a)\<lparr>
        a_line := take (a_pos a) (a_line a) @ ch # drop (a_pos a) (a_line a),
        a_pos := a_pos a + 1\<rparr>"

definition a_clear :: "editor \<Rightarrow> editor" where
  "a_clear a = a\<lparr>a_selecting := False, a_start := -1, a_end := -1\<rparr>"

definition a_has_sel :: "editor \<Rightarrow> bool" where
  "a_has_sel a \<longleftrightarrow> a_start a \<noteq> -1 \<and> a_end a \<noteq> -1"

definition a_desel :: "editor \<Rightarrow> editor" where
  "a_desel a = (if a_has_sel a then a_clear a else a)"

text \<open>The selected part of the line, as indices into it.\<close>

definition a_range :: "editor \<Rightarrow> nat \<times> nat" where
  "a_range a = (nat (min (a_start a) (a_end a)) - a_base a,
                min (nat (max (a_start a) (a_end a)) - a_base a) (length (a_line a)))"

definition a_delete_sel :: "editor \<Rightarrow> editor" where
  "a_delete_sel a =
     (let (i, j) = a_range a
      in if i \<ge> j then a_clear a
         else let a = fold (\<lambda>k. a_push OP_DELETE (a_line a ! (i + k)) (a_base a + i + k)) [0..<j - i] a
              in a_clear (a\<lparr>a_line := take i (a_line a) @ drop j (a_line a), a_pos := i\<rparr>))"

definition a_backspace :: "editor \<Rightarrow> editor" where
  "a_backspace a =
     (if a_has_sel a then a_delete_sel a
      else if a_pos a > 0 then
        (a_push OP_DELETE (a_line a ! (a_pos a - 1)) (a_base a + a_pos a - 1) a)\<lparr>
           a_line := take (a_pos a - 1) (a_line a) @ drop (a_pos a) (a_line a),
           a_pos := a_pos a - 1\<rparr>
      else a)"

definition a_left :: "editor \<Rightarrow> editor" where
  "a_left a = (a_desel a)\<lparr>a_pos := a_pos a - 1\<rparr>"

definition a_right :: "editor \<Rightarrow> editor" where
  "a_right a = (a_desel a)\<lparr>a_pos := (if a_pos a < length (a_line a) then a_pos a + 1 else a_pos a)\<rparr>"

text \<open>The start of the word left of the cursor, and of the next word right of it.\<close>

definition word_start :: "string \<Rightarrow> nat" where
  "word_start l = length (dropWhile (\<lambda>ch. \<not> is_whitespace ch) (dropWhile is_whitespace (rev l)))"

definition word_skip :: "string \<Rightarrow> nat" where
  "word_skip r =
     (let n = length (takeWhile (\<lambda>ch. \<not> is_whitespace ch) r)
      in n + length (takeWhile is_whitespace (drop n r)))"

definition a_word_left :: "editor \<Rightarrow> editor" where
  "a_word_left a = (a_desel a)\<lparr>a_pos := word_start (take (a_pos a) (a_line a))\<rparr>"

definition a_commit :: "char \<Rightarrow> editor \<Rightarrow> editor" where
  "a_commit ch a =
     a\<lparr>a_base := a_base a + length (a_line a) + 1, a_com := a_com a @ a_line a @ [ch],
       a_line := [], a_pos := 0\<rparr>"

definition a_eof_or_word_right :: "editor \<Rightarrow> editor" where
  "a_eof_or_word_right a =
     (let a = a_desel a
      in if a_line a = [] then a_commit CHR 0x04 a
         else let q = a_pos a + word_skip (drop (a_pos a) (a_line a))
              in if q < length (a_line a) then a\<lparr>a_pos := q\<rparr> else a)"

definition a_kill :: "editor \<Rightarrow> editor" where
  "a_kill a = (a_desel a)\<lparr>a_line := [], a_pos := 0, a_undo := []\<rparr>"

definition a_undo_key :: "editor \<Rightarrow> editor" where
  "a_undo_key a =
     (let a = a_desel a
      in if a_undo a = [] then a
         else
           let x = last (a_undo a);
               k = op_pos x - a_base a;
               a = a\<lparr>a_undo := butlast (a_undo a)\<rparr>
           in if op_type x = OP_INSERT \<and> a_base a \<le> op_pos x \<and> k < length (a_line a)
              then a\<lparr>a_line := take k (a_line a) @ drop (k + 1) (a_line a), a_pos := k\<rparr> else a)"

definition a_select :: "editor \<Rightarrow> editor" where
  "a_select a =
     (let p = int (a_base a + a_pos a)
      in if \<not> a_selecting a then a\<lparr>a_selecting := True, a_start := p, a_end := -1\<rparr>
         else if a_start a = p then a_clear a
         else a\<lparr>a_selecting := False, a_start := min (a_start a) p, a_end := max (a_start a) p\<rparr>)"

definition a_copy :: "editor \<Rightarrow> editor" where
  "a_copy a =
     (if a_has_sel a then
        let (i, j) = a_range a in a\<lparr>a_clip := take (j - i) (drop i (a_line a))\<rparr>
      else (a_clear a)\<lparr>a_clip := []\<rparr>)"

definition a_paste :: "editor \<Rightarrow> editor" where
  "a_paste a =
     a_clear (if a_clip a = [] then a
       else fold (\<lambda>ch a. if a_room a then a_insert ch a else a) (a_clip a)
              (if a_has_sel a then a_delete_sel a else a))"

definition a_default :: "int \<Rightarrow> editor \<Rightarrow> editor" where
  "a_default c a =
     (if c = 0 then a
      else let a = (if a_has_sel a then a_delete_sel a else a)
           in if c = 10 \<or> c = 13 then a_clear ((a_commit CHR 0x0A a)\<lparr>a_undo := []\<rparr>)
              else a_clear (a_insert (char_of c) a))"

definition a_key :: "int \<Rightarrow> editor \<Rightarrow> editor" where
  "a_key c a =
     (if c = 19 then a_select a
      else if c = 3 then a_copy a
      else if c = 22 then a_paste a
      else if c = 1 then a_word_left a
      else if c = 4 then a_eof_or_word_right a
      else if c = 16 then a_desel a
      else if c = 21 then a_kill a
      else if c = 8 \<or> c = 0x7f then a_backspace a
      else if c = 26 then a_undo_key a
      else if c = KEY_LF then a_left a
      else if c = KEY_RT then a_right a
      else a_default c a)"

section \<open>Abstraction and invariants\<close>

definition ed :: "'a console_scheme \<Rightarrow> editor" where
  "ed s = (let i = input s in \<lparr>
     a_base = in_w i,
     a_com = rslice (in_buf i) (in_r i) (in_w i),
     a_line = rslice (in_buf i) (in_w i) (in_e i),
     a_pos = in_c i - in_w i,
     a_undo = take (undo_n (undo s)) (undo_buf (undo s)),
     a_clip = take (clip_n (clipboard s)) (clip_buf (clipboard s)),
     a_selecting = selecting i,
     a_start = sel_start i,
     a_end = sel_end i\<rparr>)"

definition ring_inv :: "input \<Rightarrow> bool" where
  "ring_inv i \<longleftrightarrow> length (in_buf i) = INPUT_BUF \<and> in_r i \<le> in_w i \<and> in_w i \<le> in_c i \<and>
     in_c i \<le> in_e i \<and> in_e i \<le> in_r i + INPUT_BUF"

definition sel_inv :: "input \<Rightarrow> bool" where
  "sel_inv i \<longleftrightarrow> -1 \<le> sel_start i \<and> -1 \<le> sel_end i \<and> (sel_start i = -1 \<longrightarrow> sel_end i = -1) \<and>
     (selecting i \<longrightarrow> sel_start i \<noteq> -1 \<and> sel_end i = -1) \<and>
     (sel_end i \<noteq> -1 \<longrightarrow> min (sel_start i) (sel_end i) \<le> int (in_e i) \<and>
                        int (in_w i) \<le> max (sel_start i) (sel_end i))"

definition store_inv :: "'a console_scheme \<Rightarrow> bool" where
  "store_inv s \<longleftrightarrow> length (undo_buf (undo s)) = UNDO_BUF \<and> undo_n (undo s) \<le> UNDO_BUF \<and>
     length (clip_buf (clipboard s)) = CLIPBOARD_BUF \<and> clip_n (clipboard s) \<le> CLIPBOARD_BUF \<and>
     no_nl (a_line (ed s)) \<and> no_nl (a_clip (ed s))"

definition con_inv :: "'a console_scheme \<Rightarrow> bool" where
  "con_inv s \<longleftrightarrow> ring_inv (input s) \<and> sel_inv (input s) \<and> store_inv s"

text \<open>The screen shows \<open>xs\<close> from cell \<open>p\<close> on, and the cursor is at index \<open>k\<close> of it.\<close>

definition displays :: "cga \<Rightarrow> nat \<Rightarrow> string \<Rightarrow> nat \<Rightarrow> bool" where
  "displays d p xs k \<longleftrightarrow> cga_ok d \<and> cursor d = p + k \<and> k \<le> length xs \<and> p + length xs < 1920 \<and>
     (\<forall>j < length xs. crt d (p + j) mod 256 = of_char (xs ! j))"

definition scr_inv :: "'a console_scheme \<Rightarrow> bool" where
  "scr_inv s \<longleftrightarrow> \<not> panicked s \<and> (\<exists>p. displays (scr s) p (a_line (ed s)) (a_pos (ed s)))"

definition env_ok :: "'a console_scheme \<Rightarrow> bool" where
  "env_ok s \<longleftrightarrow> mach_ok s \<and> holds Cons_lock s \<and> free Ptable_lock s"

definition good :: "'a console_scheme \<Rightarrow> bool" where
  "good s \<longleftrightarrow> con_inv s \<and> scr_inv s \<and> env_ok s"

section \<open>The screen operations under the invariant\<close>

lemma displaysD: "displays d p xs k \<Longrightarrow> cga_ok d" "displays d p xs k \<Longrightarrow> cursor d = p + k"
  by (simp_all add: displays_def)

text \<open>Two screens with the same cursor and the same bytes show the same.\<close>

definition same_text :: "cga \<Rightarrow> cga \<Rightarrow> bool" where
  "same_text d d' \<longleftrightarrow> cga_ok d' \<and> cursor d' = cursor d \<and> (\<forall>j. crt d' j mod 256 = crt d j mod 256)"

lemma displays_same: "same_text d d' \<Longrightarrow> displays d p xs k \<Longrightarrow> displays d' p xs k"
  by (simp add: same_text_def displays_def)

lemma same_text_trans: "same_text d d' \<Longrightarrow> same_text d' d'' \<Longrightarrow> same_text d d''"
  by (simp add: same_text_def)

lemma same_text_index [simp]: "cga_ok d \<Longrightarrow> same_text d (d\<lparr>crtc_index := j\<rparr>)"
  by (simp add: same_text_def)

lemma same_text_refl: "cga_ok d \<Longrightarrow> same_text d d"
  by (simp add: same_text_def)

lemma get_cursor_eq:
  "cga_ok (scr s) \<Longrightarrow> get_cursor s = (int (cursor (scr s)), s\<lparr>scr := (scr s)\<lparr>crtc_index := 15\<rparr>\<rparr>)"
  by (simp add: get_cursor_def cga_get_cursor_pos_eq)

text \<open>Moving the cursor within the line.\<close>

lemma displays_set:
  assumes "displays d p xs k" "k' \<le> length xs" "pos = int (p + k')"
  shows "displays (cga_set_cursor_pos pos d) p xs k'"
  using assms by (auto simp: displays_def)

lemma highlight_byte: "((x AND 0x00ff) OR (if on then 0x7000 else 0x0700 :: nat)) mod 256 = x mod 256"
proof -
  have "take_bit 8 ((x AND 0x00ff) OR y) = take_bit 8 (x AND 0x00ff) OR take_bit 8 y" for y :: nat
    by (rule take_bit_or)
  moreover have "(x AND 0x00ff) = x mod 256"
    using take_bit_eq_mod [of 8 x] by (simp add: take_bit_eq_mask mask_numeral)
  ultimately show ?thesis by (auto simp: take_bit_eq_mod)
qed

lemma highlight_same: "cga_ok d \<Longrightarrow> same_text d (highlight_cell on pos d)"
  using highlight_byte [of _ True] highlight_byte [of _ False]
  by (auto simp: highlight_cell_def same_text_def)

lemma highlights_same: "cga_ok d \<Longrightarrow> same_text d (fold (\<lambda>k. highlight_cell on (f k)) ks d)"
proof (induction ks arbitrary: d)
  case (Cons k ks)
  then have "same_text d (highlight_cell on (f k) d)" by (simp add: highlight_same)
  moreover from this have "same_text (highlight_cell on (f k) d)
      (fold (\<lambda>k. highlight_cell on (f k)) ks (highlight_cell on (f k) d))"
    by (intro Cons.IH) (simp add: same_text_def)
  ultimately show ?case by (simp add: same_text_trans)
qed (simp add: same_text_refl)

lemma update_highlight_eq:
  assumes "cga_ok (scr s)"
  obtains d where "update_highlight a b on s = s\<lparr>scr := d\<rparr>" "same_text (scr s) d"
proof -
  define st where "st = (if a < int (in_w (input s)) then int (in_w (input s)) else a)"
  define en where "en = (if b > int (in_e (input s)) then int (in_e (input s)) else b)"
  define f where "f = (\<lambda>k. highlight_cell on (int (cursor (scr s)) -
      (int (in_c (input s)) - int (in_w (input s))) + (k - int (in_w (input s)))))"
  show thesis
  proof (cases "a < 0 \<or> b \<le> a \<or> en \<le> st")
    case True
    then have "update_highlight a b on s = s\<lparr>scr := scr s\<rparr>"
      by (simp add: update_highlight_def Let_def flip: st_def en_def) blast
    then show thesis using same_text_refl [OF assms] by (rule that)
  next
    case False
    then have "update_highlight a b on s = s\<lparr>scr := fold f [st..en - 1] ((scr s)\<lparr>crtc_index := 15\<rparr>)\<rparr>"
      using get_cursor_eq [OF assms]
      by (simp add: update_highlight_def upd_scr_def Let_def f_def flip: st_def en_def)
    moreover have "same_text (scr s) (fold f [st..en - 1] ((scr s)\<lparr>crtc_index := 15\<rparr>))"
      unfolding f_def using assms
      by (intro same_text_trans [OF same_text_index highlights_same]) simp_all
    ultimately show thesis by (rule that)
  qed
qed

lemma clear_selection_eq:
  assumes "cga_ok (scr s)"
  obtains d where "clear_selection s = s\<lparr>scr := d, input := (input s)\<lparr>selecting := False,
      sel_start := -1, sel_end := (if sel_start (input s) = -1 then sel_end (input s) else -1)\<rparr>\<rparr>"
    "same_text (scr s) d"
proof -
  obtain d where d: "update_highlight (sel_start (input s)) (sel_end (input s)) False s = s\<lparr>scr := d\<rparr>"
    "same_text (scr s) d"
    using assms by (rule update_highlight_eq)
  show thesis
  proof (cases "sel_start (input s) = -1")
    case True
    with that [of "scr s"] assms show thesis
      by (simp add: clear_selection_def upd_in_def same_text_refl)
  next
    case False
    with d that [of d] show thesis by (simp add: clear_selection_def upd_in_def)
  qed
qed

text \<open>Printing a string through consputc is printing it on the screen.\<close>

lemma putstr_eq:
  "\<not> panicked s \<Longrightarrow> putstr xs s = bindr (for_each xs (\<lambda>c. scr_putc (schar c)) (scr s)) (\<lambda>d. Inr (s\<lparr>scr := d\<rparr>))"
proof (induction xs arbitrary: s)
  case (Cons x xs)
  then have "for_each xs (\<lambda>ch. consputc (schar ch)) (s\<lparr>scr := d\<rparr>) =
      bindr (for_each xs (\<lambda>c. scr_putc (schar c)) d) (\<lambda>d. Inr (s\<lparr>scr := d\<rparr>))" for d
    using Cons.IH [of "s\<lparr>scr := d\<rparr>"] by (simp add: putstr_def)
  with Cons.prems show ?case by (simp add: putstr_def consputc_def bindr_assoc)
qed (simp add: putstr_def)

lemma putstr_returns:
  assumes "\<not> panicked s" "cga_ok (scr s)" "no_nl xs" "cursor (scr s) + length xs \<le> 1920"
    "cursor (scr s) < 1920"
  obtains d where "putstr xs s = Inr (s\<lparr>scr := d\<rparr>)" "puts_ok (scr s) xs d"
  using puts_returns [OF assms(2-5)] assms(1) that by (auto simp: putstr_eq elim!: returnsE)

section \<open>Selection and cursor movement\<close>

lemma env_upd [simp]:
  "env_ok (s\<lparr>scr := d\<rparr>) = env_ok s" "env_ok (s\<lparr>input := i\<rparr>) = env_ok s"
  "env_ok (s\<lparr>undo := u\<rparr>) = env_ok s" "env_ok (s\<lparr>clipboard := b\<rparr>) = env_ok s"
  by (simp_all add: env_ok_def mach_ok_def holds_def free_def this_cpu_def readeflags_if_def
      split: option.split)

lemma ed_scr [simp]: "ed (s\<lparr>scr := d\<rparr>) = ed s"
  by (simp add: ed_def)

lemma a_pos_le: "ring_inv (input s) \<Longrightarrow> a_pos (ed s) \<le> length (a_line (ed s))"
  by (auto simp: ed_def ring_inv_def Let_def)

lemma good_scr:
  assumes "good s" "same_text (scr s) d"
  shows "good (s\<lparr>scr := d\<rparr>)"
  using assms displays_same [OF assms(2)]
  by (auto simp: good_def con_inv_def scr_inv_def store_inv_def)

lemma good_cga: "good s \<Longrightarrow> cga_ok (scr s)" "good s \<Longrightarrow> \<not> panicked s"
  by (auto simp: good_def scr_inv_def displays_def)

lemma good_clear: "good s \<Longrightarrow> good (clear_selection s) \<and> ed (clear_selection s) = a_clear (ed s)"
proof -
  assume g: "good s"
  obtain d where d: "clear_selection s = s\<lparr>scr := d, input := (input s)\<lparr>selecting := False,
      sel_start := -1, sel_end := (if sel_start (input s) = -1 then sel_end (input s) else -1)\<rparr>\<rparr>"
    "same_text (scr s) d"
    using good_cga(1) [OF g] by (rule clear_selection_eq)
  have e: "sel_start (input s) = -1 \<Longrightarrow> sel_end (input s) = -1"
    using g by (simp add: good_def con_inv_def sel_inv_def)
  then have ed: "ed (clear_selection s) = a_clear (ed s)"
    by (simp add: d(1) ed_def a_clear_def Let_def)
  have "con_inv (clear_selection s)"
    using g e unfolding good_def con_inv_def store_inv_def ed
    by (simp add: d(1) ring_inv_def sel_inv_def a_clear_def)
  moreover have "scr_inv (clear_selection s)"
    using g displays_same [OF d(2)] unfolding good_def scr_inv_def ed
    by (auto simp: d(1) a_clear_def)
  moreover have "env_ok (clear_selection s)" using g by (simp add: good_def d(1))
  ultimately show ?thesis by (simp add: good_def ed)
qed

lemma has_selection_ed: "has_selection s = a_has_sel (ed s)"
  by (simp add: has_selection_def a_has_sel_def ed_def Let_def)

lemma good_desel: "good s \<Longrightarrow> good (deselect_if_any s) \<and> ed (deselect_if_any s) = a_desel (ed s)"
  by (simp add: deselect_if_any_def a_desel_def has_selection_ed good_clear)

lemma clear_fields:
  "cga_ok (scr s) \<Longrightarrow> in_buf (input (clear_selection s)) = in_buf (input s)"
  "cga_ok (scr s) \<Longrightarrow> in_r (input (clear_selection s)) = in_r (input s)"
  "cga_ok (scr s) \<Longrightarrow> in_w (input (clear_selection s)) = in_w (input s)"
  "cga_ok (scr s) \<Longrightarrow> in_e (input (clear_selection s)) = in_e (input s)"
  "cga_ok (scr s) \<Longrightarrow> in_c (input (clear_selection s)) = in_c (input s)"
  "cga_ok (scr s) \<Longrightarrow> undo (clear_selection s) = undo s"
  "cga_ok (scr s) \<Longrightarrow> clipboard (clear_selection s) = clipboard s"
  by (rule clear_selection_eq [of s]; simp)+

lemma desel_fields:
  assumes "cga_ok (scr s)"
  shows "in_buf (input (deselect_if_any s)) = in_buf (input s)"
    "in_r (input (deselect_if_any s)) = in_r (input s)"
    "in_w (input (deselect_if_any s)) = in_w (input s)"
    "in_e (input (deselect_if_any s)) = in_e (input s)"
    "in_c (input (deselect_if_any s)) = in_c (input s)"
    "undo (deselect_if_any s) = undo s"
    "clipboard (deselect_if_any s) = clipboard s"
  using assms by (simp_all add: deselect_if_any_def clear_fields)

text \<open>
  Moving the insertion point to counter \<open>k\<close>, and the hardware cursor by the same distance:
  the common core of the arrow keys and of the word movements.
\<close>

lemma good_move:
  assumes "good s" "in_w (input s) \<le> k" "k \<le> in_e (input s)"
    and "pos = int (cursor (scr s)) + (int k - int (in_c (input s)))"
    and "s' = s\<lparr>scr := cga_set_cursor_pos pos ((scr s)\<lparr>crtc_index := 15\<rparr>),
               input := (input s)\<lparr>in_c := k\<rparr>\<rparr>"
  shows "good s' \<and> ed s' = (ed s)\<lparr>a_pos := k - in_w (input s)\<rparr>"
proof -
  have ring: "ring_inv (input s)" using assms(1) by (simp add: good_def con_inv_def)
  from assms(1) obtain p where p: "displays (scr s) p (a_line (ed s)) (a_pos (ed s))"
    by (auto simp: good_def scr_inv_def)
  have ed: "ed s' = (ed s)\<lparr>a_pos := k - in_w (input s)\<rparr>"
    by (simp add: assms(5) ed_def Let_def)
  have len: "k - in_w (input s) \<le> length (a_line (ed s))"
    using assms(3) by (simp add: ed_def Let_def)
  have "pos = int (p + (k - in_w (input s)))"
    using p ring assms(2,4) by (simp add: displays_def ed_def Let_def ring_inv_def of_nat_diff)
  then have "displays (scr s') p (a_line (ed s)) (k - in_w (input s))"
    unfolding assms(5) using displays_set [OF displays_same [OF same_text_index p] len] displaysD(1) [OF p]
    by simp
  then have "scr_inv s'"
    using assms(1) ed by (auto simp: good_def scr_inv_def assms(5))
  moreover have "con_inv s'"
    using assms(1-3) ed unfolding good_def con_inv_def store_inv_def
    by (simp add: assms(5) ring_inv_def sel_inv_def)
  moreover have "env_ok s'" using assms(1) by (simp add: good_def assms(5))
  ultimately show ?thesis by (simp add: good_def ed)
qed

lemma good_stay:
  assumes "good s" "a_pos (ed s) = k"
  shows "good s \<and> ed s = (ed s)\<lparr>a_pos := k\<rparr>"
  using assms by (simp flip: assms(2))

lemma a_pos_desel [simp]: "a_pos (a_desel a) = a_pos a" "a_line (a_desel a) = a_line a"
    "a_com (a_desel a) = a_com a" "a_undo (a_desel a) = a_undo a" "a_base (a_desel a) = a_base a"
  by (simp_all add: a_desel_def a_clear_def)

lemma ed_simps:
  "a_pos (ed s) = in_c (input s) - in_w (input s)" "a_base (ed s) = in_w (input s)"
  "a_line (ed s) = rslice (in_buf (input s)) (in_w (input s)) (in_e (input s))"
  "a_com (ed s) = rslice (in_buf (input s)) (in_r (input s)) (in_w (input s))"
  "a_undo (ed s) = take (undo_n (undo s)) (undo_buf (undo s))"
  "a_clip (ed s) = take (clip_n (clipboard s)) (clip_buf (clipboard s))"
  "a_selecting (ed s) = selecting (input s)" "a_start (ed s) = sel_start (input s)"
  "a_end (ed s) = sel_end (input s)"
  by (simp_all add: ed_def Let_def)

lemma ring_invD:
  assumes "ring_inv i"
  shows "length (in_buf i) = INPUT_BUF" "in_buf i \<noteq> []" "in_r i \<le> in_w i" "in_w i \<le> in_c i"
    "in_c i \<le> in_e i" "in_e i \<le> in_r i + INPUT_BUF"
  using assms by (auto simp: ring_inv_def INPUT_BUF_def)

lemma good_ring: "good s \<Longrightarrow> ring_inv (input s)"
  by (simp add: good_def con_inv_def)

text \<open>A key that first drops the selection and then moves the cursor.\<close>

lemma desel_move:
  assumes "good s" and t: "t = deselect_if_any s"
    and "m = Inr t \<and> k = in_c (input t) \<or>
      m = Inr (t\<lparr>scr := cga_set_cursor_pos (int (cursor (scr t)) + (int k - int (in_c (input t))))
                 ((scr t)\<lparr>crtc_index := 15\<rparr>), input := (input t)\<lparr>in_c := k\<rparr>\<rparr>)"
    and "in_w (input t) \<le> k" "k \<le> in_e (input t)"
  shows "returns m (\<lambda>s'. good s' \<and> ed s' = (a_desel (ed s))\<lparr>a_pos := k - in_w (input t)\<rparr>)"
proof -
  have g: "good t" "ed t = a_desel (ed s)" using good_desel [OF assms(1)] by (simp_all add: t)
  from assms(3) show ?thesis
  proof
    assume "m = Inr t \<and> k = in_c (input t)"
    moreover from this have "a_pos (ed t) = k - in_w (input t)" by (simp add: ed_simps)
    from good_stay [OF g(1) this] have "good t" "ed t = (ed t)\<lparr>a_pos := k - in_w (input t)\<rparr>" by auto
    ultimately show ?thesis by (simp flip: g(2))
  qed (use good_move [OF g(1) assms(4,5) refl refl] g(2) in simp)
qed

lemma key_left_ok:
  assumes "good s"
  shows "returns (key_left s) (\<lambda>s'. good s' \<and> ed s' = a_left (ed s))"
proof -
  define t where "t = deselect_if_any s"
  have t: "good t" "ed t = a_desel (ed s)" using good_desel [OF assms] by (simp_all add: t_def)
  define k where "k = (if in_c (input t) > in_w (input t) then in_c (input t) - 1 else in_c (input t))"
  have "returns (key_left s) (\<lambda>s'. good s' \<and> ed s' = (a_desel (ed s))\<lparr>a_pos := k - in_w (input t)\<rparr>)"
    using good_ring [OF t(1)] good_cga(1) [OF t(1)]
    by (intro desel_move [OF assms t_def])
       (auto simp: key_left_def get_cursor_eq upd_in_def set_cursor_def upd_scr_def k_def ring_inv_def
          of_nat_diff intro!: console.equality simp flip: t_def)
  moreover have "k - in_w (input t) = a_pos (ed t) - 1" by (simp add: k_def ed_simps)
  ultimately show ?thesis by (simp add: a_left_def t(2))
qed

lemma key_right_ok:
  assumes "good s"
  shows "returns (key_right s) (\<lambda>s'. good s' \<and> ed s' = a_right (ed s))"
proof -
  define t where "t = deselect_if_any s"
  have t: "good t" "ed t = a_desel (ed s)" using good_desel [OF assms] by (simp_all add: t_def)
  define k where "k = (if in_c (input t) < in_e (input t) then in_c (input t) + 1 else in_c (input t))"
  have eq: "a_pos (ed t) = a_pos (ed s)" "a_line (ed t) = a_line (ed s)" by (simp_all add: t(2))
  have "returns (key_right s) (\<lambda>s'. good s' \<and> ed s' = (a_desel (ed s))\<lparr>a_pos := k - in_w (input t)\<rparr>)"
    using good_ring [OF t(1)] good_cga(1) [OF t(1)]
    by (intro desel_move [OF assms t_def])
       (auto simp: key_right_def get_cursor_eq upd_in_def set_cursor_def upd_scr_def k_def ring_inv_def
          intro!: console.equality simp flip: t_def)
  moreover have "k - in_w (input t) =
      (if a_pos (ed s) < length (a_line (ed s)) then a_pos (ed s) + 1 else a_pos (ed s))"
    unfolding eq [symmetric] using good_ring [OF t(1)] by (auto simp: k_def ed_simps ring_inv_def)
  ultimately show ?thesis by (simp add: a_right_def)
qed

text \<open>The word loops compute the declarative word boundaries.\<close>

lemma word_left_eq:
  "w \<le> t \<Longrightarrow> word_left b w t = w + length (dropWhile (\<lambda>ch. \<not> is_whitespace ch) (rev (rslice b w t)))"
  by (induction t) (auto simp: rslice_Suc le_Suc_eq)

lemma spaces_word_left:
  "w \<le> t \<Longrightarrow> word_left b w (spaces_left b w t) = w + word_start (rslice b w (Suc t))"
proof (induction t)
  case 0
  then show ?case by (simp add: word_start_def rslice_Suc)
next
  case (Suc t)
  show ?case
  proof (cases "w \<le> t")
    case True
    with Suc.IH show ?thesis
      by (auto simp: word_start_def rslice_Suc word_left_eq simp del: word_left.simps)
  next
    case False
    with Suc.prems have "w = Suc t" by simp
    then show ?thesis by (simp add: word_start_def rslice_Suc)
  qed
qed

lemma word_right_eq:
  "t \<le> e \<Longrightarrow> word_right b e t = t + length (takeWhile (\<lambda>ch. \<not> is_whitespace ch) (rslice b t e))"
proof (induction b e t rule: word_right.induct)
  case (1 b e t)
  then show ?case
    by (cases "t < e") (auto simp: rslice_Cons word_right.simps [of b e t] word_right.simps [of b e e])
qed

lemma spaces_right_eq:
  "t \<le> e \<Longrightarrow> spaces_right b e t = t + length (takeWhile is_whitespace (rslice b t e))"
proof (induction b e t rule: spaces_right.induct)
  case (1 b e t)
  then show ?case
    by (cases "t < e") (auto simp: rslice_Cons spaces_right.simps [of b e t] spaces_right.simps [of b e e])
qed

lemma word_skip_eq:
  assumes "t \<le> e"
  shows "spaces_right b e (word_right b e t) = t + word_skip (rslice b t e)"
proof -
  let ?n = "length (takeWhile (\<lambda>ch. \<not> is_whitespace ch) (rslice b t e))"
  have "?n \<le> e - t" using length_takeWhile_le [of _ "rslice b t e"] by simp
  then have "t + ?n \<le> e" using assms by simp
  then show ?thesis
    using assms by (simp add: word_right_eq spaces_right_eq word_skip_def drop_rslice Let_def
        del: spaces_right.simps word_right.simps)
qed

lemma word_start_le: "word_start xs \<le> length xs"
  unfolding word_start_def by (metis length_dropWhile_le length_rev order_trans)

lemma key_word_left_ok:
  assumes "good s"
  shows "returns (key_word_left s) (\<lambda>s'. good s' \<and> ed s' = a_word_left (ed s))"
proof -
  define t where "t = deselect_if_any s"
  have t: "good t" "ed t = a_desel (ed s)" using good_desel [OF assms] by (simp_all add: t_def)
  have eq: "a_pos (ed t) = a_pos (ed s)" "a_line (ed t) = a_line (ed s)" by (simp_all add: t(2))
  note ring = good_ring [OF t(1)]
  let ?i = "input t"
  define k where "k = in_w ?i + word_start (rslice (in_buf ?i) (in_w ?i) (in_c ?i))"
  have kle: "k \<le> in_c ?i"
    using word_start_le [of "rslice (in_buf ?i) (in_w ?i) (in_c ?i)"] ring_invD(4) [OF ring] by (simp add: k_def)
  have k: "word_left (in_buf ?i) (in_w ?i) (spaces_left (in_buf ?i) (in_w ?i) (in_c ?i - Suc 0)) = k"
    if "in_c ?i > in_w ?i"
    using that spaces_word_left [of "in_w ?i" "in_c ?i - 1" "in_buf ?i"] by (simp add: k_def)
  have k0: "k = in_c ?i" if "\<not> in_c ?i > in_w ?i"
    using that ring by (simp add: k_def ring_inv_def word_start_def)
  have "key_word_left s = (if in_c ?i > in_w ?i
      then Inr (t\<lparr>scr := cga_set_cursor_pos (int (cursor (scr t)) + (int k - int (in_c ?i)))
                 ((scr t)\<lparr>crtc_index := 15\<rparr>), input := ?i\<lparr>in_c := k\<rparr>\<rparr>) else Inr t)"
    using good_cga(1) [OF t(1)]
    by (auto simp: key_word_left_def get_cursor_eq upd_in_def set_cursor_def upd_scr_def Let_def k algebra_simps
          intro!: console.equality simp flip: t_def)
  then have "returns (key_word_left s) (\<lambda>s'. good s' \<and> ed s' = (a_desel (ed s))\<lparr>a_pos := k - in_w ?i\<rparr>)"
    using k0 kle ring_invD [OF ring]
    by (intro desel_move [OF assms t_def]) (auto simp: k_def split: if_splits)
  moreover have "k - in_w ?i = word_start (take (a_pos (ed s)) (a_line (ed s)))"
    unfolding eq [symmetric] using ring_invD [OF ring] by (simp add: k_def ed_simps take_rslice)
  ultimately show ?thesis by (simp add: a_word_left_def)
qed

lemma wakeup_frame:
  "input (wk ch s) = input s" "undo (wk ch s) = undo s" "clipboard (wk ch s) = clipboard s"
  "scr (wk ch s) = scr s" "panicked (wk ch s) = panicked s"
  by (simp_all add: wk_def acq_def rel_def Let_def)

text \<open>Handing a line to the readers: a cleared line, whatever was committed before it kept.\<close>

lemma good_commit:
  assumes "good s" "a_room (ed s)" "displays d p [] 0"
    and "s' = s\<lparr>scr := d, undo := u, input := (input s)\<lparr>
            in_buf := rput (in_buf (input s)) (in_e (input s)) ch, in_e := in_e (input s) + 1,
            in_w := in_e (input s) + 1, in_c := in_e (input s) + 1\<rparr>\<rparr>"
    and "a_has_sel (ed s) = False"
    and "length (undo_buf u) = UNDO_BUF" "undo_n u \<le> UNDO_BUF"
  shows "good s' \<and> ed s' = (a_commit ch (ed s))\<lparr>a_undo := take (undo_n u) (undo_buf u)\<rparr>"
proof -
  let ?i = "input s"
  note ring = ring_invD [OF good_ring [OF assms(1)]]
  have room: "in_e ?i < in_r ?i + INPUT_BUF"
    using assms(2) ring by (simp add: a_room_def ed_simps)
  have "rslice (rput (in_buf ?i) (in_e ?i) ch) (in_r ?i) (Suc (in_e ?i)) =
      rslice (in_buf ?i) (in_r ?i) (in_w ?i) @ rslice (in_buf ?i) (in_w ?i) (in_e ?i) @ [ch]"
    using ring room by (subst rslice_rput_end) (simp_all add: rslice_append flip: append_assoc)
  then have ed: "ed s' = (a_commit ch (ed s))\<lparr>a_undo := take (undo_n u) (undo_buf u)\<rparr>"
    using ring by (simp add: assms(4) ed_def Let_def a_commit_def)
  moreover have "con_inv s'"
    unfolding con_inv_def store_inv_def ed
    using assms(1,5-7) ring room
    by (auto simp: assms(4) ring_inv_def sel_inv_def good_def con_inv_def store_inv_def a_commit_def
        no_nl_def a_has_sel_def ed_simps)
  moreover have "scr_inv s'"
    using assms(1,3) unfolding scr_inv_def ed by (auto simp: assms(4) good_def scr_inv_def a_commit_def)
  moreover have "env_ok s'" using assms(1) by (simp add: assms(4) good_def)
  ultimately show ?thesis by (simp add: good_def)
qed

lemma good_wk:
  assumes "good s"
  shows "wakeup ch s = Inr (wk ch s)" "good (wk ch s)" "ed (wk ch s) = ed s"
proof -
  show ed: "ed (wk ch s) = ed s" by (simp add: ed_def wakeup_frame)
  show "wakeup ch s = Inr (wk ch s)" using assms by (simp add: good_def env_ok_def wakeup_eq)
  have "env_ok (wk ch s)" using assms by (auto simp: good_def env_ok_def)
  then show "good (wk ch s)"
    using assms ed by (simp add: good_def con_inv_def store_inv_def scr_inv_def wakeup_frame)
qed

lemma a_has_sel_desel [simp]: "a_has_sel (a_desel a) = False"
  by (simp add: a_desel_def a_has_sel_def a_clear_def)

lemma good_store:
  assumes "good s"
  shows "length (undo_buf (undo s)) = UNDO_BUF" "undo_n (undo s) \<le> UNDO_BUF"
    "length (clip_buf (clipboard s)) = CLIPBOARD_BUF" "clip_n (clipboard s) \<le> CLIPBOARD_BUF"
    "no_nl (a_line (ed s))" "no_nl (a_clip (ed s))"
  using assms by (simp_all add: good_def con_inv_def store_inv_def)

lemma key_eof_ok:
  assumes "good s" "a_line (ed s) = []" "a_room (ed s)"
  shows "returns (key_eof_or_word_right s) (\<lambda>s'. good s' \<and> ed s' = a_eof_or_word_right (ed s))"
proof -
  define t where "t = deselect_if_any s"
  have t: "good t" "ed t = a_desel (ed s)" using good_desel [OF assms(1)] by (simp_all add: t_def)
  note ring = ring_invD [OF good_ring [OF t(1)]]
  have line: "a_line (ed t) = []" using assms(2) t(2) by simp
  then have e: "in_e (input t) = in_w (input t)" using ring by (auto simp: ed_simps rslice_def)
  from t(1) line obtain p k where "displays (scr t) p [] k" by (auto simp: good_def scr_inv_def)
  then have d: "displays (scr t) p [] 0" by (simp add: displays_def)
  define t' where "t' = t\<lparr>scr := scr t, undo := undo t, input := (input t)\<lparr>
            in_buf := rput (in_buf (input t)) (in_e (input t)) CHR 0x04, in_e := in_e (input t) + 1,
            in_w := in_e (input t) + 1, in_c := in_e (input t) + 1\<rparr>\<rparr>"
  have g: "good t' \<and> ed t' = (a_commit CHR 0x04 (ed t))\<lparr>a_undo := take (undo_n (undo t)) (undo_buf (undo t))\<rparr>"
    using t assms(3) good_store [OF t(1)]
    by (intro good_commit [OF t(1) _ d t'_def]) (simp_all add: a_room_def)
  have "key_eof_or_word_right s = wakeup Chan_input_r t'"
    using e by (simp add: key_eof_or_word_right_def upd_in_def t'_def Let_def flip: t_def)
  moreover have "ed t' = a_eof_or_word_right (ed s)"
    using g line t(2) by (simp add: a_eof_or_word_right_def a_commit_def ed_simps(5) [symmetric])
  ultimately show ?thesis using good_wk [of t' Chan_input_r] g by simp
qed

lemma key_word_right_ok:
  assumes "good s" "a_line (ed s) \<noteq> []"
  shows "returns (key_eof_or_word_right s) (\<lambda>s'. good s' \<and> ed s' = a_eof_or_word_right (ed s))"
proof -
  define t where "t = deselect_if_any s"
  have t: "good t" "ed t = a_desel (ed s)" using good_desel [OF assms(1)] by (simp_all add: t_def)
  have eq: "a_pos (ed t) = a_pos (ed s)" "a_line (ed t) = a_line (ed s)" by (simp_all add: t(2))
  note ring = ring_invD [OF good_ring [OF t(1)]]
  let ?i = "input t"
  define k where "k = in_c ?i + word_skip (rslice (in_buf ?i) (in_c ?i) (in_e ?i))"
  have e: "in_e ?i \<noteq> in_w ?i" using assms(2) eq(2) by (auto simp: ed_simps)
  have k: "spaces_right (in_buf ?i) (in_e ?i) (word_right (in_buf ?i) (in_e ?i) (in_c ?i)) = k"
    using word_skip_eq ring by (simp add: k_def)
  have k0: "k = in_e ?i" if "\<not> in_c ?i < in_e ?i"
    using that ring by (simp add: k_def word_skip_def)
  define k' where "k' = (if k < in_e ?i then k else in_c ?i)"
  have key: "key_eof_or_word_right s = (if k < in_e ?i
      then Inr (t\<lparr>scr := cga_set_cursor_pos (int (cursor (scr t)) + (int k - int (in_c ?i)))
                 ((scr t)\<lparr>crtc_index := 15\<rparr>), input := ?i\<lparr>in_c := k\<rparr>\<rparr>) else Inr t)"
    using good_cga(1) [OF t(1)] e k0
    by (auto simp: key_eof_or_word_right_def get_cursor_eq upd_in_def set_cursor_def upd_scr_def Let_def k
          intro!: console.equality simp flip: t_def)
  have "returns (key_eof_or_word_right s) (\<lambda>s'. good s' \<and> ed s' = (a_desel (ed s))\<lparr>a_pos := k' - in_w ?i\<rparr>)"
    using ring key
    by (intro desel_move [OF assms(1) t_def]) (auto simp: k_def k'_def split: if_splits)
  moreover have "(ed t)\<lparr>a_pos := k' - in_w ?i\<rparr> = a_eof_or_word_right (ed s)"
  proof -
    have "drop (a_pos (ed t)) (a_line (ed t)) = rslice (in_buf ?i) (in_c ?i) (in_e ?i)"
      using ring by (simp add: ed_simps drop_rslice)
    moreover have "(ed t)\<lparr>a_pos := in_c ?i - in_w ?i\<rparr> = ed t" by (simp add: ed_def Let_def)
    ultimately show ?thesis
      using ring assms(2) [folded eq(2)] unfolding a_eof_or_word_right_def t(2) [symmetric] k'_def k_def
      by (auto simp: Let_def ed_simps)
  qed
  ultimately show ?thesis by (simp add: t(2))
qed

end
