(* ===== verification/EditorKeys.thy ===== *)
theory EditorKeys
  imports Editor
begin

text \<open>
  The keys that change the line: insertion, backspace, selection, copy and paste, undo, kill and
  newline, each against its operation of the abstract editor, and the theorem over all keys.
\<close>

section \<open>Editing keys\<close>

text \<open>Drawing \<open>ys\<close> over the line from index \<open>m\<close> on; a full last row scrolls the screen once.\<close>

lemma displays_puts_at:
  assumes "displays d p xs k" "m \<le> length xs" "p + m + length ys < 1920"
    and "cursor d1 = p + m" "\<forall>j. crt d1 j mod 256 = crt d j mod 256" "puts_ok d1 ys d2"
  shows "displays d2 p (take m xs @ ys) (m + length ys)"
proof -
  have "crt d1 (p + j) mod 256 = of_char (xs ! j)" if "j < m" for j
    using assms(1,2,5) that by (simp add: displays_def)
  then have "wrt (crt d1) (p + m) ys (p + j) mod 256 = of_char ((take m xs @ ys) ! j)"
    if "j < m + length ys" for j
    using that assms(2) by (auto simp: wrt_def nth_append cell_byte)
  with assms show ?thesis by (simp add: puts_ok_def displays_def)
qed

lemma displays_puts_scroll:
  assumes "displays d p xs k" "m \<le> length xs" "p + m + length ys = 1920" "m + length ys \<le> 1840"
    and "cursor d1 = p + m" "\<forall>j. crt d1 j mod 256 = crt d j mod 256" "puts_ok d1 ys d2"
  shows "displays d2 (p - 80) (take m xs @ ys) (m + length ys)"
proof -
  have old: "crt d1 (p + j) mod 256 = of_char (xs ! j)" if "j < m" for j
    using assms(1,2,6) that by (simp add: displays_def)
  have "80 \<le> p" using assms(3,4) by simp
  have "crt d2 (p - 80 + j) mod 256 = of_char ((take m xs @ ys) ! j)" if "j < m + length ys" for j
  proof -
    have "p - 80 + j < 23 * 80" "p - 80 + j + 80 = p + j" using assms(3) that \<open>80 \<le> p\<close> by simp_all
    then have "crt d2 (p - 80 + j) = wrt (crt d1) (p + m) ys (p + j)"
      using assms(3,5,7) by (simp add: puts_ok_def scroll_def)
    then show ?thesis using that assms(2) old by (auto simp: wrt_def nth_append cell_byte)
  qed
  moreover have "cga_ok d2" "cursor d2 = 1840" using assms(3,5,7) by (simp_all add: puts_ok_def)
  ultimately show ?thesis
    unfolding displays_def by (intro conjI) (use assms(2,3) \<open>80 \<le> p\<close> in auto)
qed

lemma displays_puts:
  assumes "displays d p xs k" "m \<le> length xs" "p + m + length ys \<le> 1920" "m + length ys \<le> 1840"
    and "cursor d1 = p + m" "\<forall>j. crt d1 j mod 256 = crt d j mod 256" "puts_ok d1 ys d2"
  shows "\<exists>p'. displays d2 p' (take m xs @ ys) (m + length ys)"
  using displays_puts_at [OF assms(1,2) _ assms(5-7)] displays_puts_scroll [OF assms(1,2) _ assms(4-7)]
    assms(3) by (cases "p + m + length ys < 1920") auto

lemma displays_prefix:
  assumes "displays d p (zs @ ws) k" "k' \<le> length zs" "pos = int (p + k')"
  shows "displays (cga_set_cursor_pos pos d) p zs k'"
  using assms by (auto simp: displays_def nth_append)

lemma ed_push_undo:
  assumes "length (undo_buf (undo s)) = UNDO_BUF"
  shows "ed (push_undo t ch pos s) = a_push t ch pos (ed s)"
  using assms by (simp add: push_undo_def ed_def Let_def a_push_def take_Suc_conv_app_nth min_def)

lemma push_undo_fields [simp]:
  "input (push_undo t ch pos s) = input s" "scr (push_undo t ch pos s) = scr s"
  "panicked (push_undo t ch pos s) = panicked s" "clipboard (push_undo t ch pos s) = clipboard s"
  "env_ok (push_undo t ch pos s) = env_ok s"
  by (simp_all add: push_undo_def)

lemma a_push_fields [simp]:
  "a_base (a_push t ch pos a) = a_base a" "a_com (a_push t ch pos a) = a_com a"
  "a_line (a_push t ch pos a) = a_line a" "a_pos (a_push t ch pos a) = a_pos a"
  "a_clip (a_push t ch pos a) = a_clip a" "a_selecting (a_push t ch pos a) = a_selecting a"
  "a_start (a_push t ch pos a) = a_start a" "a_end (a_push t ch pos a) = a_end a"
  by (simp_all add: a_push_def)

lemma good_push_undo:
  assumes "good s"
  shows "good (push_undo t ch pos s)" "ed (push_undo t ch pos s) = a_push t ch pos (ed s)"
proof -
  note st = good_store [OF assms]
  show ed: "ed (push_undo t ch pos s) = a_push t ch pos (ed s)" using st(1) by (rule ed_push_undo)
  have "length (undo_buf (undo (push_undo t ch pos s))) = UNDO_BUF"
    "undo_n (undo (push_undo t ch pos s)) \<le> UNDO_BUF"
    using st by (simp_all add: push_undo_def)
  with assms show "good (push_undo t ch pos s)"
    by (simp add: good_def con_inv_def store_inv_def scr_inv_def ed)
qed

text \<open>Once the text and the screen agree again, the state is good.\<close>

lemma good_edit:
  assumes "good s" "ring_inv i" "sel_inv i"
    and "no_nl (rslice (in_buf i) (in_w i) (in_e i))"
    and "displays d p (rslice (in_buf i) (in_w i) (in_e i)) (in_c i - in_w i)"
  shows "good (s\<lparr>input := i, scr := d\<rparr>)"
  using assms by (auto simp: good_def con_inv_def store_inv_def scr_inv_def ed_simps)

lemma ed_edit:
  assumes "in_w i = in_w (input s)" "selecting i = selecting (input s)"
    "sel_start i = sel_start (input s)" "sel_end i = sel_end (input s)"
    "rslice (in_buf i) (in_r i) (in_w i) = a_com (ed s)"
  shows "ed (s\<lparr>input := i, scr := d\<rparr>) =
    (ed s)\<lparr>a_line := rslice (in_buf i) (in_w i) (in_e i), a_pos := in_c i - in_w i\<rparr>"
  using assms by (simp add: ed_def Let_def)

text \<open>The two buffer updates on the text of the line, the committed text being untouched.\<close>

lemma insert_text:
  assumes "ring_inv i" "in_e i < in_r i + INPUT_BUF"
    and "b = rput (shift_up (in_c i) (in_e i) (in_buf i)) (in_c i) ch"
    and "xs = rslice (in_buf i) (in_w i) (in_e i)" "k = in_c i - in_w i"
  shows "rslice b (in_w i) (Suc (in_e i)) = take k xs @ ch # drop k xs"
    and "rslice b (in_c i) (Suc (in_e i)) = ch # drop k xs"
    and "rslice b (in_r i) (in_w i) = rslice (in_buf i) (in_r i) (in_w i)"
proof -
  note ring = ring_invD [OF assms(1)]
  have all: "rslice b (in_r i) (Suc (in_e i)) =
      rslice (in_buf i) (in_r i) (in_c i) @ ch # rslice (in_buf i) (in_c i) (in_e i)"
    unfolding assms(3) using ring assms(2) by (intro rslice_insert) auto
  have part: "rslice b q (Suc (in_e i)) =
      rslice (in_buf i) q (in_c i) @ ch # rslice (in_buf i) (in_c i) (in_e i)"
    if "in_r i \<le> q" "q \<le> in_c i" for q
    using arg_cong [OF all, of "drop (q - in_r i)"] that by (simp add: drop_rslice)
  show "rslice b (in_w i) (Suc (in_e i)) = take k xs @ ch # drop k xs"
    using part [of "in_w i"] ring by (simp add: assms(4,5) drop_rslice take_rslice)
  show "rslice b (in_c i) (Suc (in_e i)) = ch # drop k xs"
    using part [of "in_c i"] ring by (simp add: assms(4,5) drop_rslice)
  show "rslice b (in_r i) (in_w i) = rslice (in_buf i) (in_r i) (in_w i)"
    using arg_cong [OF all, of "take (in_w i - in_r i)"] ring by (simp add: take_rslice)
qed

lemma remove_text:
  assumes "ring_inv i" "in_w i \<le> lo" "lo < hi" "hi \<le> in_e i" "b = shift_down (hi - lo) hi (in_e i) (in_buf i)"
    and "xs = rslice (in_buf i) (in_w i) (in_e i)"
  shows "rslice b (in_w i) (in_e i - (hi - lo)) = take (lo - in_w i) xs @ drop (hi - in_w i) xs"
    and "rslice b (in_r i) (in_w i) = rslice (in_buf i) (in_r i) (in_w i)"
proof -
  note ring = ring_invD [OF assms(1)]
  have all: "rslice b (in_r i) (in_e i - (hi - lo)) =
      rslice (in_buf i) (in_r i) lo @ rslice (in_buf i) hi (in_e i)"
    using rslice_remove [of "in_buf i" "in_r i" "hi - lo" hi "in_e i"] ring assms(2-4) by (simp add: assms(5))
  show "rslice b (in_w i) (in_e i - (hi - lo)) = take (lo - in_w i) xs @ drop (hi - in_w i) xs"
    using arg_cong [OF all, of "drop (in_w i - in_r i)"] ring assms(2-4)
    by (simp add: drop_rslice take_rslice assms(6))
  show "rslice b (in_r i) (in_w i) = rslice (in_buf i) (in_r i) (in_w i)"
    using arg_cong [OF all, of "take (in_w i - in_r i)"] ring assms(2-4) by (simp add: take_rslice)
qed

lemma insert_char_ok:
  assumes "good s" "a_room (ed s)" "ch \<noteq> CHR 0x0A"
  shows "returns (insert_char ch s) (\<lambda>s'. good s' \<and> ed s' = a_insert ch (ed s))"
proof -
  define t where "t = push_undo OP_INSERT ch (in_c (input s)) s"
  have t: "good t" "ed t = a_push OP_INSERT ch (a_base (ed s) + a_pos (ed s)) (ed s)" "input t = input s"
    using good_push_undo [OF assms(1)] ring_invD(4) [OF good_ring [OF assms(1)]]
    by (simp_all add: t_def ed_simps)
  note ring = ring_invD [OF good_ring [OF t(1)]]
  define i xs k where "i = input t" and "xs = a_line (ed t)" and "k = a_pos (ed t)"
  have room: "in_e i < in_r i + INPUT_BUF"
    using assms(2) ring by (simp add: i_def a_room_def ed_simps t(3))
  define i' where "i' = i\<lparr>in_buf := rput (shift_up (in_c i) (in_e i) (in_buf i)) (in_c i) ch,
    in_e := in_e i + 1, in_c := in_c i + 1\<rparr>"
  have "ring_inv i" "xs = rslice (in_buf i) (in_w i) (in_e i)" "k = in_c i - in_w i"
    using good_ring [OF t(1)] by (simp_all add: i_def xs_def k_def ed_simps)
  note tx = insert_text [OF this(1) room refl this(2,3)]
  obtain p where p: "displays (scr t) p xs k" using t(1) by (auto simp: good_def scr_inv_def xs_def k_def)
  have klen: "k \<le> length xs" using p by (simp add: displays_def)
  have nl: "no_nl (ch # drop k xs)" "no_nl (take k xs @ ch # drop k xs)"
    using good_store(5) [OF t(1)] assms(3)
    by (auto simp: xs_def no_nl_def dest: in_set_takeD in_set_dropD)
  have "p + length xs < 1920" using p by (simp add: displays_def)
  moreover have "length xs < 128" using ring room by (simp add: xs_def i_def ed_simps INPUT_BUF_def)
  ultimately have bounds: "p + k + length (ch # drop k xs) \<le> 1920" "k + length (ch # drop k xs) \<le> 1840"
    using klen by simp_all
  have cur: "cga_ok (scr t)" "cursor (scr t) = p + k" using p by (simp_all add: displays_def)
  obtain d where d: "putstr (ch # drop k xs) (t\<lparr>input := i'\<rparr>) = Inr (t\<lparr>input := i', scr := d\<rparr>)"
    "puts_ok (scr t) (ch # drop k xs) d"
    using putstr_returns [of "t\<lparr>input := i'\<rparr>" "ch # drop k xs"] good_cga(2) [OF t(1)] cur nl bounds by auto
  obtain p' where p': "displays d p' (take k xs @ ch # drop k xs) (k + length (ch # drop k xs))"
    using displays_puts [OF p klen bounds cur(2) _ d(2)] by auto
  define d' where "d' = cga_set_cursor_pos (int (p' + (k + 1))) (d\<lparr>crtc_index := 15\<rparr>)"
  have d': "displays d' p' (take k xs @ ch # drop k xs) (k + 1)"
    unfolding d'_def using displays_same [OF same_text_index p'] displaysD(1) [OF p'] klen
    by (intro displays_set) simp_all
  have "int (cursor d) - (int (in_e i') - int (in_c i')) = int (p' + (k + 1))"
    using p' ring klen by (simp add: displays_def i'_def i_def k_def xs_def ed_simps of_nat_diff)
  then have "insert_char ch s = Inr (t\<lparr>input := i', scr := d'\<rparr>)"
    using d(1) displaysD(1) [OF p'] tx(2)
    by (simp add: insert_char_def upd_in_def i'_def i_def get_cursor_eq set_cursor_def upd_scr_def d'_def
        t(3) flip: t_def)
  moreover have "ed (t\<lparr>input := i', scr := d'\<rparr>) = (ed t)\<lparr>a_line := take k xs @ ch # drop k xs, a_pos := k + 1\<rparr>"
    using tx ring by (subst ed_edit) (simp_all add: i'_def i_def k_def ed_simps Suc_diff_le)
  then have "ed (t\<lparr>input := i', scr := d'\<rparr>) = a_insert ch (ed s)"
    by (simp add: t(2) a_insert_def xs_def k_def)
  moreover have "good (t\<lparr>input := i', scr := d'\<rparr>)"
  proof (rule good_edit [OF t(1), where p = p'])
    show "ring_inv i'" "sel_inv i'"
      using ring room t(1) by (auto simp: i'_def i_def ring_inv_def sel_inv_def good_def con_inv_def)
  qed (use tx nl d' ring in \<open>simp_all add: i'_def i_def k_def ed_simps Suc_diff_le\<close>)
  ultimately show ?thesis by simp
qed

text \<open>
  Removing the characters from counter \<open>lo\<close> to \<open>hi\<close>: the rest of the line is drawn again from some
  index \<open>m\<close> left of them, then blanks over what it no longer covers, then the cursor is set.
\<close>

lemma remove_draw:
  assumes "displays d p xs k" "i < j" "j \<le> length xs" "m \<le> i" "no_nl xs"
    and zs: "zs = take i xs @ drop j xs" and d1: "cga_ok d1" "cursor d1 = p + m"
      "\<forall>n. crt d1 n mod 256 = crt d n mod 256"
  obtains d2 where
    "for_each (drop m zs @ replicate (j - i) CHR '' '') (\<lambda>c. scr_putc (schar c)) d1 = Inr d2"
    "displays d2 p (zs @ replicate (j - i) CHR '' '') (length xs)"
proof -
  define ys where "ys = drop m zs @ replicate (j - i) CHR '' ''"
  have len: "length ys = length xs - m" using assms(2-4) by (simp add: ys_def zs)
  have nl: "no_nl ys"
    using assms(5) by (auto simp: ys_def zs no_nl_def dest: in_set_takeD in_set_dropD)
  have px: "p + length xs < 1920" using assms(1) by (simp add: displays_def)
  then obtain d2 where d2: "for_each ys (\<lambda>c. scr_putc (schar c)) d1 = Inr d2" "puts_ok d1 ys d2"
    using puts_returns [OF d1(1) nl] d1(2) len assms(2-4) by (auto elim!: returnsE)
  have "displays d2 p (take m xs @ ys) (m + length ys)"
    using displays_puts_at [OF assms(1) _ _ d1(2,3) d2(2)] px len assms(2-4) by simp
  moreover have "take m xs @ ys = zs @ replicate (j - i) CHR '' ''"
  proof -
    have "take m xs = take m zs" using assms(2-4) by (simp add: zs)
    then show ?thesis by (simp add: ys_def)
  qed
  moreover have "m + length ys = length xs" using len assms(2-4) by simp
  ultimately show thesis using that [of d2] d2(1) unfolding ys_def by metis
qed

lemma remove_good:
  assumes "good t" "in_w (input t) \<le> lo" "lo < hi" "hi \<le> in_e (input t)"
    and i': "i' = (input t)\<lparr>in_buf := shift_down (hi - lo) hi (in_e (input t)) (in_buf (input t)),
        in_e := in_e (input t) - (hi - lo), in_c := lo\<rparr>"
    and zs: "zs = take (lo - in_w (input t)) (a_line (ed t)) @ drop (hi - in_w (input t)) (a_line (ed t))"
    and "displays d p zs (lo - in_w (input t))" "sel_inv i'"
  shows "good (t\<lparr>input := i', scr := d\<rparr>)"
    and "ed (t\<lparr>input := i', scr := d\<rparr>) = (ed t)\<lparr>a_line := zs, a_pos := lo - in_w (input t)\<rparr>"
proof -
  note ring = ring_invD [OF good_ring [OF assms(1)]]
  note tx = remove_text [OF good_ring [OF assms(1)] assms(2-4) refl refl]
  have "no_nl zs"
    using good_store(5) [OF assms(1)] by (auto simp: zs no_nl_def dest: in_set_takeD in_set_dropD)
  moreover have "ring_inv i'" using ring assms(2-4) by (auto simp: i' ring_inv_def)
  moreover have line: "rslice (in_buf i') (in_w i') (in_e i') = zs" using tx by (simp add: i' zs ed_simps)
  ultimately show "good (t\<lparr>input := i', scr := d\<rparr>)"
    using assms(7,8) by (intro good_edit [OF assms(1), where p = p]) (simp_all add: i')
  show "ed (t\<lparr>input := i', scr := d\<rparr>) = (ed t)\<lparr>a_line := zs, a_pos := lo - in_w (input t)\<rparr>"
    using line tx by (subst ed_edit) (simp_all add: i' ed_simps)
qed

lemma putstr_append: "putstr (xs @ ys) s = bindr (putstr xs s) (putstr ys)"
  by (simp add: putstr_def)

lemma consputc_space: "consputc 32 = putstr [CHR '' '']"
  by (simp add: putstr_def schar_def fun_eq_iff bindr_def split: sum.split)

lemma key_backspace_char:
  assumes "good s" "\<not> has_selection s" "in_c (input s) > in_w (input s)"
  shows "returns (key_backspace s) (\<lambda>s'. good s' \<and> ed s' = a_backspace (ed s))"
proof -
  define t where "t = push_undo OP_DELETE (rget (in_buf (input s)) (in_c (input s) - Suc 0))
    (in_c (input s) - Suc 0) s"
  note ring0 = ring_invD [OF good_ring [OF assms(1)]]
  have t: "good t" "ed t = a_push OP_DELETE (a_line (ed s) ! (a_pos (ed s) - 1))
      (a_base (ed s) + a_pos (ed s) - 1) (ed s)" "input t = input s"
    using good_push_undo [OF assms(1)] ring0 assms(3) by (simp_all add: t_def ed_simps)
  note ring = ring_invD [OF good_ring [OF t(1)]]
  define i xs k where "i = input t" and "xs = a_line (ed t)" and "k = a_pos (ed t)"
  have k: "k = in_c i - in_w i" "0 < k" "k \<le> length xs"
    using assms(3) t(3) ring by (auto simp: i_def k_def xs_def ed_simps)
  obtain p where p: "displays (scr t) p xs k" using t(1) by (auto simp: good_def scr_inv_def xs_def k_def)
  define zs where "zs = take (k - 1) xs @ drop k xs"
  define d1 where "d1 = cga_set_cursor_pos (int p) ((scr t)\<lparr>crtc_index := 15\<rparr>)"
  have d1: "cga_ok d1" "cursor d1 = p + 0" "\<forall>n. crt d1 n mod 256 = crt (scr t) n mod 256"
    using p by (simp_all add: d1_def displays_def)
  obtain d2 where d2:
    "for_each (drop 0 zs @ replicate (k - (k - 1)) CHR '' '') (\<lambda>c. scr_putc (schar c)) d1 = Inr d2"
    "displays d2 p (zs @ replicate (k - (k - 1)) CHR '' '') (length xs)"
    using good_store(5) [OF t(1)] k(2,3)
    by (elim remove_draw [OF p _ k(3) _ _ zs_def d1, rotated -1]) (auto simp: xs_def)
  define i' where "i' = i\<lparr>in_buf := shift_down 1 (in_c i) (in_e i) (in_buf i),
    in_c := in_c i - 1, in_e := in_e i - 1\<rparr>"
  have i': "i' = (input t)\<lparr>
      in_buf := shift_down (in_c i - (in_c i - 1)) (in_c i) (in_e (input t)) (in_buf (input t)),
      in_e := in_e (input t) - (in_c i - (in_c i - 1)), in_c := in_c i - 1\<rparr>"
    using k by (auto simp: i'_def i_def intro!: input.equality)
  define d3 where "d3 = cga_set_cursor_pos (int (p + (k - 1))) d2"
  have d3: "displays d3 p zs (in_c i - 1 - in_w i)"
    unfolding d3_def using k by (intro displays_prefix [OF d2(2)]) (auto simp: zs_def)
  have "sel_inv i'"
    using t assms(2) by (auto simp: i'_def i_def sel_inv_def good_def con_inv_def has_selection_def)
  then have res: "good (t\<lparr>input := i', scr := d3\<rparr>)"
    "ed (t\<lparr>input := i', scr := d3\<rparr>) = (ed t)\<lparr>a_line := zs, a_pos := in_c i - 1 - in_w i\<rparr>"
    using remove_good [OF t(1) _ _ _ i' [unfolded i_def] _ d3 [unfolded i_def]] assms(3) t(3) ring k
    by (auto simp: i_def zs_def xs_def)
  have line: "rslice (in_buf i') (in_w i') (in_e i') = zs"
    using arg_cong [OF res(2), of a_line] by (simp add: ed_simps)
  have "key_backspace s = bindr (putstr (rslice (in_buf i') (in_w i') (in_e i') @ '' '') (t\<lparr>input := i', scr := d1\<rparr>))
      (\<lambda>s. Inr (set_cursor (int p + (int (in_c (input s)) - int (in_w i))) s))"
    using assms(2,3) k p displaysD(1) [OF p]
    by (simp add: key_backspace_def upd_in_def get_cursor_eq set_cursor_def upd_scr_def putstr_append
        consputc_space bindr_assoc Let_def displays_def i'_def i_def d1_def t(3) of_nat_diff flip: t_def)
  also have "\<dots> = Inr (t\<lparr>input := i', scr := d3\<rparr>)"
    using d2(1) good_cga(2) [OF t(1)] k unfolding line
    by (simp add: putstr_eq set_cursor_def upd_scr_def d3_def i'_def of_nat_diff algebra_simps)
  finally show ?thesis
    using res assms(2) k t(2) by (simp add: a_backspace_def has_selection_ed zs_def xs_def k_def)
qed

lemma no_sel_inv:
  "good t \<Longrightarrow> \<not> a_has_sel (ed t) \<Longrightarrow> sel_start i = sel_start (input t) \<Longrightarrow> sel_end i = sel_end (input t) \<Longrightarrow>
     selecting i = selecting (input t) \<Longrightarrow> sel_inv i"
  by (auto simp: sel_inv_def good_def con_inv_def a_has_sel_def ed_simps)

lemma undo_insert_ok:
  assumes "good t" "\<not> a_has_sel (ed t)" "in_w (input t) \<le> pos" "pos < in_e (input t)"
  shows "returns (undo_insert pos t) (\<lambda>s'. good s' \<and> ed s' =
    (ed t)\<lparr>a_line := take (pos - in_w (input t)) (a_line (ed t)) @ drop (pos + 1 - in_w (input t)) (a_line (ed t)),
           a_pos := pos - in_w (input t)\<rparr>)"
proof -
  note ring = ring_invD [OF good_ring [OF assms(1)]]
  define i xs k m where "i = input t" and "xs = a_line (ed t)" and "k = a_pos (ed t)" and "m = pos - in_w i"
  have m: "m < m + 1" "m + 1 \<le> length xs" "m \<le> m" and m1: "pos + 1 - in_w (input t) = m + 1"
    using assms(3,4) by (auto simp: m_def i_def xs_def ed_simps)
  obtain p where p: "displays (scr t) p xs k" using assms(1) by (auto simp: good_def scr_inv_def xs_def k_def)
  have pk: "int p + int k - (int (in_c (input t)) - int pos) = int p + int m"
    using ring assms(3) by (simp add: k_def m_def i_def ed_simps of_nat_diff)
  define zs where "zs = take m xs @ drop (m + 1) xs"
  define d1 where "d1 = cga_set_cursor_pos (int (p + m)) ((scr t)\<lparr>crtc_index := 15\<rparr>)"
  have d1: "cga_ok d1" "cursor d1 = p + m" "\<forall>n. crt d1 n mod 256 = crt (scr t) n mod 256"
    using p m(2) by (simp_all add: d1_def displays_def)
  obtain d2 where d2:
    "for_each (drop m zs @ replicate (m + 1 - m) CHR '' '') (\<lambda>c. scr_putc (schar c)) d1 = Inr d2"
    "displays d2 p (zs @ replicate (m + 1 - m) CHR '' '') (length xs)"
    using good_store(5) [OF assms(1)] by (elim remove_draw [OF p m _ zs_def d1, rotated -1]) (simp add: xs_def)
  define i' where "i' = i\<lparr>in_buf := shift_down 1 (pos + 1) (in_e i) (in_buf i), in_e := in_e i - 1\<rparr>"
  define d3 where "d3 = cga_set_cursor_pos (int (p + m)) (d2\<lparr>crtc_index := 15\<rparr>)"
  have d3: "displays d3 p zs m"
    unfolding d3_def using m displays_same [OF same_text_index d2(2)] displaysD(1) [OF d2(2)]
    by (intro displays_prefix) (auto simp: zs_def)
  have res: "good (t\<lparr>input := i'\<lparr>in_c := pos\<rparr>, scr := d3\<rparr>)"
    "ed (t\<lparr>input := i'\<lparr>in_c := pos\<rparr>, scr := d3\<rparr>) = (ed t)\<lparr>a_line := zs, a_pos := pos - in_w (input t)\<rparr>"
    using assms(3,4) d3 m1 no_sel_inv [OF assms(1,2)]
    by (intro remove_good [OF assms(1), of pos "pos + 1" _ zs d3 p];
        simp add: i'_def i_def zs_def xs_def m_def)+
  have "rslice (in_buf i') (in_w i') (in_e i') = zs"
    using arg_cong [OF res(2), of a_line] by (simp add: ed_simps)
  from arg_cong [OF this, of "drop m"] have line: "rslice (in_buf i') pos (in_e i') = drop m zs"
    using assms(3) by (simp add: drop_rslice m_def i'_def i_def)
  have pos: "int (cursor d2) - (int (in_e i') - int pos + 1) = int (p + m)"
    using d2(2) assms(3,4) by (simp add: displays_def i'_def i_def xs_def m_def ed_simps of_nat_diff)
  have "undo_insert pos t = bindr (putstr (drop m zs @ '' '') (t\<lparr>input := i', scr := d1\<rparr>)) (\<lambda>s.
       let (p, s) = get_cursor s; s = set_cursor (p - (int (in_e (input s)) - int pos + 1)) s
       in Inr (upd_in (\<lambda>i. i\<lparr>in_c := pos\<rparr>) s))"
    using displaysD [OF p]
    by (simp add: undo_insert_def pk upd_in_def get_cursor_eq set_cursor_def upd_scr_def putstr_append
        consputc_space bindr_assoc Let_def i'_def i_def d1_def flip: line)
  also have "\<dots> = Inr (t\<lparr>input := i'\<lparr>in_c := pos\<rparr>, scr := d3\<rparr>)"
    using d2(1) good_cga(2) [OF assms(1)] pos displaysD(1) [OF d2(2)]
    by (auto simp: putstr_eq get_cursor_eq set_cursor_def upd_scr_def upd_in_def d3_def
        intro!: console.equality)
  finally show ?thesis using res assms(3) by (simp add: zs_def xs_def m_def i_def Suc_diff_le)
qed

lemma key_undo_ok:
  assumes "good s"
  shows "returns (key_undo s) (\<lambda>s'. good s' \<and> ed s' = a_undo_key (ed s))"
proof -
  define t0 where "t0 = deselect_if_any s"
  have t0: "good t0" "ed t0 = a_desel (ed s)" using good_desel [OF assms] by (simp_all add: t0_def)
  note st = good_store [OF t0(1)]
  show ?thesis
  proof (cases "undo_n (undo t0) = 0")
    case True
    then have "a_undo (ed t0) = []" by (simp add: ed_simps)
    with True t0 show ?thesis by (simp add: key_undo_def a_undo_key_def flip: t0_def)
  next
    case False
    define n where "n = undo_n (undo t0) - 1"
    define x where "x = undo_buf (undo t0) ! n"
    have ux: "a_undo (ed t0) = take n (undo_buf (undo t0)) @ [x]"
      using False st by (simp add: ed_simps n_def x_def flip: take_Suc_conv_app_nth)
    define t where "t = t0\<lparr>undo := (undo t0)\<lparr>undo_n := n\<rparr>\<rparr>"
    have edt: "ed t = (ed t0)\<lparr>a_undo := butlast (a_undo (ed t0))\<rparr>"
      using st by (simp add: ux) (simp add: ed_def Let_def t_def)
    have t: "good t"
      using t0(1) st(2) edt by (auto simp: good_def con_inv_def store_inv_def scr_inv_def t_def n_def)
    have spec: "a_undo_key (ed s) = (if op_type x = OP_INSERT \<and> a_base (ed t) \<le> op_pos x \<and>
        op_pos x - a_base (ed t) < length (a_line (ed t))
        then (ed t)\<lparr>a_line := take (op_pos x - a_base (ed t)) (a_line (ed t)) @
               drop (op_pos x - a_base (ed t) + 1) (a_line (ed t)), a_pos := op_pos x - a_base (ed t)\<rparr>
        else ed t)"
      unfolding edt a_undo_key_def t0(2) [symmetric] by (simp add: ux Let_def)
    show ?thesis
    proof (cases "op_type x = OP_INSERT \<and> in_w (input t) \<le> op_pos x \<and> op_pos x < in_e (input t)")
      case False': False
      then have "key_undo s = Inr t"
        using False unfolding key_undo_def t0_def [symmetric] Let_def
        by (auto simp: t_def n_def x_def)
      moreover have "ed t = a_undo_key (ed s)"
        using False' unfolding spec by (auto simp: ed_simps)
      ultimately show ?thesis using t by simp
    next
      case True
      then have ins: "in_w (input t) \<le> op_pos x" "op_pos x < in_e (input t)" by simp_all
      have "\<not> a_has_sel (ed t)" unfolding edt t0(2) by (simp add: a_has_sel_def a_desel_def a_clear_def)
      have "key_undo s = undo_insert (op_pos x) t"
        using False True unfolding key_undo_def t0_def [symmetric] Let_def
        by (simp add: undo_insert_def t_def n_def x_def Let_def)
      moreover have "a_undo_key (ed s) = (ed t)\<lparr>a_line := take (op_pos x - in_w (input t)) (a_line (ed t)) @
          drop (op_pos x + 1 - in_w (input t)) (a_line (ed t)), a_pos := op_pos x - in_w (input t)\<rparr>"
        using True unfolding spec by (auto simp: ed_simps Suc_diff_le diff_less_mono)
      ultimately show ?thesis
        using undo_insert_ok [OF t \<open>\<not> a_has_sel (ed t)\<close> ins] by simp
    qed
  qed
qed

text \<open>The selection in line coordinates.\<close>

lemma sel_range_eq:
  assumes "good s" "has_selection s" "sel_range (input s) = (lo, hi)" "a_range (ed s) = (i, j)"
  shows "lo = int (in_w (input s) + i)" "hi = int (in_w (input s) + j)" "i \<le> j"
    "j \<le> length (a_line (ed s))" "min (sel_start (input s)) (sel_end (input s)) \<le> int (in_w (input s) + i)"
proof -
  have inv: "sel_inv (input s)" "ring_inv (input s)" using assms(1) by (simp_all add: good_def con_inv_def)
  note ring = ring_invD [OF inv(2)]
  have sel: "0 \<le> sel_start (input s)" "0 \<le> sel_end (input s)"
    "min (sel_start (input s)) (sel_end (input s)) \<le> int (in_e (input s))"
    "int (in_w (input s)) \<le> max (sel_start (input s)) (sel_end (input s))"
    using inv(1) assms(2) by (auto simp: sel_inv_def has_selection_def)
  have lohi: "lo = max (min (sel_start (input s)) (sel_end (input s))) (int (in_w (input s)))"
    "hi = min (max (sel_start (input s)) (sel_end (input s))) (int (in_e (input s)))"
    using assms(3) by (auto simp: sel_range_def Let_def min_def max_def split: if_splits)
  have ij: "i = nat (min (sel_start (input s)) (sel_end (input s))) - in_w (input s)"
    "j = min (nat (max (sel_start (input s)) (sel_end (input s))) - in_w (input s))
           (in_e (input s) - in_w (input s))"
    using assms(4) by (auto simp: a_range_def ed_simps)
  show "lo = int (in_w (input s) + i)" using sel by (simp add: lohi ij)
  show "hi = int (in_w (input s) + j)" using sel ring unfolding lohi ij by linarith
  show "i \<le> j" using sel ring unfolding ij by linarith
  show "j \<le> length (a_line (ed s))" by (simp add: ij ed_simps)
  show "min (sel_start (input s)) (sel_end (input s)) \<le> int (in_w (input s) + i)"
    using sel unfolding ij by linarith
qed

lemma good_push_deleted:
  assumes "good s" "lo + n \<le> length (a_line (ed s))"
  shows "good (push_deleted (in_w (input s) + lo) n s) \<and>
    ed (push_deleted (in_w (input s) + lo) n s) =
      fold (\<lambda>k. a_push OP_DELETE (a_line (ed s) ! (lo + k)) (a_base (ed s) + lo + k)) [0..<n] (ed s) \<and>
    input (push_deleted (in_w (input s) + lo) n s) = input s \<and>
    scr (push_deleted (in_w (input s) + lo) n s) = scr s"
  using assms(2)
proof (induction n)
  case 0
  then show ?case using assms by (simp add: push_deleted_def)
next
  case (Suc n)
  let ?t = "push_deleted (in_w (input s) + lo) n s"
  have IH: "good ?t" "input ?t = input s" "scr ?t = scr s"
    "ed ?t = fold (\<lambda>k. a_push OP_DELETE (a_line (ed s) ! (lo + k)) (a_base (ed s) + lo + k)) [0..<n] (ed s)"
    using Suc by simp_all
  have "push_deleted (in_w (input s) + lo) (Suc n) s =
      push_undo OP_DELETE (a_line (ed s) ! (lo + n)) (a_base (ed s) + lo + n) ?t"
    using Suc.prems IH(2) by (simp add: push_deleted_def ed_simps add.assoc)
  then show ?case using good_push_undo [OF IH(1)] IH by simp
qed

lemma a_push_fold [simp]:
  "a_line (fold (\<lambda>k. a_push ot (f k) (g k)) ks a) = a_line a"
  "a_pos (fold (\<lambda>k. a_push ot (f k) (g k)) ks a) = a_pos a"
  "a_com (fold (\<lambda>k. a_push ot (f k) (g k)) ks a) = a_com a"
  "a_clip (fold (\<lambda>k. a_push ot (f k) (g k)) ks a) = a_clip a"
  by (induction ks arbitrary: a) simp_all

lemma delete_range_ok:
  assumes "good t" "in_w (input t) \<le> lo" "lo < hi" "hi \<le> in_e (input t)"
    and "sel_inv ((input t)\<lparr>in_e := in_e (input t) - (hi - lo)\<rparr>)"
  shows "returns (delete_range lo hi t) (\<lambda>s'. good s' \<and> ed s' =
    a_clear ((ed t)\<lparr>a_line := take (lo - in_w (input t)) (a_line (ed t)) @ drop (hi - in_w (input t)) (a_line (ed t)),
           a_pos := lo - in_w (input t)\<rparr>))"
proof -
  note ring = ring_invD [OF good_ring [OF assms(1)]]
  define w xs k i j where "w = in_w (input t)" and "xs = a_line (ed t)" and "k = a_pos (ed t)"
    and "i = lo - w" and "j = hi - w"
  have ij: "i < j" "j \<le> length xs" "0 \<le> i" and ji: "j - i = hi - lo"
    using assms(2-4) by (auto simp: i_def j_def w_def xs_def ed_simps)
  obtain p where p: "displays (scr t) p xs k" using assms(1) by (auto simp: good_def scr_inv_def xs_def k_def)
  have pk: "int (cursor (scr t)) - (int (in_c (input t)) - int w) = int p" and p0: "p < 1920"
    using ring displaysD(2) [OF p] p by (auto simp: k_def w_def ed_simps of_nat_diff displays_def)
  define zs where "zs = take i xs @ drop j xs"
  define d1 where "d1 = cga_set_cursor_pos (int p) ((scr t)\<lparr>crtc_index := 15\<rparr>)"
  have d1: "cga_ok d1" "cursor d1 = p + 0" "\<forall>n. crt d1 n mod 256 = crt (scr t) n mod 256"
    using p0 by (simp_all add: d1_def)
  obtain d2 where d2:
    "for_each (drop 0 zs @ replicate (j - i) CHR '' '') (\<lambda>c. scr_putc (schar c)) d1 = Inr d2"
    "displays d2 p (zs @ replicate (j - i) CHR '' '') (length xs)"
    using good_store(5) [OF assms(1)] by (elim remove_draw [OF p ij _ zs_def d1, rotated -1]) (simp add: xs_def)
  define i' where "i' = (input t)\<lparr>in_buf := shift_down (hi - lo) hi (in_e (input t)) (in_buf (input t)),
    in_e := in_e (input t) - (hi - lo), in_c := lo\<rparr>"
  define d3 where "d3 = cga_set_cursor_pos (int (p + i)) d2"
  have d3': "displays d3 p zs (lo - in_w (input t))"
    unfolding d3_def using ij by (intro displays_prefix [OF d2(2)]) (auto simp: zs_def i_def w_def)
  have d3: "d3 = cga_set_cursor_pos (int p + (int lo - int (in_w (input t)))) d2"
    using assms(2) by (simp add: d3_def i_def w_def of_nat_diff algebra_simps)
  have "sel_inv i'" using assms(5) by (simp add: sel_inv_def i'_def)
  note res = remove_good [OF assms(1-4) i'_def _ d3' this]
  have res: "good (t\<lparr>input := i', scr := d3\<rparr>)" "ed (t\<lparr>input := i', scr := d3\<rparr>) = (ed t)\<lparr>a_line := zs, a_pos := i\<rparr>"
    using res by (simp_all add: zs_def xs_def i_def j_def w_def)
  have line: "rslice (in_buf i') w (in_e i') = zs"
    using arg_cong [OF res(2), of a_line] by (simp add: ed_simps i'_def w_def)
  obtain dm where dm: "for_each zs (\<lambda>c. scr_putc (schar c)) d1 = Inr dm"
      "for_each (replicate (hi - lo) CHR '' '') (\<lambda>c. scr_putc (schar c)) dm = Inr d2"
    using d2(1) by (auto simp: bindr_eq_Inr ji)
  have left: "in_e (input t) - in_e i' = hi - lo" using assms(3,4) by (simp add: i'_def)
  have "putstr zs (t\<lparr>input := i', scr := d1\<rparr>) = Inr (t\<lparr>input := i', scr := dm\<rparr>)"
    "putstr (replicate (hi - lo) CHR '' '') (t\<lparr>input := i', scr := dm\<rparr>) = Inr (t\<lparr>input := i', scr := d2\<rparr>)"
    using dm good_cga(2) [OF assms(1)] by (simp_all add: putstr_eq)
  then have "delete_range lo hi t = Inr (clear_selection (t\<lparr>input := i', scr := d3\<rparr>))"
    using displaysD(1) [OF p] pk p0 line left
    by (simp add: delete_range_def upd_in_def get_cursor_eq set_cursor_def upd_scr_def
        Let_def d1_def d3 i'_def w_def)
  then show ?thesis using good_clear [OF res(1)] res(2) by (simp add: zs_def xs_def i_def j_def w_def)
qed

lemma delete_selection_ok:
  assumes "good s" "has_selection s"
  shows "returns (delete_selection s) (\<lambda>s'. good s' \<and> ed s' = a_delete_sel (ed s))"
proof -
  obtain lo hi where sel: "sel_range (input s) = (lo, hi)" by fastforce
  obtain i j where rng: "a_range (ed s) = (i, j)" by fastforce
  note r = sel_range_eq [OF assms sel rng]
  show ?thesis
  proof (cases "i < j")
    case False
    then show ?thesis
      using assms r sel rng good_clear [OF assms(1)] by (simp add: delete_selection_def a_delete_sel_def)
  next
    case True
    define t where "t = push_deleted (in_w (input s) + i) (j - i) s"
    have t: "good t" "input t = input s" "ed t = fold (\<lambda>k. a_push OP_DELETE (a_line (ed s) ! (i + k))
          (a_base (ed s) + i + k)) [0..<j - i] (ed s)"
      using good_push_deleted [OF assms(1), of i "j - i"] r True by (simp_all add: t_def)
    have xs: "a_line (ed t) = a_line (ed s)" by (simp add: t(3))
    define q where "q = in_w (input t)"
    have bnd: "q \<le> q + i" "q + i < q + j" "q + j \<le> in_e (input t)"
      using True r(4) ring_invD [OF good_ring [OF assms(1)]] by (auto simp: q_def t(2) ed_simps)
    have "returns (delete_range (q + i) (q + j) t) (\<lambda>s'. good s' \<and>
        ed s' = a_clear ((ed t)\<lparr>a_line := take i (a_line (ed t)) @ drop j (a_line (ed t)), a_pos := i\<rparr>))"
    proof -
      have "sel_inv ((input t)\<lparr>in_e := in_e (input t) - (j - i)\<rparr>)"
        using assms(1) r(5) bnd(2,3) by (auto simp: good_def con_inv_def sel_inv_def t(2) q_def)
      then show ?thesis using delete_range_ok [OF t(1) bnd [unfolded q_def]] by (simp add: q_def)
    qed
    moreover have "delete_selection s = delete_range (q + i) (q + j) t"
    proof -
      have "nat (int j - int i) = j - i" by simp
      then show ?thesis
        using assms(2) sel r(1,2) True t(2)
        by (simp add: delete_selection_def t_def q_def nat_add_distrib)
    qed
    ultimately show ?thesis
      using rng True unfolding a_delete_sel_def by (simp add: t(3) [symmetric] xs Let_def)
  qed
qed

text \<open>Backspace with a selection, at the start of the line, and over a character.\<close>

lemma key_backspace_ok:
  assumes "good s"
  shows "returns (key_backspace s) (\<lambda>s'. good s' \<and> ed s' = a_backspace (ed s))"
proof (cases "has_selection s")
  case True
  then show ?thesis
    using delete_selection_ok [OF assms] by (simp add: key_backspace_def a_backspace_def has_selection_ed)
next
  case False
  show ?thesis
  proof (cases "in_c (input s) > in_w (input s)")
    case True
    then show ?thesis using key_backspace_char [OF assms False] by simp
  next
    case False': False
    then show ?thesis
      using False assms by (simp add: key_backspace_def a_backspace_def has_selection_ed ed_simps(1))
  qed
qed

text \<open>Killing the line: the cursor goes to its end, then one backspace for each character.\<close>

lemma scr_putc_backspace:
  assumes "cga_ok d" "0 < cursor d" "cursor d \<le> 1920"
  shows "returns (scr_putc BACKSPACE d) (\<lambda>d'. cga_ok d' \<and> cursor d' = cursor d - 1)"
  using cgaputc_backspace [of "uartputc 8 (uartputc 32 (uartputc 8 d))"] assms
  by (auto simp: scr_putc_def elim!: returns_mono)

lemma erase_loop_ok:
  assumes "\<not> panicked s" "cga_ok (scr s)" "n \<le> cursor (scr s)" "cursor (scr s) \<le> 1920"
  shows "\<exists>d. erase_loop n s = Inr (s\<lparr>input := (input s)\<lparr>in_e := in_e (input s) - n, in_c := in_c (input s) - n\<rparr>,
      scr := d\<rparr>) \<and> cga_ok d \<and> cursor d = cursor (scr s) - n"
  using assms
proof (induction n arbitrary: s)
  case 0
  then show ?case by (intro exI [of _ "scr s"]) simp
next
  case (Suc n)
  from scr_putc_backspace [of "scr s"] Suc.prems obtain d where d: "scr_putc BACKSPACE (scr s) = Inr d"
    "cga_ok d" "cursor d = cursor (scr s) - 1" by (auto elim: returnsE)
  let ?s = "s\<lparr>input := (input s)\<lparr>in_e := in_e (input s) - 1, in_c := in_c (input s) - 1\<rparr>, scr := d\<rparr>"
  have "erase_loop (Suc n) s = erase_loop n ?s"
    using d(1) Suc.prems(1) by (simp add: upd_in_def consputc_def)
  moreover have pr: "n \<le> cursor d" "cursor d \<le> 1920" using Suc.prems(3,4) d(3) by simp_all
  obtain d' where "erase_loop n ?s = Inr (?s\<lparr>input := (input ?s)\<lparr>in_e := in_e (input ?s) - n,
      in_c := in_c (input ?s) - n\<rparr>, scr := d'\<rparr>)" "cga_ok d'" "cursor d' = cursor (scr ?s) - n"
    using Suc.IH [of ?s] Suc.prems(1) d(2) pr by auto
  ultimately show ?case using d(3) by auto
qed

lemma erase_line_ok:
  assumes "good s"
  obtains d p where "erase_line s = Inr (s\<lparr>input := (input s)\<lparr>in_e := in_w (input s), in_c := in_w (input s)\<rparr>,
      scr := d\<rparr>)" "displays d p [] 0"
proof -
  note ring = ring_invD [OF good_ring [OF assms]]
  obtain p where p: "displays (scr s) p (a_line (ed s)) (a_pos (ed s))"
    using assms by (auto simp: good_def scr_inv_def)
  let ?n = "in_e (input s) - in_w (input s)"
  have pos: "int (cursor (scr s)) + (int (in_e (input s)) - int (in_c (input s))) = int (p + ?n)"
    using ring displaysD(2) [OF p] by (simp add: ed_simps of_nat_diff)
  have pn: "p + ?n < 1920" using p by (simp add: displays_def ed_simps)
  define u where "u = s\<lparr>scr := cga_set_cursor_pos (int (p + ?n)) ((scr s)\<lparr>crtc_index := 15\<rparr>),
    input := (input s)\<lparr>in_c := in_e (input s)\<rparr>\<rparr>"
  have u: "\<not> panicked u" "cga_ok (scr u)" "cursor (scr u) = p + ?n"
    using good_cga [OF assms] pn by (simp_all add: u_def)
  obtain d where d: "erase_loop ?n u = Inr (u\<lparr>input := (input u)\<lparr>in_e := in_e (input u) - ?n,
      in_c := in_c (input u) - ?n\<rparr>, scr := d\<rparr>)" "cga_ok d" "cursor d = p"
    using erase_loop_ok [of u ?n] u pn by auto
  have "erase_line s = erase_loop ?n u"
    using good_cga(1) [OF assms] pos
    by (simp add: erase_line_def get_cursor_eq set_cursor_def upd_scr_def upd_in_def u_def)
  also have "\<dots> = Inr (s\<lparr>input := (input s)\<lparr>in_e := in_w (input s), in_c := in_w (input s)\<rparr>, scr := d\<rparr>)"
    unfolding d(1) using ring by (auto simp: u_def intro!: console.equality)
  finally show thesis using d(2,3) pn by (rule_tac that [of d p]) (auto simp: displays_def)
qed

lemma good_kill:
  assumes "good s" "\<not> a_has_sel (ed s)" "displays d p [] 0"
    and "s' = s\<lparr>input := (input s)\<lparr>in_e := in_w (input s), in_c := in_w (input s)\<rparr>, scr := d,
               undo := (undo s)\<lparr>undo_n := 0\<rparr>\<rparr>"
  shows "good s' \<and> ed s' = (ed s)\<lparr>a_line := [], a_pos := 0, a_undo := []\<rparr>"
proof -
  have ed: "ed s' = (ed s)\<lparr>a_line := [], a_pos := 0, a_undo := []\<rparr>" by (simp add: assms(4) ed_def Let_def)
  have "sel_inv (input s')"
    using no_sel_inv [OF assms(1,2), of "input s'"] by (simp add: assms(4))
  moreover have "ring_inv (input s')"
    using ring_invD [OF good_ring [OF assms(1)]] by (simp add: assms(4) ring_inv_def)
  ultimately show ?thesis
    using assms(1,3) unfolding good_def con_inv_def store_inv_def scr_inv_def ed
    by (auto simp: assms(4) no_nl_def)
qed

lemma key_kill_line_ok:
  assumes "good s"
  shows "returns (key_kill_line s) (\<lambda>s'. good s' \<and> ed s' = a_kill (ed s))"
proof -
  define t where "t = deselect_if_any s"
  have t: "good t" "ed t = a_desel (ed s)" using good_desel [OF assms] by (simp_all add: t_def)
  note ring = ring_invD [OF good_ring [OF t(1)]]
  obtain d p where d: "displays d p [] 0" "key_kill_line s = Inr (t\<lparr>input := (input t)\<lparr>in_e := in_w (input t),
      in_c := in_w (input t)\<rparr>, scr := d, undo := (undo t)\<lparr>undo_n := 0\<rparr>\<rparr>)"
  proof (cases "in_e (input t) = in_w (input t)")
    case True
    then have c: "in_c (input t) = in_w (input t)" using ring by simp
    obtain p where "displays (scr t) p (a_line (ed t)) (a_pos (ed t))"
      using t(1) by (auto simp: good_def scr_inv_def)
    then have "displays (scr t) p [] 0" using True c by (simp add: ed_simps)
    then show thesis
      using True by (rule_tac that) (auto simp: key_kill_line_def clear_undo_def upd_in_def
          intro!: console.equality simp flip: t_def)
  next
    case False
    obtain d p where "erase_line t = Inr (t\<lparr>input := (input t)\<lparr>in_e := in_w (input t),
      in_c := in_w (input t)\<rparr>, scr := d\<rparr>)" "displays d p [] 0"
      using t(1) by (rule erase_line_ok)
    then show thesis
      using False by (rule_tac that) (auto simp: key_kill_line_def clear_undo_def upd_in_def simp flip: t_def)
  qed
  have "\<not> a_has_sel (ed t)" by (simp add: t(2))
  from good_kill [OF t(1) this d(1) refl] show ?thesis by (simp add: d(2) t(2) a_kill_def)
qed

section \<open>Selection, clipboard, newline\<close>

lemma good_sel:
  assumes "good s" "sel_inv ((input s)\<lparr>selecting := b, sel_start := x, sel_end := y\<rparr>)"
  shows "good (s\<lparr>input := (input s)\<lparr>selecting := b, sel_start := x, sel_end := y\<rparr>\<rparr>) \<and>
    ed (s\<lparr>input := (input s)\<lparr>selecting := b, sel_start := x, sel_end := y\<rparr>\<rparr>) =
      (ed s)\<lparr>a_selecting := b, a_start := x, a_end := y\<rparr>"
proof -
  let ?s = "s\<lparr>input := (input s)\<lparr>selecting := b, sel_start := x, sel_end := y\<rparr>\<rparr>"
  have ed: "ed ?s = (ed s)\<lparr>a_selecting := b, a_start := x, a_end := y\<rparr>" by (simp add: ed_def Let_def)
  show ?thesis
    using assms ed by (simp add: good_def con_inv_def ring_inv_def store_inv_def scr_inv_def)
qed

lemma key_select_ok:
  assumes "good s"
  shows "returns (key_select s) (\<lambda>s'. good s' \<and> ed s' = a_select (ed s))"
proof (cases "selecting (input s)")
  case False
  define t where "t = clear_selection s"
  have t: "good t" "ed t = a_clear (ed s)" using good_clear [OF assms] by (simp_all add: t_def)
  have "sel_inv ((input t)\<lparr>selecting := True, sel_start := int (in_c (input t)), sel_end := -1\<rparr>)"
    by (simp add: sel_inv_def)
  from good_sel [OF t(1) this] show ?thesis
    using False t(2) clear_fields(3,5) [OF good_cga(1) [OF assms]] ring_invD(4) [OF good_ring [OF assms]]
    by (simp add: key_select_def upd_in_def a_select_def a_clear_def ed_simps flip: t_def)
next
  case True
  have sel: "0 \<le> sel_start (input s)"
    using True assms by (auto simp: good_def con_inv_def sel_inv_def)
  note ring = ring_invD [OF good_ring [OF assms]]
  let ?a = "sel_start (input s)" and ?c = "int (in_c (input s))"
  have c: "int (a_base (ed s) + a_pos (ed s)) = ?c" using ring by (simp add: ed_simps)
  show ?thesis
  proof (cases "?a = ?c")
    case eq: True
    have "sel_inv ((input s)\<lparr>selecting := False, sel_start := -1, sel_end := -1\<rparr>)" by (simp add: sel_inv_def)
    from good_sel [OF assms this] show ?thesis
      using True eq c by (simp add: key_select_def upd_in_def a_select_def a_clear_def ed_simps(7,8))
  next
    case ne: False
    define t where "t = s\<lparr>input := (input s)\<lparr>selecting := False, sel_start := min ?a ?c, sel_end := max ?a ?c\<rparr>\<rparr>"
    have "sel_inv ((input s)\<lparr>selecting := False, sel_start := min ?a ?c, sel_end := max ?a ?c\<rparr>)"
      using sel ring by (auto simp: sel_inv_def min_def max_def)
    note g = good_sel [OF assms this, folded t_def]
    have t: "t = (let s = s\<lparr>input := (input s)\<lparr>selecting := False, sel_end := ?c\<rparr>\<rparr> in
        if ?a > ?c then s\<lparr>input := (input s)\<lparr>sel_start := ?c, sel_end := ?a\<rparr>\<rparr> else s)"
      by (auto simp: t_def min_def max_def intro!: console.equality input.equality)
    have "key_select s = Inr (update_highlight (min ?a ?c) (max ?a ?c) True t)"
      using True ne unfolding t by (auto simp: key_select_def upd_in_def Let_def min_def max_def)
    moreover obtain d where "update_highlight (min ?a ?c) (max ?a ?c) True t = t\<lparr>scr := d\<rparr>" "same_text (scr t) d"
      using good_cga(1) [of t] g by (auto elim: update_highlight_eq)
    ultimately show ?thesis
      using good_scr [of t d] g True ne c by (simp add: a_select_def ed_simps(7,8) Let_def)
  qed
qed

lemma take_fold_update:
  "n \<le> length b \<Longrightarrow> length (fold (\<lambda>i b. b[i := f i]) [0..<n] b) = length b \<and>
     take n (fold (\<lambda>i b. b[i := f i]) [0..<n] b) = map f [0..<n]"
  by (induction n) (auto simp: take_Suc_conv_app_nth)

lemma good_clip:
  assumes "good s" "length (clip_buf q) = CLIPBOARD_BUF" "clip_n q \<le> CLIPBOARD_BUF"
    "no_nl (take (clip_n q) (clip_buf q))"
  shows "good (s\<lparr>clipboard := q\<rparr>) \<and> ed (s\<lparr>clipboard := q\<rparr>) = (ed s)\<lparr>a_clip := take (clip_n q) (clip_buf q)\<rparr>"
proof -
  have ed: "ed (s\<lparr>clipboard := q\<rparr>) = (ed s)\<lparr>a_clip := take (clip_n q) (clip_buf q)\<rparr>" by (simp add: ed_def Let_def)
  show ?thesis using assms ed by (simp add: good_def con_inv_def store_inv_def scr_inv_def)
qed

lemma key_copy_ok:
  assumes "good s"
  shows "returns (key_copy s) (\<lambda>s'. good s' \<and> ed s' = a_copy (ed s))"
proof (cases "has_selection s")
  case False
  have "good (clear_selection s)" "ed (clear_selection s) = a_clear (ed s)" using good_clear [OF assms] by simp_all
  with good_clip [of "clear_selection s" "(clipboard (clear_selection s))\<lparr>clip_n := 0\<rparr>"]
    good_store(3) [of "clear_selection s"]
  show ?thesis using False by (simp add: key_copy_def a_copy_def has_selection_ed no_nl_def Let_def)
next
  case True
  obtain lo hi where sel: "sel_range (input s) = (lo, hi)" by fastforce
  obtain i j where rng: "a_range (ed s) = (i, j)" by fastforce
  note r = sel_range_eq [OF assms True sel rng]
  note ring = ring_invD [OF good_ring [OF assms]]
  let ?f = "\<lambda>k. rget (in_buf (input s)) (in_w (input s) + i + k)"
  define n where "n = j - i"
  have n: "n \<le> 128" using r(4) ring by (simp add: n_def ed_simps INPUT_BUF_def)
  define q where "q = \<lparr>clip_buf = fold (\<lambda>k b. b[k := ?f k]) [0..<n] (clip_buf (clipboard s)), clip_n = n\<rparr>"
  have len: "length (clip_buf (clipboard s)) = 128" using good_store(3) [OF assms] by (simp add: CLIPBOARD_BUF_def)
  have tk: "take n (clip_buf q) = take (j - i) (drop i (a_line (ed s)))"
  proof -
    have "take n (clip_buf q) = map ?f [0..<n]" using take_fold_update [of n "clip_buf (clipboard s)" ?f] n len
      by (simp add: q_def)
    also have "\<dots> = rslice (in_buf (input s)) (in_w (input s) + i) (in_w (input s) + i + n)"
      by (rule nth_equalityI) (simp_all add: add.assoc)
    finally show ?thesis
      using r(3,4) by (simp add: ed_simps drop_rslice take_rslice n_def)
  qed
  have "key_copy s = Inr (s\<lparr>clipboard := q\<rparr>)"
  proof -
    have "hi - lo = int n" using r(1-3) by (simp add: n_def of_nat_diff)
    then show ?thesis
      using True sel n r(1) by (simp add: key_copy_def q_def CLIPBOARD_BUF_def nat_add_distrib)
  qed
  moreover have "no_nl (take (clip_n q) (clip_buf q))"
    using good_store(5) [OF assms] tk by (auto simp: q_def no_nl_def dest: in_set_takeD in_set_dropD)
  then have "good (s\<lparr>clipboard := q\<rparr>) \<and> ed (s\<lparr>clipboard := q\<rparr>) = (ed s)\<lparr>a_clip := take (clip_n q) (clip_buf q)\<rparr>"
    using take_fold_update [of n "clip_buf (clipboard s)" ?f] n len
    by (intro good_clip [OF assms]) (simp_all add: q_def CLIPBOARD_BUF_def)
  ultimately show ?thesis
    using True rng tk by (simp add: a_copy_def has_selection_ed) (simp add: q_def)
qed

lemma a_room_iff:
  "good s \<Longrightarrow> a_room (ed s) \<longleftrightarrow> in_e (input s) < in_r (input s) + INPUT_BUF"
  using ring_invD [OF good_ring [of s]] by (auto simp: a_room_def ed_simps)

lemma paste_loop_ok:
  "good s \<Longrightarrow> no_nl xs \<Longrightarrow> returns (for_each xs paste_char s)
     (\<lambda>s'. good s' \<and> ed s' = fold (\<lambda>ch a. if a_room a then a_insert ch a else a) xs (ed s))"
proof (induction xs arbitrary: s)
  case (Cons ch xs)
  have "returns (paste_char ch s) (\<lambda>s'. good s' \<and> ed s' = (if a_room (ed s) then a_insert ch (ed s) else ed s))"
    using insert_char_ok [OF Cons.prems(1), of ch] Cons.prems a_room_iff [OF Cons.prems(1)]
    by (auto simp: paste_char_def no_nl_def)
  then obtain s1 where s1: "paste_char ch s = Inr s1" "good s1"
    "ed s1 = (if a_room (ed s) then a_insert ch (ed s) else ed s)" by (auto elim: returnsE)
  with Cons.IH [OF s1(2)] Cons.prems(2) show ?case by (simp add: no_nl_def)
qed simp

lemma a_clip_delete_sel [simp]: "a_clip (a_delete_sel a) = a_clip a"
  by (simp add: a_delete_sel_def a_clear_def Let_def split: prod.split)

lemma a_clear_clear: "a_clear (a_desel a) = a_clear a" "a_has_sel (a_clear a) = False"
  by (simp_all add: a_desel_def a_clear_def a_has_sel_def)

lemma drop_selection_ok:
  assumes "good s"
  shows "returns (if has_selection s then delete_selection s else Inr s)
    (\<lambda>s'. good s' \<and> ed s' = (if a_has_sel (ed s) then a_delete_sel (ed s) else ed s))"
  using delete_selection_ok [OF assms] assms by (simp add: has_selection_ed)

lemma key_paste_ok:
  assumes "good s"
  shows "returns (key_paste s) (\<lambda>s'. good s' \<and> ed s' = a_paste (ed s))"
proof -
  have fin: "good (clear_selection (deselect_if_any u)) \<and>
      ed (clear_selection (deselect_if_any u)) = a_clear (ed u)" if "good u" for u :: "'a console_scheme"
    using good_desel [OF that] good_clear [of "deselect_if_any u"] by (simp add: a_clear_clear)
  have ne: "clip_n (clipboard s) > 0 \<longleftrightarrow> a_clip (ed s) \<noteq> []"
    using good_store(3) [OF assms] by (auto simp: ed_simps CLIPBOARD_BUF_def)
  show ?thesis
  proof (cases "a_clip (ed s) = []")
    case True
    then show ?thesis using ne fin [OF assms] by (simp add: key_paste_def a_paste_def)
  next
    case False
    obtain t where t: "(if has_selection s then delete_selection s else Inr s) = Inr t" "good t"
      "ed t = (if a_has_sel (ed s) then a_delete_sel (ed s) else ed s)"
      using drop_selection_ok [OF assms] by (auto elim: returnsE simp del: split_paired_All)
    have clip: "take (clip_n (clipboard t)) (clip_buf (clipboard t)) = a_clip (ed s)"
      using t(3) by (simp flip: ed_simps(6))
    obtain u where u: "for_each (a_clip (ed s)) paste_char t = Inr u" "good u"
      "ed u = fold (\<lambda>ch a. if a_room a then a_insert ch a else a) (a_clip (ed s)) (ed t)"
      using paste_loop_ok [OF t(2) good_store(6) [OF assms]] by (auto elim: returnsE)
    have "key_paste s = Inr (clear_selection (deselect_if_any u))"
      using False ne t(1) u(1) clip by (simp add: key_paste_def)
    then show ?thesis using fin [OF u(2)] u(3) t(3) False by (simp add: a_paste_def)
  qed
qed

lemma newline_ok:
  assumes "good s" "a_room (ed s)" "\<not> a_has_sel (ed s)"
  shows "returns (bindr (cgaputc 10 (scr s)) (\<lambda>d. commit_line (s\<lparr>scr := d\<rparr>)))
    (\<lambda>s'. good s' \<and> ed s' = (a_commit CHR 0x0A (ed s))\<lparr>a_undo := []\<rparr>)"
proof -
  obtain p where p: "displays (scr s) p (a_line (ed s)) (a_pos (ed s))"
    using assms(1) by (auto simp: good_def scr_inv_def)
  then have c: "cga_ok (scr s)" "cursor (scr s) < 1920" by (auto simp: displays_def)
  obtain d where d: "cgaputc 10 (scr s) = Inr d" "cga_ok d"
    "cursor d = (let p = cursor (scr s) + 80 - cursor (scr s) mod 80 in if p \<ge> 1920 then p - 80 else p)"
    using cgaputc_newline [OF c(1)] c(2) by (auto elim: returnsE)
  have "cursor (scr s) + 80 - cursor (scr s) mod 80 \<le> 1920"
  proof -
    have "cursor (scr s) = 80 * (cursor (scr s) div 80) + cursor (scr s) mod 80" by simp
    moreover have "cursor (scr s) div 80 < 24" using c(2) by (simp add: div_less_iff_less_mult)
    ultimately show ?thesis by linarith
  qed
  then have "cursor d < 1920" using d(3) by (auto simp: Let_def split: if_splits)
  then have disp: "displays d (cursor d) [] 0" using d(2) by (simp add: displays_def)
  define u where "u = (undo s)\<lparr>undo_n := 0\<rparr>"
  define s' where "s' = s\<lparr>scr := d, undo := u, input := (input s)\<lparr>
            in_buf := rput (in_buf (input s)) (in_e (input s)) CHR 0x0A, in_e := in_e (input s) + 1,
            in_w := in_e (input s) + 1, in_c := in_e (input s) + 1\<rparr>\<rparr>"
  have g: "good s' \<and> ed s' = (a_commit CHR 0x0A (ed s))\<lparr>a_undo := take (undo_n u) (undo_buf u)\<rparr>"
    using assms good_store [OF assms(1)]
    by (intro good_commit [OF assms(1,2) disp s'_def]) (simp_all add: u_def)
  have "commit_line (s\<lparr>scr := d\<rparr>) = wakeup Chan_input_r s'"
    by (auto simp: commit_line_def upd_in_def clear_undo_def s'_def u_def
        intro!: arg_cong [where f = "wakeup _"] console.equality)
  then show ?thesis
    using good_wk [of s' Chan_input_r] g d(1) by (simp add: u_def)
qed

lemma a_room_delete_sel: "a_room a \<Longrightarrow> a_room (a_delete_sel a)"
  by (auto simp: a_delete_sel_def a_room_def a_clear_def Let_def split: prod.split)

lemma a_has_sel_delete: "a_has_sel (a_delete_sel a) = False"
  by (simp add: a_delete_sel_def a_clear_clear Let_def split: prod.split)

lemma char_of_newline:
  assumes "0 < c" "c < 256" "c \<noteq> (10 :: int)"
  shows "(char_of c :: char) \<noteq> CHR 0x0A"
proof
  assume "(char_of c :: char) = CHR 0x0A"
  then have "of_char (char_of c :: char) = (10 :: int)" by simp
  with assms show False by (simp add: of_char_of)
qed

lemma key_default_ok:
  assumes "good s" "a_room (ed s)" "0 \<le> c" "c < 256"
  shows "returns (key_default c s) (\<lambda>s'. good s' \<and> ed s' = a_default c (ed s))"
proof (cases "c = 0")
  case True
  then show ?thesis using assms by (simp add: key_default_def a_default_def)
next
  case False
  define a where "a = (if a_has_sel (ed s) then a_delete_sel (ed s) else ed s)"
  obtain t where t: "(if has_selection s then delete_selection s else Inr s) = Inr t" "good t" "ed t = a"
    using drop_selection_ok [OF assms(1)] by (auto elim: returnsE simp: a_def)
  have room: "a_room (ed t)" "\<not> a_has_sel (ed t)"
    using assms(2) by (simp_all add: t(3) a_def a_room_delete_sel a_has_sel_delete)
  have full: "in_e (input t) < in_r (input t) + INPUT_BUF" using room(1) a_room_iff [OF t(2)] by simp
  show ?thesis
  proof (cases "c = 10 \<or> c = 13")
    case True
    then show ?thesis
      using newline_ok [OF t(2) room] t(1,3) False
      by (auto simp: key_default_def a_default_def a_def bindr_assoc good_clear elim!: returns_mono)
  next
    case False': False
    then show ?thesis
      using insert_char_ok [OF t(2) room(1), of "char_of c"] char_of_newline [of c] t(1,3) full False assms(3,4)
      by (auto simp: key_default_def a_default_def a_def good_clear elim!: returns_mono)
  qed
qed

text \<open>All keys but Tab: what the handler does to the state is what the abstract editor does.\<close>

lemma console_key_ok:
  assumes "good s" "in_e (input s) < POS_MAX" "0 \<le> c" "c < 256" "c \<noteq> 9"
    and "a_room (ed s) \<or> c \<in> {1, 3, 8, 16, 19, 21, 22, 26, 0x7f, KEY_LF, KEY_RT}"
  shows "returns (console_key c s) (\<lambda>s'. good s' \<and> ed s' = a_key c (ed s))"
proof -
  have "returns (key_eof_or_word_right s) (\<lambda>s'. good s' \<and> ed s' = a_eof_or_word_right (ed s))" if "a_room (ed s)"
    using key_eof_ok [OF assms(1) _ that] key_word_right_ok [OF assms(1)] by blast
  moreover have "returns (Inr (deselect_if_any s)) (\<lambda>s'. good s' \<and> ed s' = a_desel (ed s))"
    using good_desel [OF assms(1)] by simp
  ultimately show ?thesis
    using assms
    by (auto simp: console_key_def a_key_def key_select_ok key_copy_ok key_paste_ok key_word_left_ok
        key_kill_line_ok key_backspace_ok key_undo_ok key_left_ok key_right_ok key_default_ok
        KEY_LF_def KEY_RT_def simp del: returns_Inr)
qed

end
