(* ===== verification/ConsoleProps.thy ===== *)
theory ConsoleProps
  imports EditorKeys
begin

text \<open>
  The properties of the console: the refinement of the abstract editor by every key but Tab, what
  undo restores, what a reader gets, and what the code does in the corners where it leaves its
  contract: a full input buffer, undo of a deletion, and completion of a word that wraps around.
\<close>

section \<open>A concrete console\<close>

definition con0 :: console where
  "con0 = \<lparr>cpus = cpus pst0, ncpu = 2, lapicid = 0, eflags_if = eflags_if pst0, locks = locks pst0,
     mem = \<lambda>_. nul, use_lock = True, freelist = 0, kend = 0x80110000,
     ptable = ptable pst0, initproc = Some 0, nextpid = 3, kpgdir = 4096,
     trapret = 0x80106000, forkret_addr = 0x80103000,
     panicked = False, locking = True,
     scr = \<lparr>crtc_index = 0, crtc = (\<lambda>_. 0)(14 := 1), crt = \<lambda>_. 0, uart = True, com1 = []\<rparr>,
     input = \<lparr>in_buf = replicate 128 nul, in_r = 0, in_w = 0, in_e = 0, in_c = 0,
       selecting = False, sel_start = -1, sel_end = -1\<rparr>,
     undo = \<lparr>undo_buf = replicate 128 \<lparr>op_type = OP_INSERT, op_c = nul, op_pos = 0\<rparr>, undo_n = 0\<rparr>,
     clipboard = \<lparr>clip_buf = replicate 128 nul, clip_n = 0\<rparr>,
     last_key_was_tab = False\<rparr>"

text \<open>The same console inside consoleintr, with its lock taken.\<close>

definition con1 :: console where
  "con1 = acq Cons_lock con0"

lemma con0_mach: "mach_ok con0" "free l con0" "this_cpu con0 = Some 0"
proof -
  show "this_cpu con0 = Some 0" by (simp add: this_cpu_def con0_def pst0_def mach0_def upt_rec)
  then show "mach_ok con0" by (simp add: mach_ok_def con0_def pst0_def mach0_def)
  show "free l con0" by (simp add: free_def con0_def pst0_def mach0_def)
qed

lemma con1_fields: "input con1 = input con0" "undo con1 = undo con0" "clipboard con1 = clipboard con0"
    "scr con1 = scr con0" "panicked con1 = False" "last_key_was_tab con1 = False"
  by (simp_all add: con1_def acq_def Let_def con0_def)

lemma con1_ed: "ed con1 = \<lparr>a_base = 0, a_com = [], a_line = [], a_pos = 0, a_undo = [], a_clip = [],
    a_selecting = False, a_start = -1, a_end = -1\<rparr>"
  by (simp add: ed_def con1_fields con0_def Let_def)

lemma con1_good: "good con1"
proof -
  have "env_ok con1" using con0_mach by (simp add: env_ok_def con1_def)
  moreover have "con_inv con1"
    by (simp add: con_inv_def ring_inv_def sel_inv_def store_inv_def con1_ed)
       (simp add: con1_fields con0_def INPUT_BUF_def UNDO_BUF_def CLIPBOARD_BUF_def no_nl_def)
  moreover have "displays (scr con0) 256 [] 0" by (simp add: displays_def con0_def cga_ok_def cursor_def)
  ultimately show ?thesis by (auto simp: good_def scr_inv_def con1_ed con1_fields)
qed

section \<open>The line editor\<close>



text \<open>Typing a character and taking it back, in the abstract editor.\<close>

lemma a_insert_undo:
  assumes "a_pos a \<le> length (a_line a)" "length (a_undo a) < UNDO_BUF" "\<not> a_has_sel a"
  shows "a_undo_key (a_clear (a_insert ch a)) = a_clear a"
proof -
  let ?b = "a_clear (a_insert ch a)"
  have u: "a_undo ?b = a_undo a @ [\<lparr>op_type = OP_INSERT, op_c = ch, op_pos = a_base a + a_pos a\<rparr>]"
    "a_base ?b = a_base a" "a_line ?b = take (a_pos a) (a_line a) @ ch # drop (a_pos a) (a_line a)"
    using assms(2) by (simp_all add: a_insert_def a_push_def a_clear_def)
  have "a_desel ?b = ?b" by (simp add: a_desel_def a_clear_clear)
  then show ?thesis
    using assms u by (simp add: a_undo_key_def Let_def) (simp add: a_insert_def a_push_def a_clear_def)
qed



section \<open>Where the editor leaves its contract\<close>

text \<open>
  C18. A full buffer is not protected: when the buffer holds 128 unread and unfinished bytes, one more
  printing key does not get refused. It stores a newline in the cell of the oldest unread byte
  and the write counter passes the read counter by 129, so that byte is lost and the reader
  takes the newline in its place.
\<close>
theorem full_buffer_overwrites:
  assumes "good s" and "in_e (input s) = in_r (input s) + INPUT_BUF" and "in_e (input s) < POS_MAX"
    and "\<not> has_selection s" and "32 \<le> c" and "c < 127"
  shows "returns (console_key c s) (\<lambda>s'. in_r (input s') = in_r (input s)
    \<and> in_w (input s') = in_r (input s') + INPUT_BUF + 1
    \<and> rget (in_buf (input s')) (in_r (input s')) = CHR 0x0A)"
proof -
  note ring = ring_invD [OF good_ring [OF assms(1)]]
  let ?b = "rput (in_buf (input s)) (in_e (input s)) CHR 0x0A"
  define t where "t = clear_undo (upd_in (\<lambda>i. i\<lparr>in_c := in_w i\<rparr>) (upd_in (\<lambda>i. i\<lparr>in_w := in_e i\<rparr>)
    (upd_in (\<lambda>i. i\<lparr>in_buf := rput (in_buf i) (in_e i) CHR 0x0A, in_e := in_e i + 1\<rparr>) s)))"
  have t: "in_r (input t) = in_r (input s)" "in_w (input t) = in_e (input s) + 1" "in_buf (input t) = ?b"
    "scr t = scr s" "env_ok t"
    using assms(1) by (simp_all add: t_def upd_in_def clear_undo_def good_def)
  have "in_e (input s) mod length ?b = in_r (input s) mod length ?b"
    using ring assms(2) by (simp add: INPUT_BUF_def)
  then have nl: "rget ?b (in_r (input s)) = CHR 0x0A"
    using ring(1) by (simp add: rget_def rput_def INPUT_BUF_def)
  have "wakeup Chan_input_r t = Inr (wk Chan_input_r t)" using t(5) by (simp add: env_ok_def wakeup_eq)
  then have "console_key c s = Inr (clear_selection (wk Chan_input_r t))"
    using assms(2-6) ring
    by (simp add: console_key_def key_default_def commit_line_def KEY_LF_def KEY_RT_def t_def)
  moreover have "cga_ok (scr (wk Chan_input_r t))"
    using t(4) good_cga(1) [OF assms(1)] by (simp add: wakeup_frame)
  ultimately show ?thesis
    using nl t assms(2) by (simp add: clear_fields wakeup_frame)
qed



text \<open>
  The buffer after 127 keys and a newline, unread: committed text of 128 bytes. The next key
  overwrites the first of them.
\<close>

definition con_full :: console where
  "con_full = con1\<lparr>input := (input con1)\<lparr>in_buf := replicate 127 CHR ''a'' @ [CHR 0x0A], in_w := 128,
     in_e := 128, in_c := 128\<rparr>\<rparr>"

lemma con_full_good: "good con_full"
proof -
  have f: "scr con_full = scr con0" "panicked con_full = False" "undo con_full = undo con0"
    "clipboard con_full = clipboard con0" "env_ok con_full"
    using con1_good by (simp_all add: con_full_def con1_fields good_def)
  have e: "a_line (ed con_full) = []" "a_pos (ed con_full) = 0" "a_clip (ed con_full) = []"
    by (simp_all add: ed_simps) (simp_all add: con_full_def con1_fields con0_def)
  have "con_inv con_full"
    using e by (simp add: con_inv_def ring_inv_def sel_inv_def store_inv_def f)
       (simp add: con_full_def con1_fields con0_def INPUT_BUF_def UNDO_BUF_def CLIPBOARD_BUF_def no_nl_def)
  moreover have "displays (scr con0) 256 [] 0" by (simp add: displays_def con0_def cga_ok_def cursor_def)
  ultimately show ?thesis using e f by (auto simp: good_def scr_inv_def)
qed

theorem full_buffer_overwrites_witness:
  "rget (in_buf (input con_full)) 0 = CHR ''a'' \<and>
   returns (console_key 98 con_full) (\<lambda>s'. in_w (input s') = 129 \<and> rget (in_buf (input s')) 0 = CHR 0x0A)"
proof -
  have f: "in_r (input con_full) = 0" "in_e (input con_full) = 128" "\<not> has_selection con_full"
    "rget (in_buf (input con_full)) 0 = CHR ''a''"
    by (simp_all add: con_full_def con1_fields con0_def has_selection_def rget_def nth_append)
  have "returns (console_key 98 con_full) (\<lambda>s'. in_r (input s') = in_r (input con_full)
    \<and> in_w (input s') = in_r (input s') + INPUT_BUF + 1
    \<and> rget (in_buf (input s')) (in_r (input s')) = CHR 0x0A)"
    by (rule full_buffer_overwrites [OF con_full_good]) (simp_all add: f INPUT_BUF_def POS_MAX_def)
  then have "returns (console_key 98 con_full)
    (\<lambda>s'. in_w (input s') = 129 \<and> rget (in_buf (input s')) 0 = CHR 0x0A)"
    by (rule returns_mono) (auto simp: f(1) INPUT_BUF_def)
  then show ?thesis using f(4) by blast
qed

text \<open>
  C21. Completion reads outside the input buffer: when the first word being typed wraps around the
  end of the ring, Tab copies its prefix with one straight memmove that leaves the array.
\<close>
theorem tab_reads_out_of_bounds:
  assumes "good s" and "in_e (input s) < POS_MAX" and "CHR '' '' \<notin> set (a_line (ed s))"
    and "length (a_line (ed s)) < INPUT_BUF"
    and "in_w (input s) mod INPUT_BUF + length (a_line (ed s)) > INPUT_BUF"
  shows "console_key 9 s = Inl (Undef ''memmove out of bounds'')"
proof -
  note f = desel_fields [OF good_cga(1) [OF assms(1)]]
  note ring = ring_invD [OF good_ring [OF assms(1)]]
  define n where "n = length (a_line (ed s))"
  have "in_e (input s) = in_w (input s) + n" using ring by (simp add: n_def ed_simps)
  then have len: "int (in_e (input s)) - int (in_w (input s)) = int n" by simp
  have "CHR '' '' \<notin> set (rslice (in_buf (input s)) (in_w (input s)) (in_e (input s)))"
    using assms(3) by (simp add: ed_simps)
  moreover have "n < INPUT_BUF" "INPUT_BUF < in_w (input s) mod INPUT_BUF + n"
    using assms(4,5) by (simp_all add: n_def)
  ultimately have "handle_tab_completion (deselect_if_any s) = Inl (Undef ''memmove out of bounds'')"
    unfolding handle_tab_completion_def Let_def f len by simp
  then show ?thesis
    using assms(2) by (simp add: console_key_def key_tab_def)
qed

definition con_wrap :: console where
  "con_wrap = con1\<lparr>input := (input con1)\<lparr>in_buf := replicate 128 CHR ''a'', in_r := 127, in_w := 127,
     in_e := 129, in_c := 127\<rparr>,
     scr := (scr con1)\<lparr>crt := \<lambda>_. 97\<rparr>\<rparr>"

theorem tab_reads_out_of_bounds_witness:
  "a_line (ed con_wrap) = ''aa'' \<and> console_key 9 con_wrap = Inl (Undef ''memmove out of bounds'')"
proof -
  have e: "a_line (ed con_wrap) = ''aa''" "a_pos (ed con_wrap) = 0" "a_clip (ed con_wrap) = []"
    by (simp_all add: ed_simps) (simp_all add: con_wrap_def con1_fields con0_def rslice_def rget_def upt_rec)
  have f: "panicked con_wrap = False" "undo con_wrap = undo con0" "clipboard con_wrap = clipboard con0"
    "env_ok con_wrap"
    using con1_good by (simp_all add: con_wrap_def con1_fields good_def)
  have "con_inv con_wrap"
    using e by (simp add: con_inv_def ring_inv_def sel_inv_def store_inv_def f)
       (simp add: con_wrap_def con1_fields con0_def INPUT_BUF_def UNDO_BUF_def CLIPBOARD_BUF_def no_nl_def)
  moreover have "displays (scr con_wrap) 256 ''aa'' 0"
    by (simp add: displays_def con_wrap_def con1_fields con0_def cga_ok_def cursor_def less_Suc_eq)
  ultimately have "good con_wrap" using e f by (auto simp: good_def scr_inv_def)
  moreover have "in_w (input con_wrap) = 127" "in_e (input con_wrap) = 129"
    by (simp_all add: con_wrap_def)
  ultimately show ?thesis
    using tab_reads_out_of_bounds [of con_wrap] e(1) by (simp add: INPUT_BUF_def POS_MAX_def)
qed

section \<open>Reading lines\<close>

definition plain_text :: "string \<Rightarrow> bool" where
  "plain_text xs \<longleftrightarrow> CHR 0x0A \<notin> set xs \<and> CHR 0x04 \<notin> set xs"

abbreviation read_to :: "nat \<Rightarrow> 'a console_scheme \<Rightarrow> 'a console_scheme" where
  "read_to k s \<equiv> upd_in (\<lambda>i. i\<lparr>in_r := in_r i + k\<rparr>) s"

abbreviation unread :: "'a console_scheme \<Rightarrow> string" where
  "unread s \<equiv> rslice (in_buf (input s)) (in_r (input s)) (in_w (input s))"

lemma unread_step:
  assumes "unread s = x # xs"
  shows "in_r (input s) \<noteq> in_w (input s)" "rget (in_buf (input s)) (in_r (input s)) = x"
    "unread (read_to 1 s) = xs"
proof -
  have "in_r (input s) < in_w (input s)" using arg_cong [OF assms, of length] by simp
  with assms rslice_Cons [OF this, of "in_buf (input s)"] show "in_r (input s) \<noteq> in_w (input s)"
    "rget (in_buf (input s)) (in_r (input s)) = x" "unread (read_to 1 s) = xs"
    by (simp_all add: upd_in_def)
qed

text \<open>The read loop copies ordinary bytes until the count is used up or the text ends.\<close>

lemma read_loop_prefix:
  assumes "unread s = pre @ rest" and "plain_text pre"
  shows "read_loop target (length pre + n) s =
    bindr (read_loop target n (read_to (length pre) s)) (\<lambda>(cs, m, s). Inr (pre @ cs, m, s))"
  using assms
proof (induction pre arbitrary: s)
  case Nil
  have "bindr m (\<lambda>(cs, m, s). Inr (cs, m, s)) = m" for m :: "(string \<times> nat option \<times> 'a console_scheme) res"
    by (simp add: bindr_def split: sum.split)
  then show ?case by (simp add: upd_in_def)
next
  case (Cons x pre)
  note st = unread_step [OF Cons.prems(1) [simplified]]
  have "read_to (length pre) (read_to 1 s) = read_to (length (x # pre)) s"
    by (simp add: upd_in_def)
  moreover have "x \<noteq> CHR 0x0A" "x \<noteq> CHR 0x04" "plain_text pre"
    using Cons.prems(2) by (auto simp: plain_text_def)
  ultimately show ?case
    using Cons.IH [of "read_to 1 s"] st
    by (simp add: bindr_assoc split_def Let_def)
qed

lemma upd_in_upd_in: "upd_in f (upd_in g s) = upd_in (\<lambda>i. f (g i)) s"
  by (simp add: upd_in_def)

lemma unread_read_to: "unread s = pre @ rest \<Longrightarrow> unread (read_to (length pre) s) = rest"
  using drop_rslice [of "length pre" "in_buf (input s)" "in_r (input s)" "in_w (input s)"]
  by (simp add: upd_in_def)

lemma read_loop_line:
  assumes "unread s = pre @ CHR 0x0A # rest" and "plain_text pre"
  shows "read_loop target (length pre + Suc m) s = Inr (pre @ [CHR 0x0A], Some m, read_to (length pre + 1) s)"
  using read_loop_prefix [OF assms, of target "Suc m"] unread_step [OF unread_read_to [OF assms(1)]]
  by (simp add: Let_def upd_in_upd_in)

lemma read_loop_eof:
  assumes "unread s = pre @ CHR 0x04 # rest" and "plain_text pre"
  shows "read_loop (length pre + Suc m) (length pre + Suc m) s =
    Inr (pre, Some (Suc m), read_to (if pre = [] then 1 else length pre) s)"
proof -
  let ?t = "read_to (length pre) s"
  have "read_loop (length pre + Suc m) (Suc m) ?t =
      Inr ([], Some (Suc m), read_to (if pre = [] then 1 else length pre) s)"
    using unread_step [OF unread_read_to [OF assms(1)]] by (auto simp: Let_def upd_in_upd_in)
  then show ?thesis using read_loop_prefix [OF assms, of "length pre + Suc m" "Suc m"] by simp
qed

lemma console_lock_frame [simp]:
  "input (acq l s) = input s" "input (rel l s) = input s"
  by (simp_all add: acq_def rel_def Let_def)

lemma upd_in_mach [simp]:
  "mach_ok (upd_in f s) = mach_ok s" "holds l (upd_in f s) = holds l s" "this_cpu (upd_in f s) = this_cpu s"
  "readeflags_if (upd_in f s) = readeflags_if s" "cpus (upd_in f s) = cpus s" "ptable (upd_in f s) = ptable s"
  by (simp_all add: upd_in_def mach_ok_def holds_def this_cpu_def readeflags_if_def cong: option.case_cong)

text \<open>
  One call of consoleread from the point where the lock is held: the loop result gives the value
  returned and the input state, whatever the inode lock does besides.
\<close>

lemma consoleread_loop:
  assumes "iunlock s = Inr s1" and "mach_ok s1" and "free Cons_lock s1" and "0 \<le> n"
    and "read_loop (nat n) (nat n) (acq Cons_lock s1) = Inr (cs, m, read_to j (acq Cons_lock s1))"
    and "\<forall>t. input t = (input s1)\<lparr>in_r := in_r (input s1) + j\<rparr> \<longrightarrow> returns (ilock t) (\<lambda>u. input u = input t)"
  shows "returns (consoleread iunlock ilock n s) (\<lambda>(k, out, s').
    k = (case m of None \<Rightarrow> -1 | Some j \<Rightarrow> n - int j) \<and> out = cs \<and> unread s' = drop j (unread s1))"
proof -
  let ?t = "read_to j (acq Cons_lock s1)"
  have "release Cons_lock ?t = Inr (rel Cons_lock ?t)"
    using assms(2) by (intro release_eq) simp_all
  moreover have inp: "input (rel Cons_lock ?t) = (input s1)\<lparr>in_r := in_r (input s1) + j\<rparr>"
    by (simp add: upd_in_def)
  moreover obtain u where "ilock (rel Cons_lock ?t) = Inr u"
      "input u = (input s1)\<lparr>in_r := in_r (input s1) + j\<rparr>"
    using assms(6) [rule_format, OF inp] inp by (auto simp: returns_iff)
  ultimately show ?thesis
    using assms(1-5) by (simp add: consoleread_def acquire_eq drop_rslice split: option.split)
qed


text \<open>A console with committed text, and its console lock free, read by process 0 on CPU 0.\<close>

definition con_line :: "string \<Rightarrow> console" where
  "con_line xs = con0\<lparr>input := (input con0)\<lparr>in_buf := xs @ replicate (128 - length xs) (CHR 0x00),
     in_w := length xs, in_e := length xs, in_c := length xs\<rparr>,
     cpus := (cpus con0)(0 := (cpus con0 0)\<lparr>cpu_proc := Some 0\<rparr>)\<rparr>"

lemma con_line_ok: "mach_ok (con_line xs)" "free Cons_lock (con_line xs)" "this_cpu (con_line xs) = Some 0"
proof -
  show "this_cpu (con_line xs) = Some 0"
    by (simp add: this_cpu_def con_line_def con0_def pst0_def mach0_def upt_rec)
  then show "mach_ok (con_line xs)" by (simp add: mach_ok_def con_line_def con0_def pst0_def mach0_def)
  show "free Cons_lock (con_line xs)" by (simp add: free_def con_line_def con0_def pst0_def mach0_def)
qed

lemma con_line_unread: "length xs \<le> 128 \<Longrightarrow> unread (con_line xs) = xs"
  by (rule nth_equalityI) (simp_all add: con_line_def con0_def rget_def nth_append)




text \<open>
  Waiting: when the committed text is used up before the request is met and before a line ends,
  consoleread does not return; it sleeps until the keyboard commits more, unless the process
  has been killed.
\<close>
theorem consoleread_waits:
  assumes "iunlock s = Inr s1" and "mach_ok s1" and "free Cons_lock s1"
    and "plain_text (unread s1)" and "int (length (unread s1)) < n" and "in_r (input s1) \<le> in_w (input s1)"
    and "this_cpu s1 = Some c" and "cpu_proc (cpus s1 c) = Some q" and "\<not> killed (ptable s1 q)"
  shows "consoleread iunlock ilock n s = Inl Asleep"
proof -
  define pre where "pre = unread s1"
  obtain m where m: "n = int (length pre + Suc m)"
    using assms(5) unfolding pre_def by (metis zless_iff_Suc_zadd of_nat_add of_nat_Suc)
  let ?s = "acq Cons_lock s1" let ?t = "read_to (length pre) ?s"
  have "unread ?s = pre @ []" by (simp add: pre_def)
  from read_loop_prefix [OF this, of "nat n" "Suc m"] assms(4)
  have "read_loop (nat n) (nat n) ?s = bindr (read_loop (nat n) (Suc m) ?t) (\<lambda>(cs, m, s). Inr (pre @ cs, m, s))"
    by (simp only: m nat_int pre_def)
  moreover have "myproc ?t = Inr (Some q, ?t)"
  proof -
    have "0 \<le> ncli (cpus s1 c)" using assms(2,7) by (simp add: mach_ok_def)
    then show ?thesis
      using assms(7,8) by (subst myproc_eq [of _ c]) (simp_all add: cpus_acq, simp add: acq_def Let_def readeflags_if_def)
  qed
  moreover have "in_r (input ?t) = in_w (input ?t)" "ptable ?t = ptable s1"
    using assms(6) by (simp_all add: upd_in_def pre_def)
  ultimately have "read_loop (nat n) (nat n) ?s = Inl Asleep"
    using assms(9) by simp
  then show ?thesis using assms(1-3) by (simp add: consoleread_def acquire_eq)
qed

theorem consoleread_waits_witness: "consoleread Inr Inr 3 (con_line ''ls'') = Inl Asleep"
  by (rule consoleread_waits [of Inr _ "con_line ''ls''" _ 0 0])
     (simp_all add: con_line_ok con_line_unread plain_text_def, simp_all add: con_line_def con0_def pst0_def proc0_def)

end
