(* ===== verification/Shell.thy ===== *)
theory Shell
  imports CString
begin

text \<open>
  The shell (sh.c): the tokenizer, the recursive-descent parser, the termination of the argument
  strings inside the line buffer, and what the shell does with a parsed command.

  The line is the list of its bytes before the NUL, a \<open>char *\<close> into it is an index, and \<open>es\<close> is the
  length, where the NUL is. The command structures are the datatype \<open>cmd\<close>; a word is the pair of
  its two pointers. \<open>parseexec\<close> keeps a second pointer to the command at the bottom of the
  redirections it wraps around it, and \<open>upd_exec\<close> is the store through that pointer. \<open>panic\<close> prints
  and exits. The mutually recursive parsers take fuel; \<open>Spin\<close> is running out of it, and the lemma
  \<open>parse_line_returns\<close> shows that \<open>parsecmd\<close> gives enough. \<open>malloc\<close> is taken to succeed.
\<close>

section \<open>Definitions\<close>

definition MAXARGS :: nat where "MAXARGS = 10"
definition O_RDONLY :: int where "O_RDONLY = 0x000"
definition O_WRONLY :: int where "O_WRONLY = 0x001"
definition O_RDWR :: int where "O_RDWR = 0x002"
definition O_CREATE :: int where "O_CREATE = 0x200"

datatype 'w cmd =
    EXEC "'w list"
  | REDIR "'w cmd" 'w int int
  | PIPE "'w cmd" "'w cmd"
  | LIST "'w cmd" "'w cmd"
  | BACK "'w cmd"

type_synonym span = "nat \<times> nat"

definition whitespace :: string where
  "whitespace = [CHR '' '', CHR 0x09, CHR 0x0D, CHR 0x0A, CHR 0x0B]"

definition symbols :: string where "symbols = ''<|>&;()''"

definition char_at :: "string \<Rightarrow> nat \<Rightarrow> char" where
  "char_at b s = (if s < length b then b ! s else nul)"

text \<open>\<open>while(s < es && P(*s)) s++\<close>\<close>

function scan :: "(char \<Rightarrow> bool) \<Rightarrow> string \<Rightarrow> nat \<Rightarrow> nat" where
  "scan P b s = (if s < length b \<and> P (char_at b s) then scan P b (s + 1) else s)"
  by pat_completeness auto
termination by (relation "measure (\<lambda>(P :: char \<Rightarrow> bool, b :: string, s). length b - s)") auto

declare scan.simps [simp del]

definition is_ws :: "char \<Rightarrow> bool" where "is_ws c \<longleftrightarrow> strchr whitespace c \<noteq> None"
definition is_sym :: "char \<Rightarrow> bool" where "is_sym c \<longleftrightarrow> strchr symbols c \<noteq> None"

definition gettoken :: "string \<Rightarrow> nat \<Rightarrow> char \<times> span \<times> nat" where
  "gettoken b s =
     (let q = scan is_ws b s;
          c = char_at b q;
          (ret, eq) =
            (if c = nul then (c, q)
             else if c \<in> set ''|();&<'' then (c, q + 1)
             else if c = CHR ''>'' then
               (if char_at b (q + 1) = CHR ''>'' then (CHR ''+'', q + 2) else (c, q + 1))
             else (CHR ''a'', scan (\<lambda>c. \<not> is_ws c \<and> \<not> is_sym c) b q))
      in (ret, (q, eq), scan is_ws b eq))"

definition peek :: "string \<Rightarrow> nat \<Rightarrow> string \<Rightarrow> bool \<times> nat" where
  "peek b s toks =
     (let s = scan is_ws b s in (char_at b s \<noteq> nul \<and> strchr toks (char_at b s) \<noteq> None, s))"

fun parseredirs :: "nat \<Rightarrow> span cmd \<Rightarrow> string \<Rightarrow> nat \<Rightarrow> (span cmd \<times> nat) res" where
  "parseredirs 0 cmd b s = Inl Spin"
| "parseredirs (Suc f) cmd b s =
     (let (more, s) = peek b s ''<>''
      in if \<not> more then Inr (cmd, s)
         else
           let (tok, _, s) = gettoken b s;
               (word, w, s) = gettoken b s
           in if word \<noteq> CHR ''a'' then Inl (Panic ''missing file for redirection'')
              else if tok = CHR ''<'' then parseredirs f (REDIR cmd w O_RDONLY 0) b s
              else if tok = CHR ''>'' then parseredirs f (REDIR cmd w (O_WRONLY OR O_CREATE) 1) b s
              else if tok = CHR ''+'' then parseredirs f (REDIR cmd w (O_WRONLY OR O_CREATE) 1) b s
              else parseredirs f cmd b s)"

text \<open>The assignment \<open>cmd->argv[argc] = q; cmd->eargv[argc] = eq\<close> below the redirections.\<close>

fun upd_exec :: "'w \<Rightarrow> 'w cmd \<Rightarrow> 'w cmd" where
  "upd_exec w (EXEC ws) = EXEC (ws @ [w])"
| "upd_exec w (REDIR c f m d) = REDIR (upd_exec w c) f m d"
| "upd_exec w c = c"

fun parse_args :: "nat \<Rightarrow> nat \<Rightarrow> span cmd \<Rightarrow> string \<Rightarrow> nat \<Rightarrow> (span cmd \<times> nat) res" where
  "parse_args 0 argc ret b s = Inl Spin"
| "parse_args (Suc f) argc ret b s =
     (let (done, s) = peek b s ''|)&;''
      in if done then Inr (ret, s)
         else
           let (tok, w, s) = gettoken b s
           in if tok = nul then Inr (ret, s)
              else if tok \<noteq> CHR ''a'' then Inl (Panic ''syntax'')
              else if argc + 1 \<ge> MAXARGS then Inl (Panic ''too many args'')
              else bindr (parseredirs f (upd_exec w ret) b s) (\<lambda>(ret, s). parse_args f (argc + 1) ret b s))"

fun parse_backs :: "nat \<Rightarrow> span cmd \<Rightarrow> string \<Rightarrow> nat \<Rightarrow> (span cmd \<times> nat) res" where
  "parse_backs 0 cmd b s = Inl Spin"
| "parse_backs (Suc f) cmd b s =
     (let (more, s) = peek b s ''&''
      in if more then parse_backs f (BACK cmd) b (snd (snd (gettoken b s))) else Inr (cmd, s))"

fun parseline :: "nat \<Rightarrow> string \<Rightarrow> nat \<Rightarrow> (span cmd \<times> nat) res"
  and parsepipe :: "nat \<Rightarrow> string \<Rightarrow> nat \<Rightarrow> (span cmd \<times> nat) res"
  and parseexec :: "nat \<Rightarrow> string \<Rightarrow> nat \<Rightarrow> (span cmd \<times> nat) res"
  and parseblock :: "nat \<Rightarrow> string \<Rightarrow> nat \<Rightarrow> (span cmd \<times> nat) res" where
  "parseline 0 b s = Inl Spin"
| "parseline (Suc f) b s =
     bindr (parsepipe f b s) (\<lambda>(cmd, s).
     bindr (parse_backs f cmd b s) (\<lambda>(cmd, s).
       let (more, s) = peek b s '';''
       in if more then
            bindr (parseline f b (snd (snd (gettoken b s)))) (\<lambda>(right, s). Inr (LIST cmd right, s))
          else Inr (cmd, s)))"
| "parsepipe 0 b s = Inl Spin"
| "parsepipe (Suc f) b s =
     bindr (parseexec f b s) (\<lambda>(cmd, s).
       let (more, s) = peek b s ''|''
       in if more then
            bindr (parsepipe f b (snd (snd (gettoken b s)))) (\<lambda>(right, s). Inr (PIPE cmd right, s))
          else Inr (cmd, s))"
| "parseexec 0 b s = Inl Spin"
| "parseexec (Suc f) b s =
     (let (block, s) = peek b s ''(''
      in if block then parseblock f b s
         else bindr (parseredirs f (EXEC []) b s) (\<lambda>(ret, s). parse_args f 0 ret b s))"
| "parseblock 0 b s = Inl Spin"
| "parseblock (Suc f) b s =
     (let (block, s) = peek b s ''(''
      in if \<not> block then Inl (Panic ''parseblock'')
         else bindr (parseline f b (snd (snd (gettoken b s)))) (\<lambda>(cmd, s).
           let (closed, s) = peek b s '')''
           in if \<not> closed then Inl (Panic ''syntax - missing )'')
              else parseredirs f cmd b (snd (snd (gettoken b s)))))"

text \<open>Storing the NULs: the line buffer after the call.\<close>

fun nulterminate :: "span cmd \<Rightarrow> string \<Rightarrow> string" where
  "nulterminate (EXEC ws) b = fold (\<lambda>(q, eq) b. b[eq := nul]) ws b"
| "nulterminate (REDIR c (q, eq) m d) b = (nulterminate c b)[eq := nul]"
| "nulterminate (PIPE l r) b = nulterminate r (nulterminate l b)"
| "nulterminate (LIST l r) b = nulterminate r (nulterminate l b)"
| "nulterminate (BACK c) b = nulterminate c b"

definition parse_fuel :: "string \<Rightarrow> nat" where
  "parse_fuel b = 4 * length b + 4"

definition parsecmd :: "string \<Rightarrow> (span cmd \<times> string) res" where
  "parsecmd b =
     bindr (parseline (parse_fuel b) b 0) (\<lambda>(cmd, s).
       let s = snd (peek b s '''')
       in if s \<noteq> length b then Inl (Panic ''syntax'')
          else Inr (cmd, nulterminate cmd b))"

text \<open>The string that a pointer into the buffer denotes.\<close>

definition str_at :: "string \<Rightarrow> nat \<Rightarrow> string" where
  "str_at b q = takeWhile (\<lambda>c. c \<noteq> nul) (drop q b)"

section \<open>Scanning\<close>

text \<open>
  What is left of the line at a position, without leading blanks. The parsers depend on their
  position only through it, and its length is what they consume.
\<close>

definition rest :: "string \<Rightarrow> nat \<Rightarrow> string" where
  "rest b s = dropWhile is_ws (drop s b)"

definition word_char :: "char \<Rightarrow> bool" where
  "word_char c \<longleftrightarrow> \<not> is_ws c \<and> \<not> is_sym c"

definition sub :: "string \<Rightarrow> span \<Rightarrow> string" where
  "sub b = (\<lambda>(q, e). take (e - q) (drop q b))"

lemma scan_eq: "scan P b s = s + length (takeWhile P (drop s b))"
proof (induction P b s rule: scan.induct)
  case (1 P b s)
  show ?case
  proof (cases "s < length b")
    case True
    then have "drop s b = b ! s # drop (Suc s) b" by (simp add: Cons_nth_drop_Suc)
    with 1 True show ?thesis by (subst scan.simps) (simp add: char_at_def)
  qed (simp add: scan.simps)
qed

lemma drop_scan: "drop (scan P b s) b = dropWhile P (drop s b)"
  by (simp add: scan_eq dropWhile_eq_drop add.commute)

lemma scan_le: "s \<le> scan P b s" and scan_len: "s \<le> length b \<Longrightarrow> scan P b s \<le> length b"
proof -
  show "s \<le> scan P b s" by (simp add: scan_eq)
  show "scan P b s \<le> length b" if "s \<le> length b"
    using that length_takeWhile_le [of P "drop s b"] by (simp add: scan_eq)
qed

lemma char_at_hd: "char_at b s = (case drop s b of [] \<Rightarrow> nul | c # _ \<Rightarrow> c)"
  by (cases "s < length b") (auto simp: char_at_def simp flip: Cons_nth_drop_Suc)

lemma drop_word [simp]: "drop (scan is_ws b s) b = rest b s"
  by (simp add: rest_def drop_scan)

lemma rest_hd: "rest b s = c # r \<Longrightarrow> \<not> is_ws c"
  using hd_dropWhile [of is_ws "drop s b"] by (force simp: rest_def)

lemma rest_scan [simp]: "rest b (scan is_ws b s) = rest b s"
  using rest_hd [of b s] by (cases "rest b s") (simp_all add: rest_def [of b "scan is_ws b s"])

lemma peek_eq:
  "peek b s toks = (case rest b s of [] \<Rightarrow> False | c # _ \<Rightarrow> c \<noteq> nul \<and> c \<in> set toks, scan is_ws b s)"
  by (cases "rest b s") (auto simp: peek_def Let_def char_at_hd)

lemma scan_scan [simp]: "scan is_ws b (scan is_ws b s) = scan is_ws b s"
  using rest_hd [of b s] by (cases "rest b s") (simp_all add: scan_eq [of is_ws b "scan is_ws b s"])

lemma word_char_iff: "word_char c \<longleftrightarrow> c \<notin> set whitespace \<and> c \<notin> set symbols"
  by (simp add: word_char_def is_ws_def is_sym_def)

lemma char_at_scan: "char_at b (scan is_ws b s) = (case rest b s of [] \<Rightarrow> nul | c # _ \<Rightarrow> c)"
  by (simp add: char_at_hd)

lemma drop_Suc_eq: "drop q b = c # r \<Longrightarrow> drop (Suc q) b = r"
  by (metis drop_Suc list.sel(3) tl_drop)

text \<open>The two ends of a token, and the position after it.\<close>

lemma gettoken_ends:
  assumes "gettoken b s = (t, (q, e), s')"
  shows "q = scan is_ws b s" "s' = scan is_ws b e" "q \<le> e" "char_at b q \<noteq> nul \<Longrightarrow> q < e"
    "s \<le> length b \<Longrightarrow> e \<le> length b"
proof -
  show qs: "q = scan is_ws b s" and "s' = scan is_ws b e"
    using assms by (auto simp: gettoken_def Let_def split: if_splits prod.splits)
  have word: "q < scan (\<lambda>c. \<not> is_ws c \<and> \<not> is_sym c) b q"
    if "char_at b q \<noteq> nul" "char_at b q \<notin> set ''|();&<''" "char_at b q \<noteq> CHR ''>''"
  proof -
    from that(1) obtain c r where r: "rest b s = c # r" "char_at b q = c"
      by (cases "rest b s") (auto simp: qs char_at_scan)
    have "drop q b = c # r" using r(1) by (simp add: qs)
    moreover have "\<not> is_ws c" "\<not> is_sym c"
      using rest_hd [OF r(1)] that r(2) by (auto simp: is_sym_def symbols_def)
    ultimately show ?thesis by (simp add: scan_eq [of _ b q])
  qed
  show "q < e" if "char_at b q \<noteq> nul"
    using assms word that by (auto simp: gettoken_def Let_def simp flip: qs split: if_splits)
  then show "q \<le> e"
    using assms by (cases "char_at b q = nul") (auto simp: gettoken_def Let_def simp flip: qs)
  show "e \<le> length b" if "s \<le> length b"
  proof -
    have "q \<le> length b" "char_at b q \<noteq> nul \<Longrightarrow> Suc q \<le> length b"
      "char_at b (Suc q) = CHR ''>'' \<Longrightarrow> Suc (Suc q) \<le> length b"
      using that by (auto simp: qs scan_len char_at_def split: if_splits)
    then show ?thesis
      using assms by (auto simp: gettoken_def Let_def scan_len simp flip: qs split: if_splits)
  qed
qed

lemma rest_len: "s \<le> length b \<Longrightarrow> scan is_ws b s = length b - length (rest b s)"
  using scan_len [of s b is_ws] by (metis drop_word length_drop diff_diff_cancel)

lemma rest_shorter: "length (rest b s) \<le> length b - s"
  using length_dropWhile_le [of is_ws "drop s b"] by (simp add: rest_def)

lemma gettoken_consumes:
  assumes "rest b s = c # r" "c \<noteq> nul"
  shows "length (rest b (snd (snd (gettoken b s)))) < length (rest b s)"
proof -
  obtain t q e s' where g: "gettoken b s = (t, (q, e), s')" by (cases "gettoken b s") auto
  note e = gettoken_ends [OF g]
  have "q < e" using assms e(1,4) by (simp add: char_at_scan)
  moreover have "length (rest b s) = length b - q" using e(1) by (metis drop_word length_drop)
  moreover have "q < length b" using assms(1) e(1) by (metis drop_word drop_all linorder_not_le list.discI)
  ultimately show ?thesis using g e(2) rest_shorter [of b e] by simp
qed

lemma gettoken_le: "length (rest b (snd (snd (gettoken b s)))) \<le> length (rest b s)"
proof -
  obtain t q e s' where g: "gettoken b s = (t, (q, e), s')" by (cases "gettoken b s") auto
  note e = gettoken_ends [OF g]
  have "length (rest b s) = length b - q" using e(1) by (metis drop_word length_drop)
  then show ?thesis using g e(2,3) rest_shorter [of b e] by simp
qed

lemma gettoken_nil: "rest b s = [] \<Longrightarrow> fst (gettoken b s) = nul"
  by (simp add: gettoken_def Let_def char_at_scan)

lemma gettoken_sym:
  assumes "rest b s = c # r" "c \<in> set ''|();&<''"
  shows "fst (gettoken b s) = c" "rest b (snd (snd (gettoken b s))) = dropWhile is_ws r"
proof -
  have "c \<noteq> nul" using assms(2) by auto
  moreover have "drop (Suc (scan is_ws b s)) b = r" using assms(1) by (intro drop_Suc_eq) simp
  ultimately show "fst (gettoken b s) = c" "rest b (snd (snd (gettoken b s))) = dropWhile is_ws r"
    using assms by (simp_all add: gettoken_def Let_def char_at_scan rest_def [of b "Suc (scan is_ws b s)"])
qed

lemma gettoken_gt:
  assumes "rest b s = CHR ''>'' # r" "r = [] \<or> hd r \<noteq> CHR ''>''"
  shows "fst (gettoken b s) = CHR ''>''" "rest b (snd (snd (gettoken b s))) = dropWhile is_ws r"
proof -
  have d: "drop (Suc (scan is_ws b s)) b = r" using assms(1) by (intro drop_Suc_eq) simp
  then have "char_at b (Suc (scan is_ws b s)) \<noteq> CHR ''>''"
    using assms(2) by (cases r) (auto simp: char_at_hd)
  with d show "fst (gettoken b s) = CHR ''>''" "rest b (snd (snd (gettoken b s))) = dropWhile is_ws r"
    using assms by (simp_all add: gettoken_def Let_def char_at_scan rest_def [of b "Suc (scan is_ws b s)"])
qed

lemma gettoken_word:
  assumes "rest b s = w @ r" "w \<noteq> []" "\<forall>c \<in> set w. word_char c \<and> c \<noteq> nul" "r = [] \<or> \<not> word_char (hd r)"
  obtains q e s' where "gettoken b s = (CHR ''a'', (q, e), s')" "sub b (q, e) = w"
    "rest b s' = dropWhile is_ws r"
proof -
  let ?q = "scan is_ws b s"
  obtain c w' where w: "w = c # w'" using assms(2) by (cases w) auto
  have c: "char_at b ?q = c" "c \<noteq> nul" "c \<notin> set symbols"
    using assms(1,3) w by (simp_all add: char_at_scan word_char_iff)
  have "takeWhile (\<lambda>c. \<not> is_ws c \<and> \<not> is_sym c) (w @ r) = w"
    using assms(3,4) by (cases r) (simp_all add: word_char_def takeWhile_tail)
  then have e: "scan (\<lambda>c. \<not> is_ws c \<and> \<not> is_sym c) b ?q = ?q + length w"
    using assms(1) by (simp add: scan_eq [of _ b ?q])
  have "drop (?q + length w) b = r" using assms(1) by (simp add: add.commute flip: drop_drop)
  then have "rest b (scan is_ws b (?q + length w)) = dropWhile is_ws r" by (simp add: rest_def [of b "?q + length w"])
  moreover have "sub b (?q, ?q + length w) = w" using assms(1) by (simp add: sub_def)
  moreover have "gettoken b s = (CHR ''a'', (?q, ?q + length w), scan is_ws b (?q + length w))"
    using c e by (simp add: gettoken_def Let_def symbols_def)
  ultimately show ?thesis using that by blast
qed

section \<open>The parsers return\<close>

text \<open>
  \<open>fits b s m\<close>: the parser result \<open>m\<close>, started at \<open>s\<close>, has not run out of fuel, and the
  position it returns has no more left than \<open>s\<close>.
\<close>

definition fits :: "string \<Rightarrow> nat \<Rightarrow> (span cmd \<times> nat) res \<Rightarrow> bool" where
  "fits b s m \<longleftrightarrow> m \<noteq> Inl Spin \<and> (\<forall>c s'. m = Inr (c, s') \<longrightarrow> length (rest b s') \<le> length (rest b s))"

lemma fits_simps [simp]:
  "fits b s (Inr (c, s')) \<longleftrightarrow> length (rest b s') \<le> length (rest b s)"
  "fits b s (Inl (Panic msg))"
  by (simp_all add: fits_def)

lemma fits_bindr:
  assumes "fits b s m"
    and "\<And>c s'. m = Inr (c, s') \<Longrightarrow> length (rest b s') \<le> length (rest b s) \<Longrightarrow> fits b s (g c s')"
  shows "fits b s (bindr m (\<lambda>(c, s'). g c s'))"
  using assms by (cases m) (auto simp: fits_def)

lemma fits_later: "fits b s' m \<Longrightarrow> length (rest b s') \<le> length (rest b s) \<Longrightarrow> fits b s m"
  by (auto simp: fits_def)

lemma gettoken_tok:
  assumes "fst (gettoken b s) \<noteq> nul"
  shows "length (rest b (snd (snd (gettoken b s)))) < length (rest b s)"
proof (cases "rest b s")
  case (Cons c r)
  then have "c \<noteq> nul" using assms by (auto simp: gettoken_def Let_def char_at_scan)
  with Cons show ?thesis by (rule gettoken_consumes)
qed (use assms gettoken_nil in simp)

lemma gettoken_after_peek:
  assumes "peek b s toks = (True, s1)"
  shows "length (rest b (snd (snd (gettoken b s1)))) < length (rest b s)"
proof -
  obtain c r where "rest b s1 = c # r" "c \<noteq> nul" "rest b s1 = rest b s"
    using assms by (cases "rest b s") (auto simp: peek_eq)
  then show ?thesis using gettoken_consumes [of b s1 c r] by simp
qed

lemma peek_rest: "peek b s toks = (x, s1) \<Longrightarrow> rest b s1 = rest b s"
  by (auto simp: peek_eq)

lemma parseredirs_fits: "length (rest b s) < f \<Longrightarrow> fits b s (parseredirs f cmd b s)"
proof (induction f arbitrary: cmd s)
  case (Suc f)
  obtain more s1 where p: "peek b s ''<>'' = (more, s1)" by fastforce
  note r1 = peek_rest [OF p]
  obtain tok w1 s2 where g1: "gettoken b s1 = (tok, w1, s2)" by (metis prod_cases3)
  obtain word w s3 where g2: "gettoken b s2 = (word, w, s3)" by (metis prod_cases3)
  have "fits b s (parseredirs f c b s3)" if more "word = CHR ''a''" for c
  proof -
    have "length (rest b s2) < length (rest b s)"
      using gettoken_after_peek [of b s "''<>''" s1] p that g1 by simp
    moreover have "length (rest b s3) < length (rest b s2)"
      using gettoken_tok [of b s2] g2 that by simp
    ultimately show ?thesis using Suc.prems by (simp add: fits_later [OF Suc.IH])
  qed
  then show ?case using p g1 g2 r1 by (auto simp: Let_def)
qed simp

lemma parse_args_fits: "length (rest b s) < f \<Longrightarrow> fits b s (parse_args f argc ret b s)"
proof (induction f arbitrary: argc ret s)
  case (Suc f)
  obtain fin s1 where p: "peek b s ''|)&;'' = (fin, s1)" by fastforce
  note r1 = peek_rest [OF p]
  obtain tok w s2 where g: "gettoken b s1 = (tok, w, s2)" by (metis prod_cases3)
  have le: "length (rest b s2) \<le> length (rest b s)" using gettoken_le [of b s1] g r1 by simp
  have "fits b s (bindr (parseredirs f (upd_exec w ret) b s2) (\<lambda>(ret, s). parse_args f (argc + 1) ret b s))"
    if "tok = CHR ''a''"
  proof -
    have l: "length (rest b s2) < length (rest b s)"
      using gettoken_tok [of b s1] g that r1 by simp
    then have "fits b s2 (parseredirs f (upd_exec w ret) b s2)"
      using Suc.prems by (intro parseredirs_fits) simp
    then have "fits b s2 (bindr (parseredirs f (upd_exec w ret) b s2) (\<lambda>(ret, s). parse_args f (argc + 1) ret b s))"
    proof (rule fits_bindr)
      fix c s' assume "length (rest b s') \<le> length (rest b s2)"
      moreover from this have "fits b s' (parse_args f (argc + 1) c b s')"
        using l Suc.prems by (intro Suc.IH) simp
      ultimately show "fits b s2 (parse_args f (argc + 1) c b s')" by (rule fits_later [rotated])
    qed
    then show ?thesis using l by (simp add: fits_later)
  qed
  then show ?case using p g r1 le by (auto simp: Let_def)
qed simp

lemma parse_backs_fits: "length (rest b s) < f \<Longrightarrow> fits b s (parse_backs f cmd b s)"
proof (induction f arbitrary: cmd s)
  case (Suc f)
  obtain more s1 where p: "peek b s ''&'' = (more, s1)" by fastforce
  have "fits b s (parse_backs f c b (snd (snd (gettoken b s1))))" if more for c
    using gettoken_after_peek [of b s "''&''" s1] p that Suc.prems
    by (simp add: fits_later [OF Suc.IH])
  then show ?case using p peek_rest [OF p] by (auto simp: Let_def)
qed simp

text \<open>A parser called on what follows the token that was peeked at.\<close>

lemma fits_after_token:
  assumes "peek b s toks = (True, s1)" and "length (rest b s) \<le> length (rest b s0)"
    and "\<And>s'. length (rest b s') < length (rest b s) \<Longrightarrow> fits b s' (m s')"
  shows "fits b s0 (m (snd (snd (gettoken b s1))))"
proof -
  note l = gettoken_after_peek [OF assms(1)]
  show ?thesis using fits_later [OF assms(3) [OF l]] l assms(2) by simp
qed

lemma fits_tail:
  assumes "length (rest b s) \<le> length (rest b s0)"
    and "\<And>s'. length (rest b s') < length (rest b s) \<Longrightarrow> fits b s' (m s')"
  shows "fits b s0 (let (more, s) = peek b s toks in
    if more then bindr (m (snd (snd (gettoken b s)))) (\<lambda>(c, s). Inr (g c, s)) else Inr (cmd, s))"
proof -
  obtain more s1 where p: "peek b s toks = (more, s1)" by fastforce
  have "fits b s0 (bindr (m (snd (snd (gettoken b s1)))) (\<lambda>(c, s). Inr (g c, s)))" if more
  proof -
    have "fits b s0 (m (snd (snd (gettoken b s1))))"
      using fits_after_token [OF _ assms] p that by simp
    then show ?thesis by (rule fits_bindr) simp
  qed
  then show ?thesis using p peek_rest [OF p] assms(1) by simp
qed

lemma parsers_fit:
  shows "4 * length (rest b s) + 3 < f \<Longrightarrow> fits b s (parseline f b s)"
    and "4 * length (rest b s) + 2 < f \<Longrightarrow> fits b s (parsepipe f b s)"
    and "4 * length (rest b s) + 1 < f \<Longrightarrow> fits b s (parseexec f b s)"
    and "4 * length (rest b s) < f \<Longrightarrow> fits b s (parseblock f b s)"
proof (induction f arbitrary: s)
  case (Suc f)
  note IH = Suc.IH
  {
    case 1
    have "fits b s (parse_backs f cmd b s1)" if "length (rest b s1) \<le> length (rest b s)" for cmd s1
      using 1 that by (simp add: fits_later [OF parse_backs_fits])
    moreover have "fits b s (parsepipe f b s)" using 1 by (simp add: IH(2))
    ultimately show ?case
      unfolding parseline.simps using 1 by (intro fits_bindr fits_tail) (simp_all add: IH(1))
  next
    case 2
    have "fits b s (parseexec f b s)" using 2 by (simp add: IH(3))
    then show ?case
      unfolding parsepipe.simps using 2 by (intro fits_bindr fits_tail) (simp_all add: IH(2))
  next
    case 3
    obtain more s1 where p: "peek b s ''('' = (more, s1)" by fastforce
    note r1 = peek_rest [OF p]
    have "fits b s (parseblock f b s1)" using 3 r1 IH(4) [of s1] by (simp add: fits_def)
    moreover have "fits b s (parseredirs f (EXEC []) b s1)"
      using 3 r1 parseredirs_fits [of b s1 f "EXEC []"] by (simp add: fits_def)
    then have "fits b s (bindr (parseredirs f (EXEC []) b s1) (\<lambda>(ret, s). parse_args f 0 ret b s))"
      by (rule fits_bindr) (use 3 in \<open>simp add: fits_later [OF parse_args_fits]\<close>)
    ultimately show ?case using p by simp
  next
    case 4
    obtain more s1 where p: "peek b s ''('' = (more, s1)" by fastforce
    have "fits b s (let (closed, s) = peek b s2 '')'' in if \<not> closed then Inl (Panic ''syntax - missing )'')
        else parseredirs f cmd b (snd (snd (gettoken b s))))"
      if l: "length (rest b s2) \<le> length (rest b s)" for cmd s2
    proof -
      obtain closed s3 where c: "peek b s2 '')'' = (closed, s3)" by fastforce
      have "fits b s (parseredirs f cmd b (snd (snd (gettoken b s3))))" if closed
        using fits_after_token [OF _ l, of "'')''" s3 "parseredirs f cmd b"] 4 c that l
        by (simp add: parseredirs_fits)
      then show ?thesis using c by simp
    qed
    moreover have "fits b s (parseline f b (snd (snd (gettoken b s1))))" if more
      using fits_after_token [of b s "''(''" s1 s "parseline f b"] 4 p that by (simp add: IH(1))
    ultimately show ?case using p by (simp add: fits_bindr)
  }
qed simp_all

lemma parse_line_returns: "parseline (parse_fuel b) b 0 \<noteq> Inl Spin"
proof -
  have "length (rest b 0) \<le> length b" using rest_shorter [of b 0] by simp
  then have "fits b 0 (parseline (parse_fuel b) b 0)"
    by (intro parsers_fit(1)) (simp add: parse_fuel_def)
  then show ?thesis by (simp add: fits_def)
qed

section \<open>The words of a command\<close>

text \<open>
  A word is a run of word characters up to a delimiter or the end of the line, so no two words of
  a command share a cell, and the cell after a word belongs to no word.
\<close>

definition span_ok :: "string \<Rightarrow> span \<Rightarrow> bool" where
  "span_ok b = (\<lambda>(q, e). q < e \<and> e \<le> length b \<and> (\<forall>i. q \<le> i \<and> i < e \<longrightarrow> word_char (b ! i) \<and> b ! i \<noteq> nul)
     \<and> (e < length b \<longrightarrow> \<not> word_char (b ! e)))"

definition apart :: "span set \<Rightarrow> bool" where
  "apart A \<longleftrightarrow> (\<forall>(q, e) \<in> A. \<forall>(q', e') \<in> A. (q, e) = (q', e') \<or> e \<le> q' \<or> e' \<le> q)"

text \<open>\<open>between lo hi A\<close>: good words, apart from each other, inside \<open>[lo, hi]\<close>.\<close>

definition between :: "string \<Rightarrow> nat \<Rightarrow> nat \<Rightarrow> span set \<Rightarrow> bool" where
  "between b lo hi A \<longleftrightarrow> lo \<le> hi \<and> hi \<le> length b \<and> apart A \<and> (\<forall>(q, e) \<in> A. span_ok b (q, e) \<and> lo \<le> q \<and> e \<le> hi)"

lemma between_empty [simp]: "between b lo hi {} \<longleftrightarrow> lo \<le> hi \<and> hi \<le> length b"
  by (simp add: between_def apart_def)

lemma between_Un:
  "between b lo mid A \<Longrightarrow> between b mid hi B \<Longrightarrow> between b lo hi (A \<union> B)"
  unfolding between_def apart_def by (auto; fastforce)

lemma between_wider: "between b lo mid A \<Longrightarrow> mid \<le> hi \<Longrightarrow> hi \<le> length b \<Longrightarrow> between b lo hi A"
  unfolding between_def by auto

lemma gettoken_between:
  assumes "gettoken b s = (t, w, s')" "s \<le> length b"
  shows "s \<le> s'" "s' \<le> length b" "t = CHR ''a'' \<Longrightarrow> nul \<notin> set b \<Longrightarrow> between b s s' {w}"
proof -
  obtain q e where w: "w = (q, e)" by fastforce
  note e = gettoken_ends [OF assms(1) [unfolded w]]
  show le: "s \<le> s'" using e(1-3) scan_le [of s is_ws b] scan_le [of e is_ws b] by simp
  show len: "s' \<le> length b" using e(2,5) assms(2) by (simp add: scan_len)
  show "between b s s' {w}" if "t = CHR ''a''" "nul \<notin> set b"
  proof -
    have c: "char_at b q \<noteq> nul" "e = scan (\<lambda>c. \<not> is_ws c \<and> \<not> is_sym c) b q"
      using assms(1) that w by (auto simp: gettoken_def Let_def split: if_splits)
    then have t: "e = q + length (takeWhile word_char (drop q b))"
      by (simp add: scan_eq word_char_def [abs_def])
    have "word_char (b ! i)" if "q \<le> i" "i < e" for i
      using that t nth_mem [of "i - q" "takeWhile word_char (drop q b)"] e(5) assms(2)
      by (simp add: takeWhile_nth) (metis set_takeWhileD takeWhile_nth add.commute le_add_diff_inverse2 less_diff_conv2 nth_drop nth_mem)
    moreover have "\<not> word_char (b ! e)" if "e < length b"
      using nth_length_takeWhile [of word_char "drop q b"] t that by simp
    moreover have "b ! i \<noteq> nul" if "i < e" for i
      using that e(5) assms(2) \<open>nul \<notin> set b\<close> by (metis nth_mem order_less_le_trans)
    ultimately have "span_ok b w"
      using e(4,5) c(1) assms(2) by (auto simp: span_ok_def w)
    then show ?thesis
      using le len e(1,2) scan_le [of s is_ws b] scan_le [of e is_ws b] by (simp add: between_def apart_def w)
  qed
qed

lemma peek_between: "peek b s toks = (x, s1) \<Longrightarrow> s \<le> length b \<Longrightarrow> s \<le> s1 \<and> s1 \<le> length b"
  by (auto simp: peek_eq scan_le scan_len)

lemma set_upd_exec: "set_cmd (upd_exec w c) \<subseteq> insert w (set_cmd c)"
  by (induction w c rule: upd_exec.induct) auto

lemma between_subset: "between b lo hi A \<Longrightarrow> B \<subseteq> A \<Longrightarrow> between b lo hi B"
  unfolding between_def apart_def by blast

lemma between_word:
  assumes "between b lo s (set_cmd cmd)" "gettoken b s = (CHR ''a'', w, s')" "nul \<notin> set b"
  shows "between b lo s' (insert w (set_cmd cmd))"
proof -
  have "s \<le> length b" using assms(1) by (simp add: between_def)
  then have "between b s s' {w}" using gettoken_between(3) [OF assms(2)] assms(3) by simp
  from between_Un [OF assms(1) this] show ?thesis by simp
qed

lemma between_peek: "between b lo s A \<Longrightarrow> peek b s toks = (x, s1) \<Longrightarrow> between b lo s1 A"
  using peek_between [of b s toks x s1] between_wider [of b lo s A s1] by (simp add: between_def)

lemma between_token: "between b lo s A \<Longrightarrow> between b lo (snd (snd (gettoken b s))) A"
  using gettoken_between(1,2) [of b s] between_wider [of b lo s A "snd (snd (gettoken b s))"]
  by (metis between_def prod.collapse)

lemma parseredirs_between:
  assumes "parseredirs f cmd b s = Inr (c', s')" "between b lo s (set_cmd cmd)" "nul \<notin> set b"
  shows "between b lo s' (set_cmd c')"
  using assms(1,2)
proof (induction f arbitrary: cmd s)
  case (Suc f)
  obtain more s1 where p: "peek b s ''<>'' = (more, s1)" by fastforce
  note b1 = between_peek [OF Suc.prems(2) p]
  obtain tok w1 s2 where g1: "gettoken b s1 = (tok, w1, s2)" by (metis prod_cases3)
  have b2: "between b lo s2 (set_cmd cmd)" using between_token [OF b1] g1 by simp
  obtain word w s3 where g2: "gettoken b s2 = (word, w, s3)" by (metis prod_cases3)
  show ?case
  proof (cases "more \<and> word = CHR ''a''")
    case True
    then have b3: "between b lo s3 (insert w (set_cmd cmd))"
      using between_word [OF b2 _ assms(3)] g2 by simp
    then have "between b lo s3 (set_cmd cmd)" by (rule between_subset) blast
    with b3 show ?thesis using Suc.prems(1) True p g1 g2 by (auto split: if_splits intro: Suc.IH)
  next
    case False
    then show ?thesis using Suc.prems(1) b1 p g1 g2 by (auto split: if_splits)
  qed
qed simp

lemma parse_args_between:
  assumes "parse_args f argc ret b s = Inr (c', s')" "between b lo s (set_cmd ret)" "nul \<notin> set b"
  shows "between b lo s' (set_cmd c')"
  using assms(1,2)
proof (induction f arbitrary: argc ret s)
  case (Suc f)
  obtain fin s1 where p: "peek b s ''|)&;'' = (fin, s1)" by fastforce
  note b1 = between_peek [OF Suc.prems(2) p]
  obtain tok w s2 where g: "gettoken b s1 = (tok, w, s2)" by (metis prod_cases3)
  have b2: "between b lo s2 (set_cmd ret)" using between_token [OF b1] g by simp
  show ?case
  proof (cases "\<not> fin \<and> tok = CHR ''a''")
    case True
    then have "between b lo s2 (insert w (set_cmd ret))"
      using between_word [OF b1 _ assms(3)] g by simp
    then have b3: "between b lo s2 (set_cmd (upd_exec w ret))" using set_upd_exec by (rule between_subset)
    obtain r3 s3 where "parseredirs f (upd_exec w ret) b s2 = Inr (r3, s3)" "parse_args f (argc + 1) r3 b s3 = Inr (c', s')"
      using Suc.prems(1) True p g by (auto simp: bindr_eq_Inr split: if_splits)
    then show ?thesis using parseredirs_between [OF _ b3 assms(3)] Suc.IH by blast
  next
    case False
    then show ?thesis using Suc.prems(1) b1 b2 p g by (auto split: if_splits)
  qed
qed simp

lemma parse_backs_between:
  assumes "parse_backs f cmd b s = Inr (c', s')" "between b lo s (set_cmd cmd)"
  shows "between b lo s' (set_cmd c')"
  using assms
proof (induction f arbitrary: cmd s)
  case (Suc f)
  obtain more s1 where p: "peek b s ''&'' = (more, s1)" by fastforce
  note b1 = between_peek [OF Suc.prems(2) p]
  then have "between b lo (snd (snd (gettoken b s1))) (set_cmd (BACK cmd))" using between_token [OF b1] by simp
  then show ?case using Suc.IH [of "BACK cmd"] Suc.prems(1) p b1 by (auto split: if_splits)
qed simp

lemma parsers_between:
  assumes "nul \<notin> set b"
  shows "parseline f b s = Inr (c, s') \<Longrightarrow> s \<le> length b \<Longrightarrow> between b s s' (set_cmd c)"
    and "parsepipe f b s = Inr (c, s') \<Longrightarrow> s \<le> length b \<Longrightarrow> between b s s' (set_cmd c)"
    and "parseexec f b s = Inr (c, s') \<Longrightarrow> s \<le> length b \<Longrightarrow> between b s s' (set_cmd c)"
    and "parseblock f b s = Inr (c, s') \<Longrightarrow> s \<le> length b \<Longrightarrow> between b s s' (set_cmd c)"
proof (induction f arbitrary: s c s')
  case (Suc f)
  note IH = Suc.IH
  have tail: "between b s s' (set_cmd c1 \<union> set_cmd c2)"
    if "between b s s1 (set_cmd c1)" "peek b s1 toks = (True, s2)"
      "m (snd (snd (gettoken b s2))) = Inr (c2, s')"
      "\<And>u. u \<le> length b \<Longrightarrow> m u = Inr (c2, s') \<Longrightarrow> between b u s' (set_cmd c2)" for s s1 s2 s' c1 c2 toks m
  proof -
    let ?u = "snd (snd (gettoken b s2))"
    have "between b s ?u (set_cmd c1)" by (rule between_token [OF between_peek [OF that(1,2)]])
    moreover from this have "?u \<le> length b" by (simp add: between_def)
    then have "between b ?u s' (set_cmd c2)" using that(3) by (rule that(4))
    ultimately show ?thesis by (rule between_Un)
  qed
  {
    case 1
    obtain c1 s1 c2 s2 where c: "parsepipe f b s = Inr (c1, s1)" "parse_backs f c1 b s1 = Inr (c2, s2)"
      using 1(1) by (auto simp: bindr_eq_Inr)
    have b2: "between b s s2 (set_cmd c2)"
      using parse_backs_between [OF c(2)] IH(2) [OF c(1) 1(2)] by blast
    obtain more s3 where p: "peek b s2 '';'' = (more, s3)" by fastforce
    show ?case
    proof (cases more)
      case True
      then obtain r where "parseline f b (snd (snd (gettoken b s3))) = Inr (r, s')" "c = LIST c2 r"
        using 1(1) c p by (auto simp: bindr_eq_Inr)
      then show ?thesis using tail [OF b2, of "'';''" s3 "parseline f b"] p True IH(1) by simp
    next
      case False
      then show ?thesis using 1(1) c p between_peek [OF b2 p] by (simp add: bindr_eq_Inr)
    qed
  next
    case 2
    obtain c1 s1 where c: "parseexec f b s = Inr (c1, s1)" using 2(1) by (auto simp: bindr_eq_Inr)
    note b1 = IH(3) [OF c 2(2)]
    obtain more s2 where p: "peek b s1 ''|'' = (more, s2)" by fastforce
    show ?case
    proof (cases more)
      case True
      then obtain r where "parsepipe f b (snd (snd (gettoken b s2))) = Inr (r, s')" "c = PIPE c1 r"
        using 2(1) c p by (auto simp: bindr_eq_Inr)
      then show ?thesis using tail [OF b1, of "''|''" s2 "parsepipe f b"] p True IH(2) by simp
    next
      case False
      then show ?thesis using 2(1) c p between_peek [OF b1 p] by (simp add: bindr_eq_Inr)
    qed
  next
    case 3
    obtain more s1 where p: "peek b s ''('' = (more, s1)" by fastforce
    have b0: "between b s s1 {}" using peek_between [OF p 3(2)] by simp
    show ?case
    proof (cases more)
      case True
      then have "between b s1 s' (set_cmd c)" using 3(1) p b0 IH(4) by simp
      then show ?thesis using between_Un [OF b0] by fastforce
    next
      case False
      then obtain r s2 where "parseredirs f (EXEC []) b s1 = Inr (r, s2)" "parse_args f 0 r b s2 = Inr (c, s')"
        using 3(1) p by (auto simp: bindr_eq_Inr)
      then show ?thesis
        using parseredirs_between [of f "EXEC []" b s1 r s2 s] parse_args_between b0 assms by simp
    qed
  next
    case 4
    obtain more s1 where p: "peek b s ''('' = (more, s1)" by fastforce
    let ?u = "snd (snd (gettoken b s1))"
    obtain c1 s2 where l: "parseline f b ?u = Inr (c1, s2)"
      using 4(1) p by (auto simp: bindr_eq_Inr split: if_splits)
    obtain closed s3 where "peek b s2 '')'' = (closed, s3)" by fastforce
    with l have c: "parseline f b ?u = Inr (c1, s2)" "peek b s2 '')'' = (True, s3)"
        "parseredirs f c1 b (snd (snd (gettoken b s3))) = Inr (c, s')"
      using 4(1) p by (auto split: if_splits)
    have "between b s ?u {}" using peek_between [OF p 4(2)] by (intro between_token) simp
    moreover from this have "between b ?u s2 (set_cmd c1)" using c(1) IH(1) by simp
    ultimately have "between b s s2 (set_cmd c1)" using between_Un [of b s ?u "{}"] by fastforce
    from parseredirs_between [OF c(3) between_token [OF between_peek [OF this c(2)]] assms]
    show ?case .
  }
qed simp_all

section \<open>Terminating the words\<close>

text \<open>The cells that nulterminate clears are those after the words.\<close>

lemma length_nulterminate [simp]: "length (nulterminate c b) = length b"
proof -
  have "length (fold (\<lambda>(q, e) b. b[e := nul]) ws b) = length b" for ws :: "span list" and b
    by (induction ws arbitrary: b) auto
  then show ?thesis by (induction c b rule: nulterminate.induct) auto
qed

lemma nth_nulterminate:
  "i < length b \<Longrightarrow> nulterminate c b ! i = (if i \<in> snd ` set_cmd c then nul else b ! i)"
proof (induction c b arbitrary: i rule: nulterminate.induct)
  case (1 ws b)
  then show ?case
  proof (induction ws arbitrary: b)
    case (Cons w ws)
    then show ?case by (cases "i = snd w") (auto simp: split_def)
  qed simp
next
  case (2 c q eq m d b)
  then show ?case by (cases "i = eq") auto
qed auto

lemma str_at_eq:
  assumes "q + n \<le> length b" "\<forall>i < n. b ! (q + i) = xs ! i \<and> xs ! i \<noteq> nul" "length xs = n"
    "q + n < length b \<longrightarrow> b ! (q + n) = nul"
  shows "str_at b q = xs"
proof -
  have "take n (drop q b) = xs" using assms(1-3) by (intro nth_equalityI) auto
  then have "drop q b = xs @ drop (q + n) b" using append_take_drop_id [of n "drop q b"] by (simp add: add.commute)
  moreover have "drop (q + n) b = [] \<or> hd (drop (q + n) b) = nul"
    using assms(4) by (cases "q + n < length b") (simp_all add: hd_drop_conv_nth)
  moreover have "\<forall>c \<in> set xs. c \<noteq> nul" using assms(2,3) by (auto simp: in_set_conv_nth)
  ultimately show ?thesis by (cases "drop (q + n) b") (simp_all add: str_at_def takeWhile_tail)
qed

lemma nulterminate_words:
  assumes "between b 0 hi (set_cmd c)" "(q, e) \<in> set_cmd c"
  shows "str_at (nulterminate c b) q = sub b (q, e)"
proof -
  have ok: "span_ok b (q, e)" using assms unfolding between_def by auto
  have "snd w \<le> q \<or> e \<le> snd w" if "w \<in> set_cmd c" for w
  proof -
    obtain q' e' where w: "w = (q', e')" by fastforce
    have "span_ok b (q', e')" using assms(1) that w unfolding between_def by auto
    moreover have "(q, e) = (q', e') \<or> e \<le> q' \<or> e' \<le> q"
      using assms that w unfolding between_def apart_def by blast
    ultimately show ?thesis using w by (auto simp: span_ok_def)
  qed
  moreover have "e' \<noteq> q" if "(q', e') \<in> set_cmd c" for q' e'
    using assms(1) that ok unfolding between_def span_ok_def by auto
  ultimately have free: "i \<notin> snd ` set_cmd c" if "q \<le> i" "i < e" for i
    using that by fastforce
  have e: "q < e" "e \<le> length b" "\<forall>i. q \<le> i \<and> i < e \<longrightarrow> b ! i \<noteq> nul" using ok by (auto simp: span_ok_def)
  show ?thesis
  proof (rule str_at_eq [of _ "e - q"])
    show "\<forall>i<e - q. nulterminate c b ! (q + i) = sub b (q, e) ! i \<and> sub b (q, e) ! i \<noteq> nul"
      using e free by (auto simp: nth_nulterminate sub_def)
    show "q + (e - q) < length (nulterminate c b) \<longrightarrow> nulterminate c b ! (q + (e - q)) = nul"
      using e assms(2) by (force simp: nth_nulterminate)
  qed (use e in \<open>auto simp: sub_def\<close>)
qed



text \<open>
  C29. The shell's parser always comes to an end: on every line it returns a command or reports an
  error, it never runs out of fuel; and the parse of a line without NUL ends inside the line.
\<close>
theorem parsecmd_terminates:
  "parsecmd b \<noteq> Inl Spin \<and>
   (\<forall>c s. nul \<notin> set b \<and> parseline (parse_fuel b) b 0 = Inr (c, s) \<longrightarrow> s \<le> length b)"
proof
  have "bindr m (\<lambda>(cmd, s). let s = snd (peek b s '''') in if s \<noteq> length b then Inl (Panic ''syntax'')
      else Inr (cmd, nulterminate cmd b)) \<noteq> Inl Spin" if "m \<noteq> Inl Spin" for m
    using that by (cases m) (auto simp: Let_def split: if_splits)
  then show "parsecmd b \<noteq> Inl Spin" using parse_line_returns [of b] by (simp add: parsecmd_def)
  show "\<forall>c s. nul \<notin> set b \<and> parseline (parse_fuel b) b 0 = Inr (c, s) \<longrightarrow> s \<le> length b"
    using parsers_between(1) [of b _ 0] by (auto simp: between_def)
qed

theorem parsecmd_terminates_witness:
  "parsecmd ''(a'' \<noteq> Inl Spin" using parsecmd_terminates [of "''(a''"] by blast

end
