(* ===== verification/ShellPrint.thy ===== *)
theory ShellPrint
  imports Shell
begin

text \<open>
  The grammar of the shell: a printer for command trees, and the proof that the parser of sh.c
  reads back what it prints. Subcommands other than plain and redirected ones are put in
  parentheses, which the parser accepts and which leave no trace in the tree.
\<close>

section \<open>Definitions\<close>

definition word_ok :: "string \<Rightarrow> bool" where
  "word_ok w \<longleftrightarrow> w \<noteq> [] \<and> (\<forall>c \<in> set w. word_char c \<and> c \<noteq> nul)"

type_synonym 'w redir = "'w \<times> int \<times> int"

definition redir_ok :: "string redir \<Rightarrow> bool" where
  "redir_ok = (\<lambda>(w, m, d). word_ok w \<and> (m, d) \<in> {(O_RDONLY, 0), (O_WRONLY OR O_CREATE, 1)})"

definition redir_text :: "string redir \<Rightarrow> string" where
  "redir_text = (\<lambda>(w, m, d). (if d = 0 then '' <'' else '' >'') @ w)"

definition words_text :: "string list \<Rightarrow> string" where
  "words_text ws = concat (map (\<lambda>w. CHR '' '' # w) ws)"

fun is_item :: "'w cmd \<Rightarrow> bool" where
  "is_item (EXEC ws) = True"
| "is_item (REDIR c w m d) = True"
| "is_item c = False"

definition paren :: "'w cmd \<Rightarrow> string \<Rightarrow> string" where
  "paren c s = (if is_item c then s else ''('' @ s @ '')'')"

fun show_cmd :: "string cmd \<Rightarrow> string" where
  "show_cmd (EXEC ws) = words_text ws"
| "show_cmd (REDIR c w m d) = paren c (show_cmd c) @ redir_text (w, m, d)"
| "show_cmd (PIPE l r) = paren l (show_cmd l) @ ''|'' @ paren r (show_cmd r)"
| "show_cmd (LIST l r) = paren l (show_cmd l) @ '';'' @ paren r (show_cmd r)"
| "show_cmd (BACK c) = paren c (show_cmd c) @ ''&''"

fun wf_cmd :: "string cmd \<Rightarrow> bool" where
  "wf_cmd (EXEC ws) \<longleftrightarrow> length ws < MAXARGS \<and> list_all word_ok ws"
| "wf_cmd (REDIR c w m d) \<longleftrightarrow> wf_cmd c \<and> redir_ok (w, m, d)"
| "wf_cmd (PIPE l r) \<longleftrightarrow> wf_cmd l \<and> wf_cmd r"
| "wf_cmd (LIST l r) \<longleftrightarrow> wf_cmd l \<and> wf_cmd r"
| "wf_cmd (BACK c) \<longleftrightarrow> wf_cmd c"

section \<open>Items: a command or a block, and its redirections\<close>

declare dropWhile_eq_Nil_conv [simp del]

abbreviation strip :: "string \<Rightarrow> string" where "strip \<equiv> dropWhile is_ws"

definition wrap :: "'w cmd \<Rightarrow> 'w redir list \<Rightarrow> 'w cmd" where
  "wrap = foldl (\<lambda>c (w, m, d). REDIR c w m d)"

fun base :: "'w cmd \<Rightarrow> 'w cmd" where
  "base (REDIR c w m d) = base c"
| "base c = c"

fun redirs :: "'w cmd \<Rightarrow> 'w redir list" where
  "redirs (REDIR c w m d) = redirs c @ [(w, m, d)]"
| "redirs c = []"

definition redirs_text :: "string redir list \<Rightarrow> string" where
  "redirs_text rs = concat (map redir_text rs)"

lemma wrap_base: "wrap (base c) (redirs c) = c"
  by (induction c rule: base.induct) (simp_all add: wrap_def)

lemma base_not_redir: "base c \<noteq> REDIR c' w m d"
  by (induction c rule: base.induct) auto

lemma item_text:
  "paren c (show_cmd c) = paren (base c) (show_cmd (base c)) @ redirs_text (redirs c)"
  by (induction c rule: base.induct) (simp_all add: redirs_text_def paren_def)

lemma item_wf: "wf_cmd c \<Longrightarrow> wf_cmd (base c) \<and> list_all redir_ok (redirs c)"
  by (induction c rule: base.induct) auto

lemma base_size: "size (base c) \<le> size c" "redirs c \<noteq> [] \<Longrightarrow> size (base c) < size c"
  by (induction c rule: base.induct) auto

definition words_of :: "string \<Rightarrow> span redir \<Rightarrow> string redir" where
  "words_of b = (\<lambda>(w, m, d). (sub b w, m, d))"

lemma map_wrap: "map_cmd (sub b) (wrap c rs) = wrap (map_cmd (sub b) c) (map (words_of b) rs)"
  by (induction rs arbitrary: c) (auto simp: wrap_def words_of_def)

section \<open>Reading back\<close>

text \<open>\<open>yields b m c r\<close>: the parser returned a tree for \<open>c\<close> and stopped before \<open>r\<close>.\<close>

definition yields :: "string \<Rightarrow> (span cmd \<times> nat) res \<Rightarrow> string cmd \<Rightarrow> string \<Rightarrow> bool" where
  "yields b m c r \<longleftrightarrow> (\<exists>c' s'. m = Inr (c', s') \<and> map_cmd (sub b) c' = c \<and> rest b s' = strip r)"

definition stops :: "string \<Rightarrow> string \<Rightarrow> bool" where
  "stops toks r \<longleftrightarrow> strip r = [] \<or> hd (strip r) \<in> set toks"

lemma delims:
  "\<not> word_char (CHR '' '')" "is_ws (CHR '' '')" "\<not> is_ws nul"
  "c \<in> set ''|)&;(<>'' \<Longrightarrow> \<not> is_ws c \<and> \<not> word_char c \<and> c \<noteq> nul"
  by (auto simp: word_char_iff is_ws_def whitespace_def symbols_def)

lemma stops_head:
  assumes "stops ''|)&;'' r" shows "r = [] \<or> \<not> word_char (hd r)"
proof (cases r)
  case (Cons c r')
  show ?thesis
  proof (cases "is_ws c")
    case False
    then have "c \<in> set ''|)&;''" using assms Cons by (simp add: stops_def)
    then show ?thesis using Cons delims(4) [of c] by auto
  qed (simp add: Cons word_char_def)
qed simp

lemma word_ok_cons: "word_ok w \<Longrightarrow> \<exists>c w'. w = c # w' \<and> word_char c \<and> c \<noteq> nul \<and> \<not> is_ws c"
  by (cases w) (auto simp: word_ok_def word_char_def)

lemma strip_word: "word_ok w \<Longrightarrow> strip (w @ r) = w @ r"
  using word_ok_cons by force

lemma redirs_text_Cons: "redirs_text (x # rs) = redir_text x @ redirs_text rs"
  by (simp add: redirs_text_def)

lemma redirs_head:
  "r = [] \<or> \<not> word_char (hd r) \<Longrightarrow> redirs_text rs @ r = [] \<or> \<not> word_char (hd (redirs_text rs @ r))"
  by (cases rs) (auto simp: redirs_text_def redir_text_def delims split: prod.splits)

lemma read_word:
  assumes "rest b s = w @ r" "word_ok w" "r = [] \<or> \<not> word_char (hd r)"
  obtains q e s' where "gettoken b s = (CHR ''a'', (q, e), s')" "sub b (q, e) = w" "rest b s' = strip r"
  using gettoken_word [of b s w r] assms by (auto simp: word_ok_def)

lemma read_redirs:
  assumes "rest b s = strip (redirs_text rs @ r)" "list_all redir_ok rs" "stops ''|)&;'' r \<or> strip r = []
      \<or> word_char (hd (strip r)) \<and> (r = [] \<or> \<not> word_char (hd r))"
    and "length (rest b s) < f"
  shows "\<exists>rs' s'. parseredirs f cmd b s = Inr (wrap cmd rs', s') \<and> map (words_of b) rs' = rs \<and> rest b s' = strip r"
  using assms(1,2,4)
proof (induction rs arbitrary: f cmd s)
  case Nil
  have "\<not> fst (peek b s ''<>'')"
  proof (cases "strip r")
    case (Cons c r')
    then have "c \<noteq> CHR ''<''" "c \<noteq> CHR ''>''"
      using assms(3) by (auto simp: stops_def word_char_iff symbols_def)
    then show ?thesis using Cons Nil by (simp add: peek_eq redirs_text_def)
  qed (use Nil in \<open>simp add: peek_eq redirs_text_def del: dropWhile_eq_Nil_conv\<close>)
  then show ?case
    using Nil by (cases f) (auto simp: peek_eq wrap_def redirs_text_def split_def)
next
  case (Cons x rs)
  obtain w m d where x: "x = (w, m, d)" by (cases x)
  have w: "word_ok w" and md: "m = O_RDONLY \<and> d = 0 \<or> m = (O_WRONLY OR O_CREATE) \<and> d = 1"
    using Cons.prems(2) x by (auto simp: redir_ok_def)
  define c where "c = (if d = 0 then CHR ''<'' else CHR ''>'')"
  have c: "c \<in> set ''<>''" "\<not> is_ws c" "c \<noteq> nul" using delims(4) [of c] by (auto simp: c_def)
  have r0: "rest b s = c # w @ redirs_text rs @ r"
    using Cons.prems(1) x delims(2) c(2) by (cases "d = 0") (simp_all add: redirs_text_Cons redir_text_def c_def)
  obtain s1 where p: "peek b s ''<>'' = (True, s1)" "rest b s1 = rest b s"
    using r0 c by (auto simp: peek_eq)
  obtain tok w1 s2 where g1: "gettoken b s1 = (tok, w1, s2)" by (metis prod_cases3)
  have "hd (w @ redirs_text rs @ r) \<noteq> CHR ''>''"
    using word_ok_cons [OF w] by (auto simp: word_char_iff symbols_def)
  then have t1: "tok = c" "rest b s2 = w @ redirs_text rs @ r"
    using gettoken_sym [of b s1 c] gettoken_gt [of b s1] r0 p g1 w strip_word [OF w] by (auto simp: c_def split: if_splits)
  have "r = [] \<or> \<not> word_char (hd r)"
    using assms(3) stops_head [of r] by (cases "r = []") (auto simp: stops_def)
  from read_word [OF t1(2) w redirs_head [OF this]] obtain q e s3 where
    g2: "gettoken b s2 = (CHR ''a'', (q, e), s3)" "sub b (q, e) = w" "rest b s3 = strip (redirs_text rs @ r)" by metis
  obtain f' where f: "f = Suc f'" using Cons.prems(3) by (cases f) auto
  have "length (rest b s3) < f'"
    using Cons.prems(3) f g2(3) r0 length_dropWhile_le [of is_ws "redirs_text rs @ r"] by simp
  from Cons.IH [OF g2(3) _ this, of "REDIR cmd (q, e) m d"] Cons.prems(2) obtain rs' s' where
    "parseredirs f' (REDIR cmd (q, e) m d) b s3 = Inr (wrap (REDIR cmd (q, e) m d) rs', s')"
    "map (words_of b) rs' = rs" "rest b s' = strip r" by auto
  then show ?case
    using p g1 g2(1,2) t1(1) md x f
    by (intro exI [of _ "((q, e), m, d) # rs'"] exI [of _ s']) (auto simp: wrap_def words_of_def c_def)
qed

text \<open>The arguments, with the redirections after the last of them.\<close>

lemma parse_args_stop:
  assumes "rest b s = strip r" "stops ''|)&;'' r" "0 < f"
  shows "\<exists>s'. parse_args f argc ret b s = Inr (ret, s') \<and> rest b s' = strip r"
proof -
  obtain f' where f: "f = Suc f'" using assms(3) by (cases f) auto
  show ?thesis
  proof (cases "rest b s")
    case (Cons c r')
    then have "c \<in> set ''|)&;''" using assms(1,2) by (simp add: stops_def)
    then have "peek b s ''|)&;'' = (True, scan is_ws b s)" using Cons delims(4) [of c] by (auto simp: peek_eq)
    then show ?thesis using assms(1) f by (intro exI [of _ "scan is_ws b s"]) simp
  next
    case Nil
    obtain t w s' where g: "gettoken b (scan is_ws b s) = (t, w, s')" by (metis prod_cases3)
    then have "t = nul" "rest b s' = []"
      using Nil gettoken_nil [of b "scan is_ws b s"] gettoken_le [of b "scan is_ws b s"] by auto
    with g Nil f assms(1) show ?thesis by (intro exI [of _ s']) (simp add: peek_eq)
  qed
qed

lemma read_args:
  assumes "rest b s = strip (words_text ws @ redirs_text rs @ r)" "list_all word_ok ws" "list_all redir_ok rs"
    and "ws \<noteq> [] \<or> rs = []" "stops ''|)&;'' r" "argc + length ws < MAXARGS" "length (rest b s) < f"
  shows "\<exists>ws' rs' s'. parse_args f argc (EXEC as) b s = Inr (wrap (EXEC (as @ ws')) rs', s') \<and>
    map (sub b) ws' = ws \<and> map (words_of b) rs' = rs \<and> rest b s' = strip r"
  using assms(1,2,4,6,7)
proof (induction ws arbitrary: f argc as s)
  case Nil
  then have r: "rest b s = strip r" "rs = []" by (simp_all add: words_text_def redirs_text_def)
  obtain s' where "parse_args f argc (EXEC as) b s = Inr (EXEC as, s')" "rest b s' = strip r"
    using parse_args_stop [OF r(1) assms(5), of f argc "EXEC as"] Nil.prems(5) by (metis gr_implies_not0 neq0_conv)
  then show ?case using r(2) by (intro exI [of _ "[]"] exI [of _ s']) (simp add: wrap_def)
next
  case (Cons w ws)
  have w: "word_ok w" and ws: "list_all word_ok ws" using Cons.prems(2) by simp_all
  let ?r = "words_text ws @ redirs_text rs @ r" and ?ret = "\<lambda>w'. EXEC (as @ [w'])"
  have r0: "rest b s = w @ ?r"
    using Cons.prems(1) strip_word [OF w] delims(2) by (simp add: words_text_def)
  obtain c w' where c: "w = c # w'" "word_char c" "c \<noteq> nul" using word_ok_cons [OF w] by blast
  have pk: "peek b s ''|)&;'' = (False, scan is_ws b s)"
    using r0 c by (auto simp: peek_eq word_char_iff symbols_def)
  have tail: "?r = [] \<or> \<not> word_char (hd ?r)"
    using redirs_head [OF stops_head [OF assms(5)], of rs] delims(1) by (cases ws) (auto simp: words_text_def)
  have "rest b (scan is_ws b s) = w @ ?r" using r0 by simp
  from read_word [OF this w tail] obtain q e s2 where
    g: "gettoken b (scan is_ws b s) = (CHR ''a'', (q, e), s2)" "sub b (q, e) = w" "rest b s2 = strip ?r" by metis
  obtain f' where f: "f = Suc f'" using Cons.prems(5) by (cases f) auto
  have l2: "length (rest b s2) < f'"
    using Cons.prems(5) f g(3) r0 c(1) length_dropWhile_le [of is_ws ?r] by simp
  have step: "parse_args f argc (EXEC as) b s =
      bindr (parseredirs f' (?ret (q, e)) b s2) (\<lambda>(ret, s). parse_args f' (argc + 1) ret b s)"
    using pk g(1) f Cons.prems(4) by (simp add: Let_def)
  show ?case
  proof (cases ws)
    case Nil
    then have "rest b s2 = strip (redirs_text rs @ r)" using g(3) by (simp add: words_text_def)
    from read_redirs [OF this assms(3) _ l2, of "?ret (q, e)"] assms(5) obtain rs' s3 where
      red: "parseredirs f' (?ret (q, e)) b s2 = Inr (wrap (?ret (q, e)) rs', s3)"
        "map (words_of b) rs' = rs" "rest b s3 = strip r" by auto
    from parse_args_stop [OF red(3) assms(5)] l2 obtain s4 where
      "parse_args f' (argc + 1) (wrap (?ret (q, e)) rs') b s3 = Inr (wrap (?ret (q, e)) rs', s4)" "rest b s4 = strip r"
      by (metis gr_implies_not0 neq0_conv)
    then show ?thesis
      using step red g(2) Nil by (intro exI [of _ "[(q, e)]"] exI [of _ rs'] exI [of _ s4]) simp
  next
    case two: (Cons w2 ws2)
    have w2: "word_ok w2" using ws two by simp
    have "strip ?r = w2 @ words_text ws2 @ redirs_text rs @ r" "\<not> word_char (hd ?r)"
      using two strip_word [OF w2] delims(1,2) by (simp_all add: words_text_def)
    moreover from this have "word_char (hd (strip ?r))" using word_ok_cons [OF w2] by auto
    ultimately obtain s3 where
      red: "parseredirs f' (?ret (q, e)) b s2 = Inr (?ret (q, e), s3)" "rest b s3 = strip ?r"
      using read_redirs [of b s2 "[]" ?r f' "?ret (q, e)"] g(3) l2 by (auto simp: redirs_text_def wrap_def)
    have "length (rest b s3) < f'" using red(2) g(3) l2 by simp
    then obtain ws' rs' s4 where
      "parse_args f' (argc + 1) (?ret (q, e)) b s3 = Inr (wrap (EXEC ((as @ [(q, e)]) @ ws')) rs', s4)"
      "map (sub b) ws' = ws" "map (words_of b) rs' = rs" "rest b s4 = strip r"
      using Cons.IH [OF red(2) ws, of "argc + 1" f' "as @ [(q, e)]"] Cons.prems(4) two by auto
    then show ?thesis
      using step red(1) g(2) by (intro exI [of _ "(q, e) # ws'"] exI [of _ rs'] exI [of _ s4]) simp
  qed
qed

text \<open>
  What the parsers do on an item and on a line. \<open>item_reads c\<close> and \<open>line_reads c\<close> are the two
  statements that the induction over the command carries.
\<close>

definition item_reads :: "string cmd \<Rightarrow> bool" where
  "item_reads c \<longleftrightarrow> (\<forall>b s r f. rest b s = strip (paren c (show_cmd c) @ r) \<longrightarrow> stops ''|)&;'' r \<longrightarrow>
     4 * length (rest b s) + 1 < f \<longrightarrow> yields b (parseexec f b s) c r)"

definition line_reads :: "string cmd \<Rightarrow> bool" where
  "line_reads c \<longleftrightarrow> (\<forall>b s r f. rest b s = strip (show_cmd c @ r) \<longrightarrow> stops '')'' r \<longrightarrow>
     4 * length (rest b s) + 3 < f \<longrightarrow> yields b (parseline f b s) c r)"

lemmas item_readsD = item_reads_def [THEN iffD1, rule_format]
lemmas line_readsD = line_reads_def [THEN iffD1, rule_format]

lemma yieldsE:
  assumes "yields b m c r"
  obtains c' s' where "m = Inr (c', s')" "map_cmd (sub b) c' = c" "rest b s' = strip r"
  using assms by (auto simp: yields_def)

lemma peek_no:
  assumes "rest b s = strip r" "stops toks r" "set toks \<inter> set toks' = {}"
  shows "peek b s toks' = (False, scan is_ws b s)"
  using assms by (cases "strip r") (auto simp: peek_eq stops_def)

lemma peek_yes:
  assumes "rest b s = c # r" "c \<in> set toks" "c \<noteq> nul"
  shows "peek b s toks = (True, scan is_ws b s)"
  using assms by (simp add: peek_eq)

lemma stops_mono: "stops toks r \<Longrightarrow> set toks \<subseteq> set toks' \<Longrightarrow> stops toks' r"
  by (auto simp: stops_def)

lemma stops_sym: "c \<in> set ''|)&;'' \<Longrightarrow> c \<in> set toks \<Longrightarrow> stops toks (c # r)"
  using delims(4) [of c] by (auto simp: stops_def)

lemma strip_sym: "c \<in> set ''|)&;('' \<Longrightarrow> strip (c # r) = c # r"
  using delims(4) [of c] by auto

text \<open>Plain commands.\<close>

lemma item_head:
  assumes "list_all word_ok ws" "stops ''|)&;'' r"
  shows "strip (words_text ws @ redirs_text rs @ r) = [] \<or> hd (strip (words_text ws @ redirs_text rs @ r)) \<noteq> CHR ''(''"
proof (cases ws)
  case (Cons w ws1)
  then show ?thesis
    using assms(1) strip_word [of w] word_ok_cons [of w] delims(2)
    by (auto simp: words_text_def word_char_iff symbols_def)
next
  case ws: Nil
  show ?thesis
  proof (cases rs)
    case (Cons x rs1)
    then show ?thesis
      using ws delims(2,4) by (auto simp: words_text_def redirs_text_def redir_text_def split: prod.splits)
  qed (use ws assms(2) in \<open>auto simp: words_text_def redirs_text_def stops_def\<close>)
qed

lemma exec_reads:
  assumes "base c = EXEC ws" "wf_cmd c"
  shows "item_reads c"
  unfolding item_reads_def
proof (intro allI impI)
  fix b s r f assume a: "rest b s = strip (paren c (show_cmd c) @ r)" "stops ''|)&;'' r" "4 * length (rest b s) + 1 < f"
  obtain f' where f: "f = Suc f'" "length (rest b s) < f'" using a(3) by (cases f) auto
  let ?s = "scan is_ws b s"
  define rs where "rs = redirs c"
  have c: "c = wrap (EXEC ws) rs" using wrap_base [of c] assms(1) by (simp add: rs_def)
  have ok: "list_all word_ok ws" "length ws < MAXARGS" "list_all redir_ok rs"
    using item_wf [OF assms(2)] assms(1) by (auto simp: rs_def)
  have r0: "rest b ?s = strip (words_text ws @ redirs_text rs @ r)"
    using a(1) item_text [of c] assms(1) by (simp add: rs_def paren_def)
  have nb: "peek b s ''('' = (False, ?s)"
    using item_head [OF ok(1) a(2), of rs] r0 by (cases "strip (words_text ws @ redirs_text rs @ r)") (auto simp: peek_eq)
  show "yields b (parseexec f b s) c r"
  proof (cases "ws = []")
    case True
    then have "rest b ?s = strip (redirs_text rs @ r)" using r0 by (simp add: words_text_def)
    from read_redirs [OF this ok(3), of f' "EXEC []"] a(2) f obtain rs' s1 where
      red: "parseredirs f' (EXEC []) b ?s = Inr (wrap (EXEC []) rs', s1)" "map (words_of b) rs' = rs" "rest b s1 = strip r"
      by auto
    from parse_args_stop [OF red(3) a(2), of f' 0 "wrap (EXEC []) rs'"] f obtain s2 where
      "parse_args f' 0 (wrap (EXEC []) rs') b s1 = Inr (wrap (EXEC []) rs', s2)" "rest b s2 = strip r" by auto
    then show ?thesis using nb red f True by (simp add: yields_def c map_wrap)
  next
    case False
    then obtain w ws1 where ws: "ws = w # ws1" "word_ok w" using ok(1) by (cases ws) auto
    let ?r = "words_text ws @ redirs_text rs @ r"
    have st: "strip ?r = w @ words_text ws1 @ redirs_text rs @ r" "\<not> word_char (hd ?r)" "?r \<noteq> []"
      using ws strip_word [OF ws(2)] delims(1,2) by (simp_all add: words_text_def)
    then have "word_char (hd (strip ?r))" using word_ok_cons [OF ws(2)] by auto
    with st obtain s1 where red: "parseredirs f' (EXEC []) b ?s = Inr (EXEC [], s1)" "rest b s1 = strip ?r"
      using read_redirs [of b ?s "[]" ?r f' "EXEC []"] r0 f(2) by (auto simp: redirs_text_def wrap_def)
    from read_args [OF red(2) ok(1,3) _ a(2), of 0 f' "[]"] obtain ws' rs' s2 where
      "parse_args f' 0 (EXEC []) b s1 = Inr (wrap (EXEC ws') rs', s2)" "map (sub b) ws' = ws"
      "map (words_of b) rs' = rs" "rest b s2 = strip r"
      using False ok(2) red(2) r0 f(2) by auto
    then show ?thesis using nb red f by (simp add: yields_def c map_wrap)
  qed
qed

text \<open>Blocks.\<close>

lemma block_reads:
  assumes "line_reads (base c)" "\<not> is_item (base c)" "wf_cmd c"
  shows "item_reads c"
  unfolding item_reads_def
proof (intro allI impI)
  fix b s r f assume a: "rest b s = strip (paren c (show_cmd c) @ r)" "stops ''|)&;'' r" "4 * length (rest b s) + 1 < f"
  define rs where "rs = redirs c"
  have c: "c = wrap (base c) rs" using wrap_base [of c] by (simp add: rs_def)
  let ?t = "show_cmd (base c)" and ?r = "redirs_text rs @ r"
  have r0: "rest b s = CHR ''('' # ?t @ '')'' @ ?r"
    using a(1) item_text [of c] assms(2) strip_sym by (simp add: rs_def paren_def)
  obtain f' where f: "f = Suc (Suc f')" "4 * length (rest b s) \<le> f'" using a(3) by (cases f; cases "f - 1") auto
  let ?s = "scan is_ws b s"
  have p: "peek b s ''('' = (True, ?s)" "peek b ?s ''('' = (True, ?s)"
    using r0 by (simp_all add: peek_eq)
  have r1: "rest b (snd (snd (gettoken b ?s))) = strip (?t @ '')'' @ ?r)"
    using gettoken_sym(2) [of b ?s "CHR ''(''"] r0 by simp
  have "4 * length (rest b (snd (snd (gettoken b ?s)))) + 3 < f'"
    using f(2) r0 r1 length_dropWhile_le [of is_ws "?t @ '')'' @ ?r"] by simp
  moreover have "stops '')'' ('')'' @ ?r)" using stops_sym by simp
  ultimately have "yields b (parseline f' b (snd (snd (gettoken b ?s)))) (base c) ('')'' @ ?r)"
    using line_readsD [OF assms(1) r1] by blast
  then obtain c1 s2 where l: "parseline f' b (snd (snd (gettoken b ?s))) = Inr (c1, s2)"
      "map_cmd (sub b) c1 = base c" "rest b s2 = CHR '')'' # ?r"
    using strip_sym by (auto elim!: yieldsE)
  let ?s2 = "scan is_ws b s2"
  have p2: "peek b s2 '')'' = (True, ?s2)" using l(3) by (simp add: peek_eq)
  have r2: "rest b (snd (snd (gettoken b ?s2))) = strip ?r"
    using gettoken_sym(2) [of b ?s2 "CHR '')''"] l(3) by simp
  have "length (rest b (snd (snd (gettoken b ?s2)))) < f'"
    using f(2) r0 r2 length_dropWhile_le [of is_ws ?r] by simp
  from read_redirs [OF r2 _ _ this, of c1] item_wf [OF assms(3)] a(2) obtain rs' s3 where
    "parseredirs f' c1 b (snd (snd (gettoken b ?s2))) = Inr (wrap c1 rs', s3)" "map (words_of b) rs' = rs"
    "rest b s3 = strip r" by (auto simp: rs_def)
  then show "yields b (parseexec f b s) c r"
    using p l(1,2) p2 f(1) c by (simp add: yields_def map_wrap)
qed

text \<open>An item where a pipeline, or a line, is expected.\<close>

lemma pipe_of_item:
  assumes "item_reads c" "rest b s = strip (paren c (show_cmd c) @ r)" "stops '')&;'' r"
    "4 * length (rest b s) + 2 < f"
  shows "yields b (parsepipe f b s) c r"
proof -
  obtain f' where f: "f = Suc f'" "4 * length (rest b s) + 1 < f'" using assms(4) by (cases f) auto
  have "stops ''|)&;'' r" using assms(3) by (rule stops_mono) simp
  then obtain c' s' where x: "parseexec f' b s = Inr (c', s')" "map_cmd (sub b) c' = c" "rest b s' = strip r"
    using assms(1,2) f(2) unfolding item_reads_def by (metis yieldsE)
  from peek_no [OF x(3) assms(3), of "''|''"] x f(1) show ?thesis by (simp add: yields_def)
qed

lemma backs_none:
  assumes "rest b s = strip r" "stops '');'' r" "0 < f"
  shows "parse_backs f c b s = Inr (c, scan is_ws b s)"
  using peek_no [OF assms(1,2), of "''&''"] assms(3) by (cases f) simp_all

lemma line_of_item:
  assumes "item_reads c" "rest b s = strip (paren c (show_cmd c) @ r)" "stops '')'' r"
    "4 * length (rest b s) + 3 < f"
  shows "yields b (parseline f b s) c r"
proof -
  obtain f' where f: "f = Suc f'" "4 * length (rest b s) + 2 < f'" using assms(4) by (cases f) auto
  have st: "stops '')&;'' r" "stops '');'' r" using assms(3) by (auto intro: stops_mono)
  obtain c' s' where x: "parsepipe f' b s = Inr (c', s')" "map_cmd (sub b) c' = c" "rest b s' = strip r"
    using pipe_of_item [OF assms(1,2) st(1) f(2)] by (metis yieldsE)
  have "parse_backs f' c' b s' = Inr (c', scan is_ws b s')" using backs_none [OF x(3) st(2)] f(2) by simp
  moreover have "peek b (scan is_ws b s') '';'' = (False, scan is_ws b s')"
    using peek_no [of b "scan is_ws b s'" r "'')''" "'';''"] x(3) assms(3) by simp
  ultimately show ?thesis using x f(1) by (simp add: yields_def)
qed

lemma pipe_line_reads:
  assumes "item_reads l" "item_reads r"
  shows "line_reads (PIPE l r)"
  unfolding line_reads_def
proof (intro allI impI)
  fix b s t f assume a: "rest b s = strip (show_cmd (PIPE l r) @ t)" "stops '')'' t" "4 * length (rest b s) + 3 < f"
  let ?r = "paren r (show_cmd r) @ t"
  obtain f' where f: "f = Suc (Suc f')" "4 * length (rest b s) + 1 < f'" using a(3) by (cases f; cases "f - 1") auto
  have "rest b s = strip (paren l (show_cmd l) @ CHR ''|'' # ?r)" using a(1) by simp
  then have "yields b (parseexec f' b s) l (CHR ''|'' # ?r)"
    using f(2) stops_sym by (intro item_readsD [OF assms(1)]) simp_all
  then obtain c1 s1 where x: "parseexec f' b s = Inr (c1, s1)" "map_cmd (sub b) c1 = l" "rest b s1 = CHR ''|'' # ?r"
    using strip_sym by (auto elim!: yieldsE)
  let ?s = "scan is_ws b s1" and ?u = "snd (snd (gettoken b (scan is_ws b s1)))"
  have p: "peek b s1 ''|'' = (True, ?s)" using x(3) by (simp add: peek_eq)
  have u: "rest b ?u = strip ?r" using gettoken_sym(2) [of b ?s "CHR ''|''"] x(3) by simp
  have "length (rest b s1) \<le> length (rest b s)"
    using parsers_fit(3) [OF f(2)] x(1) by (simp add: fits_def)
  then have "4 * length (rest b ?u) + 2 < f'"
    using u x(3) f(2) length_dropWhile_le [of is_ws ?r] by simp
  moreover have "stops '')&;'' t" using a(2) by (rule stops_mono) simp
  ultimately obtain c2 s2 where y: "parsepipe f' b ?u = Inr (c2, s2)" "map_cmd (sub b) c2 = r" "rest b s2 = strip t"
    using pipe_of_item [OF assms(2) u] by (metis yieldsE)
  then have "parsepipe (Suc f') b s = Inr (PIPE c1 c2, s2)" using x(1) p by simp
  moreover have "parse_backs (Suc f') (PIPE c1 c2) b s2 = Inr (PIPE c1 c2, scan is_ws b s2)"
    using backs_none [OF y(3) stops_mono [OF a(2)], of "Suc f'"] by simp
  moreover have "peek b (scan is_ws b s2) '';'' = (False, scan is_ws b s2)"
    using peek_no [of b "scan is_ws b s2" t "'')''" "'';''"] y(3) a(2) by simp
  ultimately show "yields b (parseline f b s) (PIPE l r) t" using f(1) x(2) y(2,3) by (simp add: yields_def)
qed

lemma list_line_reads:
  assumes "item_reads l" "item_reads r"
  shows "line_reads (LIST l r)"
  unfolding line_reads_def
proof (intro allI impI)
  fix b s t f assume a: "rest b s = strip (show_cmd (LIST l r) @ t)" "stops '')'' t" "4 * length (rest b s) + 3 < f"
  let ?r = "paren r (show_cmd r) @ t"
  obtain f' where f: "f = Suc f'" "4 * length (rest b s) + 2 < f'" using a(3) by (cases f) auto
  have "rest b s = strip (paren l (show_cmd l) @ CHR '';'' # ?r)" using a(1) by simp
  then have "yields b (parsepipe f' b s) l (CHR '';'' # ?r)"
    using f(2) stops_sym by (intro pipe_of_item [OF assms(1)]) simp_all
  then obtain c1 s1 where
    x: "parsepipe f' b s = Inr (c1, s1)" "map_cmd (sub b) c1 = l" "rest b s1 = CHR '';'' # ?r"
    using strip_sym by (auto elim!: yieldsE)
  have bk: "parse_backs f' c1 b s1 = Inr (c1, scan is_ws b s1)"
    using backs_none [of b s1 "CHR '';'' # ?r" f' c1] x(3) f(2) strip_sym stops_sym by simp
  let ?s = "scan is_ws b s1" and ?u = "snd (snd (gettoken b (scan is_ws b s1)))"
  have p: "peek b ?s '';'' = (True, ?s)" using x(3) by (simp add: peek_eq)
  have u: "rest b ?u = strip ?r" using gettoken_sym(2) [of b ?s "CHR '';''"] x(3) by simp
  have "length (rest b s1) \<le> length (rest b s)"
    using parsers_fit(2) [OF f(2)] x(1) by (simp add: fits_def)
  then have "4 * length (rest b ?u) + 3 < f'"
    using u x(3) f(2) length_dropWhile_le [of is_ws ?r] by simp
  from line_of_item [OF assms(2) u a(2) this] show "yields b (parseline f b s) (LIST l r) t"
    using x(1,2) bk p f(1) by (auto simp: yields_def)
qed

lemma back_line_reads:
  assumes "item_reads c"
  shows "line_reads (BACK c)"
  unfolding line_reads_def
proof (intro allI impI)
  fix b s t f assume a: "rest b s = strip (show_cmd (BACK c) @ t)" "stops '')'' t" "4 * length (rest b s) + 3 < f"
  obtain f' where f: "f = Suc f'" "4 * length (rest b s) + 2 < f'" using a(3) by (cases f) auto
  have "rest b s = strip (paren c (show_cmd c) @ CHR ''&'' # t)" using a(1) by simp
  then have "yields b (parsepipe f' b s) c (CHR ''&'' # t)"
    using f(2) stops_sym by (intro pipe_of_item [OF assms]) simp_all
  then obtain c1 s1 where
    x: "parsepipe f' b s = Inr (c1, s1)" "map_cmd (sub b) c1 = c" "rest b s1 = CHR ''&'' # t"
    using strip_sym by (auto elim!: yieldsE)
  let ?s = "scan is_ws b s1" and ?u = "snd (snd (gettoken b (scan is_ws b s1)))"
  have p: "peek b s1 ''&'' = (True, ?s)" using x(3) by (simp add: peek_eq)
  have u: "rest b ?u = strip t" using gettoken_sym(2) [of b ?s "CHR ''&''"] x(3) by simp
  obtain f'' where f'': "f' = Suc (Suc f'')" using f(2) by (cases f'; cases "f' - 1") auto
  have "parse_backs f' c1 b s1 = Inr (BACK c1, scan is_ws b ?u)"
    using p f'' backs_none [OF u stops_mono [OF a(2)], of "Suc f''" "BACK c1"] by simp
  moreover have "peek b (scan is_ws b ?u) '';'' = (False, scan is_ws b ?u)"
    using peek_no [of b "scan is_ws b ?u" t "'')''" "'';''"] u a(2) by simp
  ultimately show "yields b (parseline f b s) (BACK c) t" using x f(1) u by (simp add: yields_def)
qed

lemma items_and_lines: "wf_cmd c \<Longrightarrow> item_reads c \<and> line_reads c"
proof (induction c rule: measure_induct_rule [of size])
  case (less c)
  have line: "line_reads c" if "item_reads c" "is_item c"
    using line_of_item [OF that(1)] that(2) by (simp add: line_reads_def paren_def)
  have sub: "item_reads d" if "size d < size c" "wf_cmd d" for d using less.IH that by blast
  show ?case
  proof (cases "is_item (base c)")
    case True
    then obtain ws where "base c = EXEC ws" using base_not_redir [of c] by (cases "base c") auto
    moreover from this have "is_item c" by (cases c) auto
    ultimately show ?thesis using exec_reads less.prems line by blast
  next
    case False
    have "line_reads (base c)"
    proof (cases "redirs c = []")
      case True
      then have "base c = c" by (cases c) auto
      then show ?thesis
        using False less.prems sub by (cases c) (auto intro: pipe_line_reads list_line_reads back_line_reads)
    next
      case r: False
      then show ?thesis using less.IH base_size(2) item_wf less.prems by blast
    qed
    moreover from this have "item_reads c" using False less.prems by (rule block_reads)
    ultimately show ?thesis using line by (cases c) auto
  qed
qed

lemma show_no_nul: "wf_cmd c \<Longrightarrow> nul \<notin> set (show_cmd c)"
proof (induction c)
  case (EXEC ws)
  then show ?case by (auto simp: words_text_def list_all_iff word_ok_def)
qed (auto simp: paren_def redir_text_def redir_ok_def word_ok_def)

lemma parse_show:
  assumes "wf_cmd c"
  shows "\<exists>c' b'. parsecmd (show_cmd c) = Inr (c', b') \<and> map_cmd (\<lambda>(q, e). str_at b' q) c' = c"
proof -
  let ?b = "show_cmd c"
  note nn = show_no_nul [OF assms]
  have "length (rest ?b 0) \<le> length ?b" using rest_shorter [of ?b 0] by simp
  then have "yields ?b (parseline (parse_fuel ?b) ?b 0) c []"
    using items_and_lines [OF assms]
    by (intro line_readsD) (simp_all add: rest_def stops_def parse_fuel_def)
  then obtain c' s' where x: "parseline (parse_fuel ?b) ?b 0 = Inr (c', s')" "map_cmd (sub ?b) c' = c"
      "rest ?b s' = []" by (auto elim: yieldsE)
  note bt = parsers_between(1) [OF nn x(1) le0]
  have "scan is_ws ?b s' = length ?b" using rest_len [of s' ?b] x(3) bt by (simp add: between_def)
  then have "parsecmd ?b = Inr (c', nulterminate c' ?b)" using x(1) by (simp add: parsecmd_def peek_eq)
  moreover have "map_cmd (\<lambda>(q, e). str_at (nulterminate c' ?b) q) c' = map_cmd (sub ?b) c'"
    by (rule cmd.map_cong) (use nulterminate_words [OF bt] in auto)
  ultimately show ?thesis using x(2) by auto
qed

text \<open>
  C30. The parser reads back what the printer writes: for every well-formed command tree, parsing its
  text gives a tree of the same shape, and after the words have been terminated in the buffer
  every argument and file pointer denotes the word that was printed.
\<close>
theorem parse_show_roundtrip:
  assumes "wf_cmd c"
  shows "\<exists>c' b'. parsecmd (show_cmd c) = Inr (c', b') \<and> map_cmd (\<lambda>(q, e). str_at b' q) c' = c"
  using assms by (rule parse_show)

definition cmd0 :: "string cmd" where
  "cmd0 = PIPE (EXEC [''cat'', ''a'']) (BACK (REDIR (EXEC [''wc'']) ''out'' (O_WRONLY OR O_CREATE) 1))"

theorem parse_show_roundtrip_witness:
  "\<exists>c' b'. parsecmd '' cat a|( wc >out&)'' = Inr (c', b') \<and> map_cmd (\<lambda>(q, e). str_at b' q) c' = cmd0"
proof -
  have "wf_cmd cmd0"
    by (simp add: cmd0_def word_ok_def redir_ok_def word_char_iff whitespace_def symbols_def MAXARGS_def)
  moreover have "show_cmd cmd0 = '' cat a|( wc >out&)''"
    by (simp add: cmd0_def words_text_def redir_text_def paren_def)
  ultimately show ?thesis using parse_show_roundtrip [of cmd0] by simp
qed

end
