(* ===== verification/UProg.thy ===== *)
theory UProg
  imports CString
begin

text \<open>
  The user side: printf.c, the form in which the user programs are modelled, and the small ones
  (echo.c, ln.c, mkdir.c, rm.c, kill.c, zombie.c, cat.c, wc.c). A process is the tree of the system calls it
  makes, branching on their results; fork has the two processes as its subtrees, and an access that C
  leaves undefined is \<open>Fault\<close>. \<open>Printf\<close> stands for the one-byte writes of printf.c, with the text that
  \<open>format\<close> gives. What read returns from a file is a list of strings, one for each call until the
  end of the file, and \<open>None\<close> in place of the end is an error.
\<close>

section \<open>printf.c\<close>

definition u_digits :: string where "u_digits = ''0123456789ABCDEF''"

text \<open>The \<open>do ... while\<close> loop: the digits of \<open>x\<close>, the lowest first.\<close>

function u_print_digits :: "nat \<Rightarrow> nat \<Rightarrow> string" where
  "u_print_digits base x =
     u_digits ! (x mod base) # (if base \<le> 1 \<or> x div base = 0 then [] else u_print_digits base (x div base))"
  by pat_completeness auto
termination
  by (relation "measure snd") (auto intro!: div_less_dividend gr0I)

declare u_print_digits.simps [simp del]

definition u_int_chars :: "int \<Rightarrow> nat \<Rightarrow> bool \<Rightarrow> string" where
  "u_int_chars xx base sg =
     (let neg = (sg \<and> xx < 0);
          x = (if neg then u32 (- xx) else u32 xx)
      in rev (u_print_digits base x @ (if neg then ''-'' else [])))"

datatype uarg = UNum nat | UStr "string option"

text \<open>The state variable of printf.c is the flag \<open>pc\<close>: a percent sign has been seen.\<close>

fun format_loop :: "bool \<Rightarrow> string \<Rightarrow> uarg list \<Rightarrow> string res" where
  "format_loop pc [] ap = Inr []"
| "format_loop pc (c # fmt) ap =
     (if \<not> pc then
        (if c = CHR ''%'' then format_loop True fmt ap
         else bindr (format_loop False fmt ap) (\<lambda>s. Inr (c # s)))
      else if c = CHR ''d'' then
        (case ap of UNum n # ap \<Rightarrow> bindr (format_loop False fmt ap) (\<lambda>s. Inr (u_int_chars (i32 n) 10 True @ s))
         | _ \<Rightarrow> Inl (Undef ''argument''))
      else if c = CHR ''x'' \<or> c = CHR ''p'' then
        (case ap of UNum n # ap \<Rightarrow> bindr (format_loop False fmt ap) (\<lambda>s. Inr (u_int_chars (i32 n) 16 False @ s))
         | _ \<Rightarrow> Inl (Undef ''argument''))
      else if c = CHR ''s'' then
        (case ap of UStr p # ap \<Rightarrow> bindr (format_loop False fmt ap)
             (\<lambda>s. Inr ((case p of None \<Rightarrow> ''(null)'' | Some str \<Rightarrow> str) @ s))
         | _ \<Rightarrow> Inl (Undef ''argument''))
      else if c = CHR ''c'' then
        (case ap of UNum n # ap \<Rightarrow> bindr (format_loop False fmt ap) (\<lambda>s. Inr (char_of (int n) # s))
         | _ \<Rightarrow> Inl (Undef ''argument''))
      else if c = CHR ''%'' then bindr (format_loop False fmt ap) (\<lambda>s. Inr (c # s))
      else bindr (format_loop False fmt ap) (\<lambda>s. Inr (CHR ''%'' # c # s)))"

definition format :: "string \<Rightarrow> uarg list \<Rightarrow> string res" where
  "format fmt ap = format_loop False fmt ap"

section \<open>Programs\<close>

datatype prog =
    Exit
  | Fault
  | Exec string "string list" prog
  | Printf int string prog
  | Write int string "int \<Rightarrow> prog"
  | Close int prog
  | Open string int "int \<Rightarrow> prog"
  | Dup int prog
  | Pipe "(int \<times> int) option \<Rightarrow> prog"
  | Fork prog "int \<Rightarrow> prog"
  | Wait "int \<Rightarrow> prog"
  | Chdir string "int \<Rightarrow> prog"
  | Kill int prog
  | Link string string "int \<Rightarrow> prog"
  | Mkdir string "int \<Rightarrow> prog"
  | Unlink string "int \<Rightarrow> prog"
  | Sleep int prog

definition printf :: "int \<Rightarrow> string \<Rightarrow> uarg list \<Rightarrow> prog \<Rightarrow> prog" where
  "printf fd fmt ap k = (case format fmt ap of Inl _ \<Rightarrow> Fault | Inr s \<Rightarrow> Printf fd s k)"

abbreviation nl :: string where "nl \<equiv> [CHR 0x0A]"
abbreviation ustr :: "string \<Rightarrow> uarg" where "ustr s \<equiv> UStr (Some s)"

fun echo_args :: "string list \<Rightarrow> prog" where
  "echo_args [] = Exit"
| "echo_args (a # as) = printf 1 ''%s%s'' [ustr a, ustr (if as \<noteq> [] then '' '' else nl)] (echo_args as)"

definition echo_main :: "string list \<Rightarrow> prog" where
  "echo_main argv = echo_args (tl argv)"

definition ln_main :: "string list \<Rightarrow> prog" where
  "ln_main argv =
     (if length argv \<noteq> 3 then printf 2 (''Usage: ln old new'' @ nl) [] Exit
      else Link (argv ! 1) (argv ! 2) (\<lambda>r.
        if r < 0 then printf 2 (''link %s %s: failed'' @ nl) [ustr (argv ! 1), ustr (argv ! 2)] Exit else Exit))"

fun mkdir_args :: "string list \<Rightarrow> prog" where
  "mkdir_args [] = Exit"
| "mkdir_args (a # as) = Mkdir a (\<lambda>r.
     if r < 0 then printf 2 (''mkdir: %s failed to create'' @ nl) [ustr a] Exit else mkdir_args as)"

definition mkdir_main :: "string list \<Rightarrow> prog" where
  "mkdir_main argv =
     (if length argv < 2 then printf 2 (''Usage: mkdir files...'' @ nl) [] Exit else mkdir_args (tl argv))"

fun rm_args :: "string list \<Rightarrow> prog" where
  "rm_args [] = Exit"
| "rm_args (a # as) = Unlink a (\<lambda>r.
     if r < 0 then printf 2 (''rm: %s failed to delete'' @ nl) [ustr a] Exit else rm_args as)"

definition rm_main :: "string list \<Rightarrow> prog" where
  "rm_main argv =
     (if length argv < 2 then printf 2 (''Usage: rm files...'' @ nl) [] Exit else rm_args (tl argv))"

fun kill_args :: "string list \<Rightarrow> prog" where
  "kill_args [] = Exit"
| "kill_args (a # as) = Kill (atoi a) (kill_args as)"

definition kill_main :: "string list \<Rightarrow> prog" where
  "kill_main argv =
     (if length argv < 2 then printf 2 (''usage: kill pid...'' @ nl) [] Exit else kill_args (tl argv))"

definition zombie_main :: prog where
  "zombie_main = Fork Exit (\<lambda>pid. if pid > 0 then Sleep 5 Exit else Exit)"

text \<open>\<open>cat\<close> and \<open>wc\<close> on what the calls of read return; \<open>k\<close> is what the caller does next.\<close>

fun cat :: "string list \<Rightarrow> bool \<Rightarrow> prog \<Rightarrow> prog" where
  "cat [] err k = (if err then printf 1 (''cat: read error'' @ nl) [] Exit else k)"
| "cat (r # reads) err k =
     Write 1 r (\<lambda>n. if n \<noteq> int (length r) then printf 1 (''cat: write error'' @ nl) [] Exit
                    else cat reads err k)"

text \<open>A file system as the programs see it: the reads that a file gives, and whether they end in an error.\<close>

type_synonym files = "string \<Rightarrow> string list \<times> bool"

fun cat_args :: "files \<Rightarrow> string list \<Rightarrow> prog" where
  "cat_args fs [] = Exit"
| "cat_args fs (a # as) = Open a 0 (\<lambda>fd.
     if fd < 0 then printf 1 (''cat: cannot open %s'' @ nl) [ustr a] Exit
     else cat (fst (fs a)) (snd (fs a)) (Close fd (cat_args fs as)))"

definition cat_main :: "string list \<times> bool \<Rightarrow> files \<Rightarrow> string list \<Rightarrow> prog" where
  "cat_main stdin fs argv =
     (if length argv \<le> 1 then cat (fst stdin) (snd stdin) Exit else cat_args fs (tl argv))"

record counts =
  wc_l :: int
  wc_w :: int
  wc_c :: int
  inword :: bool

definition wc_char :: "char \<Rightarrow> counts \<Rightarrow> counts" where
  "wc_char ch s =
     (let s = s\<lparr>wc_c := wc_c s + 1\<rparr>;
          s = (if ch = CHR 0x0A then s\<lparr>wc_l := wc_l s + 1\<rparr> else s)
      in if strchr [CHR '' '', CHR 0x0D, CHR 0x09, CHR 0x0A, CHR 0x0B] ch \<noteq> None then s\<lparr>inword := False\<rparr>
         else if \<not> inword s then s\<lparr>wc_w := wc_w s + 1, inword := True\<rparr> else s)"

definition wc_counts :: "string list \<Rightarrow> counts" where
  "wc_counts reads = fold (\<lambda>r. fold wc_char r) reads \<lparr>wc_l = 0, wc_w = 0, wc_c = 0, inword = False\<rparr>"

definition wc :: "string list \<Rightarrow> bool \<Rightarrow> string \<Rightarrow> prog \<Rightarrow> prog" where
  "wc reads err name k =
     (if err then printf 1 (''wc: read error'' @ nl) [] Exit
      else let s = wc_counts reads
           in printf 1 (''%d %d %d %s'' @ nl)
                [UNum (u32 (wc_l s)), UNum (u32 (wc_w s)), UNum (u32 (wc_c s)), ustr name] k)"

fun wc_args :: "files \<Rightarrow> string list \<Rightarrow> prog" where
  "wc_args fs [] = Exit"
| "wc_args fs (a # as) = Open a 0 (\<lambda>fd.
     if fd < 0 then printf 1 (''wc: cannot open %s'' @ nl) [ustr a] Exit
     else wc (fst (fs a)) (snd (fs a)) a (Close fd (wc_args fs as)))"

definition wc_main :: "string list \<times> bool \<Rightarrow> files \<Rightarrow> string list \<Rightarrow> prog" where
  "wc_main stdin fs argv =
     (if length argv \<le> 1 then wc (fst stdin) (snd stdin) [] Exit else wc_args fs (tl argv))"

section \<open>Counting words\<close>

text \<open>The words of a text are its maximal runs of characters that are not blank.\<close>

definition wc_blank :: "char \<Rightarrow> bool" where
  "wc_blank ch \<longleftrightarrow> ch \<in> set [CHR '' '', CHR 0x0D, CHR 0x09, CHR 0x0A, CHR 0x0B]"

function words :: "string \<Rightarrow> string list" where
  "words s =
     (let s' = dropWhile wc_blank s
      in if s' = [] then []
         else takeWhile (Not \<circ> wc_blank) s' # words (dropWhile (Not \<circ> wc_blank) s'))"
  by pat_completeness auto
termination
proof (relation "measure length", simp)
  fix s :: string and s'
  assume s': "s' = dropWhile wc_blank s" "s' \<noteq> []"
  then have "\<not> wc_blank (hd s')" using hd_dropWhile by blast
  then have "length (dropWhile (Not \<circ> wc_blank) s') < length s'"
    using s'(2) length_dropWhile_le [of "Not \<circ> wc_blank" "tl s'"] by (cases s') auto
  then show "(dropWhile (Not \<circ> wc_blank) s', s) \<in> measure length"
    using s'(1) length_dropWhile_le [of wc_blank s] by simp
qed

declare words.simps [simp del]

lemma words_blank: "wc_blank c \<Longrightarrow> words (c # s) = words s"
  by (simp add: words.simps [of "c # s"] words.simps [of s] Let_def)

lemma words_Nil [simp]: "words [] = []"
  by (simp add: words.simps)

lemma words_char:
  assumes "\<not> wc_blank c"
  shows "length (words (c # s)) = Suc (length (words (dropWhile (Not \<circ> wc_blank) s)))"
  using assms by (simp add: words.simps [of "c # s"] Let_def)

lemma words_rest:
  "length (words s) = (if s = [] \<or> wc_blank (hd s) then 0 else 1) + length (words (dropWhile (Not \<circ> wc_blank) s))"
  by (cases s) (auto simp: words_char)

lemma wc_fold:
  "fold wc_char s c = \<lparr>wc_l = wc_l c + int (count_list s (CHR 0x0A)),
     wc_w = wc_w c + int (length (words (if inword c then dropWhile (Not \<circ> wc_blank) s else s))),
     wc_c = wc_c c + int (length s),
     inword = (if s = [] then inword c else \<not> wc_blank (last s))\<rparr>"
proof (induction s arbitrary: c)
  case Nil
  then show ?case by simp
next
  case (Cons x s)
  have b: "strchr [CHR '' '', CHR 0x0D, CHR 0x09, CHR 0x0A, CHR 0x0B] x \<noteq> None \<longleftrightarrow> wc_blank x"
    by (simp add: wc_blank_def)
  show ?case
  proof (cases "wc_blank x")
    case True
    then show ?thesis using b Cons by (simp add: wc_char_def Let_def words_blank)
  next
    case False
    then have "x \<noteq> CHR 0x0A" by (auto simp: wc_blank_def)
    then show ?thesis using b False Cons by (simp add: wc_char_def Let_def words_char)
  qed
qed

lemma fold_fold_concat: "fold (\<lambda>xs. fold f xs) xss s = fold f (concat xss) s"
  by (induction xss arbitrary: s) auto


end
