(* ===== verification/ShellRun.thy ===== *)
theory ShellRun
  imports Shell UProg
begin

text \<open>
  What the shell does with a parsed command (sh.c: runcmd, fork1, panic, getcmd, main), as a tree of
  system calls. \<open>exec_all\<close> runs such a tree against the file descriptor rules of the kernel
  (the lowest free descriptor is used, as in fdalloc of sysfile.c), collecting every program that is
  executed with its descriptor table, and \<open>plan\<close> says which those should be.
\<close>

section \<open>Definitions: the shell\<close>

definition sh_panic :: "string \<Rightarrow> prog" where
  "sh_panic s = printf 2 (''%s'' @ nl) [ustr s] Exit"

text \<open>\<open>if(fork1() == 0) child; parent\<close>, where the child does not come back.\<close>

definition fork1 :: "prog \<Rightarrow> prog \<Rightarrow> prog" where
  "fork1 child parent = Fork child (\<lambda>pid. if pid = -1 then sh_panic ''fork'' else parent)"

fun runcmd :: "string cmd \<Rightarrow> prog" where
  "runcmd (EXEC []) = Exit"
| "runcmd (EXEC (a # as)) = Exec a (a # as) (printf 2 (''exec %s failed'' @ nl) [ustr a] Exit)"
| "runcmd (REDIR c file mode fd) =
     Close fd (Open file mode (\<lambda>r.
       if r < 0 then printf 2 (''open %s failed'' @ nl) [ustr file] Exit else runcmd c))"
| "runcmd (LIST l r) = fork1 (runcmd l) (Wait (\<lambda>_. runcmd r))"
| "runcmd (PIPE l r) =
     Pipe (\<lambda>p. case p of
       None \<Rightarrow> sh_panic ''pipe''
     | Some (p0, p1) \<Rightarrow>
         fork1 (Close 1 (Dup p1 (Close p0 (Close p1 (runcmd l)))))
        (fork1 (Close 0 (Dup p0 (Close p0 (Close p1 (runcmd r)))))
         (Close p0 (Close p1 (Wait (\<lambda>_. Wait (\<lambda>_. Exit)))))))"
| "runcmd (BACK c) = fork1 (runcmd c) Exit"

text \<open>
  The child parses the line; a syntax error prints and exits, as the panic in \<open>parsecmd\<close> does, and
  running out of fuel does not happen (\<open>parsecmd_terminates\<close>).
\<close>

definition run_line :: "string \<Rightarrow> prog" where
  "run_line buf = (case parsecmd buf of
     Inl (Panic s) \<Rightarrow> sh_panic s
   | Inl _ \<Rightarrow> Fault
   | Inr (c, b) \<Rightarrow> runcmd (map_cmd (\<lambda>(q, e). str_at b q) c))"

text \<open>
  \<open>gets\<close> on the bytes that standard input will deliver: the bytes it stores and those it leaves.
  \<open>getcmd\<close> returns -1, here \<open>None\<close>, when the first byte is the NUL.
\<close>

fun gets :: "nat \<Rightarrow> string \<Rightarrow> string \<times> string" where
  "gets room [] = ([], [])"
| "gets room (c # inp) =
     (if room \<le> 1 then ([], c # inp)
      else if c = CHR 0x0A \<or> c = CHR 0x0D then ([c], inp)
      else let (s, inp) = gets (room - 1) inp in (c # s, inp))"

definition getcmd :: "nat \<Rightarrow> string \<Rightarrow> string option \<times> string" where
  "getcmd nbuf inp =
     (let (s, inp) = gets nbuf inp; buf = takeWhile (\<lambda>c. c \<noteq> nul) s
      in (if buf = [] then None else Some buf, inp))"

lemma gets_length: "length (fst (gets n inp)) + length (snd (gets n inp)) = length inp"
  by (induction n inp rule: gets.induct) (auto simp: Let_def split_def)

lemma getcmd_shorter: "getcmd n inp = (Some buf, inp') \<Longrightarrow> length inp' < length inp"
  using gets_length [of n inp] by (cases "fst (gets n inp)") (auto simp: getcmd_def Let_def split_def split: if_splits)

function sh_loop :: "string \<Rightarrow> prog" where
  "sh_loop inp =
     printf 2 ''$ '' []
      (case getcmd 100 inp of
         (None, _) \<Rightarrow> Exit
       | (Some buf, inp) \<Rightarrow>
           if take 3 buf = ''cd '' then
             let dir = drop 3 (butlast buf)
             in Chdir dir (\<lambda>r. if r < 0 then printf 2 (''cannot cd %s'' @ nl) [ustr dir] (sh_loop inp)
                               else sh_loop inp)
           else fork1 (run_line buf) (Wait (\<lambda>_. sh_loop inp)))"
  by pat_completeness auto
termination by (relation "measure length") (auto dest: getcmd_shorter [OF sym])

text \<open>The loop that opens the console until descriptors 0, 1 and 2 are in use, at most four times.\<close>

fun open_std :: "nat \<Rightarrow> prog \<Rightarrow> prog" where
  "open_std 0 k = Fault"
| "open_std (Suc n) k = Open ''console'' O_RDWR (\<lambda>fd.
     if fd < 0 then k else if fd \<ge> 3 then Close fd k else open_std n k)"

definition sh_main :: "string \<Rightarrow> prog" where
  "sh_main inp = open_std 4 (sh_loop inp)"

section \<open>Definitions: file descriptors\<close>

datatype obj = Console | File string int | RdEnd "nat list" | WrEnd "nat list"

type_synonym fdt = "nat \<Rightarrow> obj option"

definition NOFILE :: nat where "NOFILE = 16"

definition fdalloc :: "obj \<Rightarrow> fdt \<Rightarrow> (nat \<times> fdt) option" where
  "fdalloc x t = (case find (\<lambda>fd. t fd = None) [0..<NOFILE] of
     None \<Rightarrow> None | Some fd \<Rightarrow> Some (fd, t(fd := Some x)))"

definition fd_close :: "int \<Rightarrow> fdt \<Rightarrow> fdt" where
  "fd_close fd t = (if 0 \<le> fd \<and> fd < int NOFILE then t(nat fd := None) else t)"

text \<open>
  Running a process tree: forks, opens and pipes succeed as long as descriptors are free, exec
  succeeds. A process is named by the path of forks that leads to it, and a pipe by its creator.
\<close>

primrec exec_all :: "prog \<Rightarrow> nat list \<Rightarrow> fdt \<Rightarrow> (string list \<times> fdt) list" where
  "exec_all Exit \<pi> t = []"
| "exec_all Fault \<pi> t = []"
| "exec_all (Exec f as k) \<pi> t = [(as, t)]"
| "exec_all (Printf fd s k) \<pi> t = exec_all k \<pi> t"
| "exec_all (Write fd s k) \<pi> t = exec_all (k (int (length s))) \<pi> t"
| "exec_all (Close fd k) \<pi> t = exec_all k \<pi> (fd_close fd t)"
| "exec_all (Open f m k) \<pi> t = (case fdalloc (File f m) t of
     None \<Rightarrow> exec_all (k (-1)) \<pi> t | Some (fd, t) \<Rightarrow> exec_all (k (int fd)) \<pi> t)"
| "exec_all (Dup fd k) \<pi> t = (case t (nat fd) of
     None \<Rightarrow> exec_all k \<pi> t
   | Some x \<Rightarrow> (case fdalloc x t of None \<Rightarrow> exec_all k \<pi> t | Some (_, t) \<Rightarrow> exec_all k \<pi> t))"
| "exec_all (Pipe k) \<pi> t = (case fdalloc (RdEnd \<pi>) t of
     None \<Rightarrow> exec_all (k None) \<pi> t
   | Some (p0, t1) \<Rightarrow> (case fdalloc (WrEnd \<pi>) t1 of
       None \<Rightarrow> exec_all (k None) \<pi> t
     | Some (p1, t2) \<Rightarrow> exec_all (k (Some (int p0, int p1))) \<pi> t2))"
| "exec_all (Fork c k) \<pi> t = exec_all c (\<pi> @ [0]) t @ exec_all (k 1) (\<pi> @ [1]) t"
| "exec_all (Wait k) \<pi> t = exec_all (k 1) \<pi> t"
| "exec_all (Chdir d k) \<pi> t = exec_all (k 0) \<pi> t"
| "exec_all (Kill pid k) \<pi> t = exec_all k \<pi> t"
| "exec_all (Link old new k) \<pi> t = exec_all (k 0) \<pi> t"
| "exec_all (Mkdir d k) \<pi> t = exec_all (k 0) \<pi> t"
| "exec_all (Unlink f k) \<pi> t = exec_all (k 0) \<pi> t"
| "exec_all (Sleep n k) \<pi> t = exec_all k \<pi> t"

text \<open>The programs a command stands for, each with the descriptors it should have.\<close>

fun plan :: "string cmd \<Rightarrow> nat list \<Rightarrow> fdt \<Rightarrow> (string list \<times> fdt) list" where
  "plan (EXEC as) \<pi> t = (if as = [] then [] else [(as, t)])"
| "plan (REDIR c f m fd) \<pi> t = plan c \<pi> (t(nat fd := Some (File f m)))"
| "plan (PIPE l r) \<pi> t = plan l (\<pi> @ [0]) (t(1 := Some (WrEnd \<pi>))) @ plan r (\<pi> @ [1, 0]) (t(0 := Some (RdEnd \<pi>)))"
| "plan (LIST l r) \<pi> t = plan l (\<pi> @ [0]) t @ plan r (\<pi> @ [1]) t"
| "plan (BACK c) \<pi> t = plan c (\<pi> @ [0]) t"

text \<open>A process as the shell starts it: standard descriptors open, all others closed.\<close>

definition std_fds :: "fdt \<Rightarrow> bool" where
  "std_fds t \<longleftrightarrow> (\<forall>i. t i \<noteq> None \<longleftrightarrow> i < 3)"

fun redirs_std :: "'w cmd \<Rightarrow> bool" where
  "redirs_std (EXEC as) = True"
| "redirs_std (REDIR c f m fd) \<longleftrightarrow> fd \<in> {0, 1} \<and> redirs_std c"
| "redirs_std (PIPE l r) \<longleftrightarrow> redirs_std l \<and> redirs_std r"
| "redirs_std (LIST l r) \<longleftrightarrow> redirs_std l \<and> redirs_std r"
| "redirs_std (BACK c) = redirs_std c"

section \<open>Descriptors\<close>

lemma fdalloc_least:
  assumes "t n = None" "n < NOFILE" "\<forall>i < n. t i \<noteq> None"
  shows "fdalloc x t = Some (n, t(n := Some x))"
proof -
  have "find (\<lambda>fd. t fd = None) [0..<NOFILE] = Some n"
    unfolding find_Some_iff using assms by (intro exI [of _ n]) simp
  then show ?thesis by (simp add: fdalloc_def)
qed

lemma std_fdsD: "std_fds t \<Longrightarrow> t i = None \<longleftrightarrow> 3 \<le> i"
  unfolding std_fds_def by (metis not_less)

lemma std_fds_upd: "std_fds t \<Longrightarrow> i < 3 \<Longrightarrow> std_fds (t(i := Some x))"
  by (simp add: std_fds_def)

text \<open>Closing a standard descriptor and allocating one puts the new object in its place.\<close>

lemma std_realloc:
  assumes "std_fds t" "n < 2"
  shows "fdalloc x (t(n := None)) = Some (n, t(n := Some x))"
proof -
  have "fdalloc x (t(n := None)) = Some (n, (t(n := None))(n := Some x))"
    using assms std_fdsD [OF assms(1)] by (intro fdalloc_least) (auto simp: NOFILE_def)
  then show ?thesis by simp
qed

lemma std_pipe:
  assumes "std_fds t"
  shows "fdalloc x t = Some (3, t(3 := Some x))" "fdalloc y (t(3 := Some x)) = Some (4, t(3 := Some x, 4 := Some y))"
proof -
  have t: "t i \<noteq> None \<longleftrightarrow> i < 3" for i using assms by (simp add: std_fds_def)
  from this [of 3] this [of 4] have "t 3 = None" "t 4 = None" by simp_all
  with t show "fdalloc x t = Some (3, t(3 := Some x))"
    "fdalloc y (t(3 := Some x)) = Some (4, t(3 := Some x, 4 := Some y))"
    by (intro fdalloc_least; auto simp: NOFILE_def)+
qed

text \<open>The two ends of a pipe in the children of a pipeline.\<close>

lemma std_dup:
  assumes "std_fds t" "n < 2"
  shows "fdalloc x (t(3 := Some a, 4 := Some b, n := None)) = Some (n, t(3 := Some a, 4 := Some b, n := Some x))"
    "t(3 := Some a, 4 := Some b, n := Some x, 3 := None, 4 := None) = t(n := Some x)"
proof -
  let ?t = "t(3 := Some a, 4 := Some b, n := None)"
  have "fdalloc x ?t = Some (n, ?t(n := Some x))"
    using assms std_fdsD [OF assms(1)] by (intro fdalloc_least) (auto simp: NOFILE_def)
  then show "fdalloc x ?t = Some (n, t(3 := Some a, 4 := Some b, n := Some x))" by simp
  show "t(3 := Some a, 4 := Some b, n := Some x, 3 := None, 4 := None) = t(n := Some x)"
    using assms std_fdsD [OF assms(1), of 3] std_fdsD [OF assms(1), of 4] by (auto simp: fun_eq_iff)
qed

lemma fd_close_simps: "n < NOFILE \<Longrightarrow> fd_close (int n) t = t(n := None)"
  by (simp add: fd_close_def)

lemma exec_all_fork1: "exec_all (fork1 c p) \<pi> t = exec_all c (\<pi> @ [0]) t @ exec_all p (\<pi> @ [1]) t"
  by (simp add: fork1_def)

lemma exec_pipe_child:
  assumes "std_fds t" "n < 2" "m \<in> {3, 4}"
  shows "exec_all (Close (int n) (Dup m (Close 3 (Close 4 k)))) \<pi> (t(3 := Some a, 4 := Some b)) =
    exec_all k \<pi> (t(n := Some (if m = 3 then a else b)))"
proof -
  let ?x = "if m = 3 then a else b"
  have "fd_close (int n) (t(3 := Some a, 4 := Some b)) = t(3 := Some a, 4 := Some b, n := None)"
    using assms(2) by (intro fd_close_simps) (simp add: NOFILE_def)
  moreover have "(t(3 := Some a, 4 := Some b, n := None)) (nat m) = Some ?x" using assms(2,3) by auto
  moreover have "fd_close 4 (fd_close 3 (t(3 := Some a, 4 := Some b, n := Some ?x))) = t(n := Some ?x)"
    using std_dup(2) [OF assms(1,2), of a b ?x] by (simp add: fd_close_def NOFILE_def)
  ultimately show ?thesis using std_dup(1) [OF assms(1,2), of ?x a b] by simp
qed

lemma runcmd_execs:
  assumes "redirs_std c" and "std_fds t"
  shows "exec_all (runcmd c) \<pi> t = plan c \<pi> t"
  using assms
proof (induction c arbitrary: \<pi> t)
  case (EXEC as)
  then show ?case by (cases as) auto
next
  case (REDIR c f m fd)
  obtain n where n: "fd = int n" "n < 2" using REDIR.prems(1) by (cases "fd = 0") force+
  have "fd_close fd t = t(n := None)" using n by (simp add: fd_close_simps NOFILE_def)
  moreover have "exec_all (runcmd c) \<pi> (t(n := Some (File f m))) = plan c \<pi> (t(n := Some (File f m)))"
    using REDIR.prems n by (intro REDIR.IH std_fds_upd) auto
  ultimately show ?case using std_realloc [OF REDIR.prems(2) n(2)] n by simp
next
  case (PIPE l r)
  let ?t = "t(3 := Some (RdEnd \<pi>), 4 := Some (WrEnd \<pi>))"
  have "exec_all (Close 1 (Dup 4 (Close 3 (Close 4 (runcmd l))))) (\<pi> @ [0]) ?t =
      plan l (\<pi> @ [0]) (t(1 := Some (WrEnd \<pi>)))"
    using exec_pipe_child [OF PIPE.prems(2), of 1 4] PIPE.prems
      PIPE.IH(1) [OF _ std_fds_upd [OF PIPE.prems(2), of 1]] by (simp del: exec_all.simps fun_upd_apply)
  moreover have "exec_all (Close 0 (Dup 3 (Close 3 (Close 4 (runcmd r))))) (\<pi> @ [1, 0]) ?t =
      plan r (\<pi> @ [1, 0]) (t(0 := Some (RdEnd \<pi>)))"
    using exec_pipe_child [OF PIPE.prems(2), of 0 3] PIPE.prems
      PIPE.IH(2) [OF _ std_fds_upd [OF PIPE.prems(2), of 0]] by (simp del: exec_all.simps fun_upd_apply)
  ultimately show ?case
    using std_pipe [OF PIPE.prems(2)] by (simp add: exec_all_fork1)
qed (simp_all add: exec_all_fork1)

text \<open>
  C31. The shell runs a command as it should be run: started with the three standard descriptors, the
  system calls of runcmd execute exactly the programs that the command stands for, each with the
  descriptors its place in the command gives it: pipe ends and redirected files on 0 and 1, and
  no descriptor left open besides.
\<close>
theorem runcmd_plan:
  assumes "redirs_std c" and "std_fds t"
  shows "exec_all (runcmd c) \<pi> t = plan c \<pi> t"
  using assms by (rule runcmd_execs)

definition fds0 :: fdt where "fds0 = (\<lambda>i. if i < 3 then Some Console else None)"

theorem runcmd_plan_witness:
  "exec_all (runcmd (PIPE (EXEC [''cat'', ''a'']) (REDIR (EXEC [''wc'']) ''out'' 513 1))) [] fds0 =
     [([''cat'', ''a''], fds0(1 := Some (WrEnd []))),
      ([''wc''], fds0(0 := Some (RdEnd []), 1 := Some (File ''out'' 513)))]"
proof -
  have "std_fds fds0" by (simp add: std_fds_def fds0_def)
  then show ?thesis
    using runcmd_plan [of "PIPE (EXEC [''cat'', ''a'']) (REDIR (EXEC [''wc'']) ''out'' 513 1)" fds0 "[]"] by simp
qed

end
