(* ===== verification/ShellProps.thy ===== *)
theory ShellProps
  imports ShellPrint ShellRun
begin

text \<open>
  The shell as a whole: from the text of a line to the programs that run.
\<close>

lemma wf_redirs_std: "wf_cmd c \<Longrightarrow> redirs_std c"
  by (induction c) (auto simp: redir_ok_def)



text \<open>The shell opens the console until its three standard descriptors are in use.\<close>

lemma open_std_console:
  "exec_all (open_std 4 k) \<pi> (\<lambda>_. None) = exec_all k \<pi> (\<lambda>i. if i < 3 then Some (File ''console'' O_RDWR) else None)"
proof -
  let ?x = "File ''console'' O_RDWR"
  define t where "t n = (\<lambda>i. if i < n then Some ?x else None)" for n :: nat
  have a: "fdalloc ?x (t n) = Some (n, t (Suc n))" if "n < 4" for n
  proof -
    have "(t n)(n := Some ?x) = t (Suc n)" by (auto simp: t_def)
    with fdalloc_least [of "t n" n ?x] that show ?thesis by (simp add: t_def NOFILE_def)
  qed
  have "fd_close 3 (t 4) = t 3" by (auto simp: fd_close_def NOFILE_def t_def fun_eq_iff)
  moreover have "(\<lambda>_. None) = t 0" by (simp add: t_def)
  ultimately show ?thesis
    using a [of 0] a [of 1] a [of 2] a [of 3]
    by (simp add: eval_nat_numeral) (simp add: t_def)
qed

end
