(* ===== verification/Grep.thy ===== *)
theory Grep
  imports CString
begin

text \<open>
  grep.c: the pattern matcher, and the loop that splits what read returns into lines. Strings are
  the bytes before the NUL and \<open>p + 1\<close> is the tail. The results of the successive calls of read
  are the list \<open>reads\<close>; the loop ends with the first call that returns nothing. \<open>lang\<close> is the
  meaning of a pattern that the matcher is compared with.
\<close>

section \<open>Definitions\<close>

definition re_at :: "string \<Rightarrow> nat \<Rightarrow> char" where
  "re_at s i = (if i < length s then s ! i else nul)"

function matchhere :: "string \<Rightarrow> string \<Rightarrow> bool"
  and matchstar :: "char \<Rightarrow> string \<Rightarrow> string \<Rightarrow> bool" where
  "matchhere re line =
     (if re_at re 0 = nul then True
      else if re_at re 1 = CHR ''*'' then matchstar (re_at re 0) (drop 2 re) line
      else if re_at re 0 = CHR ''$'' \<and> re_at re 1 = nul then re_at line 0 = nul
      else if re_at line 0 \<noteq> nul \<and> (re_at re 0 = CHR ''.'' \<or> re_at re 0 = re_at line 0)
           then matchhere (drop 1 re) (drop 1 line)
      else False)"
| "matchstar c re line =
     (if matchhere re line then True
      else if re_at line 0 \<noteq> nul \<and> (re_at line 0 = c \<or> c = CHR ''.'') then matchstar c re (drop 1 line)
      else False)"
  by pat_completeness auto
termination
  by (relation "measures [\<lambda>x. case x of Inl (re, line) \<Rightarrow> length re | Inr (c, re, line) \<Rightarrow> length re,
        \<lambda>x. case x of Inl (re, line) \<Rightarrow> length line | Inr (c, re, line) \<Rightarrow> length line,
        \<lambda>x. case x of Inl _ \<Rightarrow> 0 | Inr _ \<Rightarrow> 1]")
     (auto simp: re_at_def split: if_splits)

declare matchhere.simps [simp del] matchstar.simps [simp del]

fun match_from :: "string \<Rightarrow> string \<Rightarrow> bool" where
  "match_from re [] = matchhere re []"
| "match_from re (c # line) = (if matchhere re (c # line) then True
     else if c \<noteq> nul then match_from re line else False)"

definition match :: "string \<Rightarrow> string \<Rightarrow> bool" where
  "match re line = (if re_at re 0 = CHR ''^'' then matchhere (drop 1 re) line else match_from re line)"

text \<open>
  The inner loop over the newlines of the buffer: what its calls of write write, and the part from
  the last newline on.
\<close>

function grep_lines :: "string \<Rightarrow> string \<Rightarrow> string list \<times> string" where
  "grep_lines pattern p =
     (case strchr p (CHR 0x0A) of
        None \<Rightarrow> ([], p)
      | Some q \<Rightarrow>
          let (out, rest) = grep_lines pattern (drop (q + 1) p)
          in ((if match pattern (take q p) then [take (q + 1) p] else []) @ out, rest))"
  by pat_completeness auto
termination
  by (relation "measure (\<lambda>(pattern, p). length p)") (auto simp: strchr_Some)

declare grep_lines.simps [simp del]

fun grep :: "string \<Rightarrow> string \<Rightarrow> string list \<Rightarrow> string list" where
  "grep pattern buf [] = []"
| "grep pattern buf (r # reads) =
     (if r = [] then []
      else
        let b = buf @ r;
            (out, p) = grep_lines pattern b
        in out @ grep pattern (if length p = length b then [] else p) reads)"

section \<open>The meaning of a pattern\<close>

datatype atom = One char | Star char

fun atoms :: "string \<Rightarrow> atom list \<times> bool" where
  "atoms [] = ([], False)"
| "atoms [c] = (if c = CHR ''$'' then ([], True) else ([One c], False))"
| "atoms (c # d # re) =
     (if d = CHR ''*'' then (let (xs, e) = atoms re in (Star c # xs, e))
      else (let (xs, e) = atoms (d # re) in (One c # xs, e)))"

definition accepts :: "char \<Rightarrow> char \<Rightarrow> bool" where
  "accepts c x \<longleftrightarrow> c = CHR ''.'' \<or> c = x"

fun lang :: "atom list \<Rightarrow> string set" where
  "lang [] = {[]}"
| "lang (One c # xs) = {x # u |x u. accepts c x \<and> u \<in> lang xs}"
| "lang (Star c # xs) = {v @ u |v u. (\<forall>x \<in> set v. accepts c x) \<and> u \<in> lang xs}"

text \<open>The pattern matches at the beginning of the line.\<close>

definition starts :: "string \<Rightarrow> string \<Rightarrow> bool" where
  "starts re line \<longleftrightarrow> (\<exists>u v. line = u @ v \<and> u \<in> lang (fst (atoms re)) \<and> (snd (atoms re) \<longrightarrow> v = []))"

section \<open>The matcher\<close>

lemma starts_Nil: "starts [] line"
  by (simp add: starts_def)

lemma starts_dollar: "starts [CHR ''$''] line \<longleftrightarrow> line = []"
  by (simp add: starts_def)

lemma starts_one:
  assumes "re = [] \<longrightarrow> c \<noteq> CHR ''$''" "re \<noteq> [] \<longrightarrow> hd re \<noteq> CHR ''*''"
  shows "starts (c # re) line \<longleftrightarrow> (\<exists>x t. line = x # t \<and> accepts c x \<and> starts re t)"
proof -
  have a: "fst (atoms (c # re)) = One c # fst (atoms re)" "snd (atoms (c # re)) = snd (atoms re)"
    using assms by (cases re; simp add: split_def Let_def)+
  show ?thesis
  proof
    assume "starts (c # re) line"
    then obtain u' v where l: "line = u' @ v" "u' \<in> lang (One c # fst (atoms re))" "snd (atoms re) \<longrightarrow> v = []"
      unfolding starts_def a by blast
    then obtain x u where "u' = x # u" "accepts c x" "u \<in> lang (fst (atoms re))" by auto
    moreover from this l(3) have "starts re (u @ v)" unfolding starts_def by blast
    ultimately show "\<exists>x t. line = x # t \<and> accepts c x \<and> starts re t" using l(1) by simp
  next
    assume "\<exists>x t. line = x # t \<and> accepts c x \<and> starts re t"
    then obtain x t where l: "line = x # t" "accepts c x" "starts re t" by blast
    then obtain u v where "t = u @ v" "u \<in> lang (fst (atoms re))" "snd (atoms re) \<longrightarrow> v = []"
      unfolding starts_def by blast
    with l show "starts (c # re) line" unfolding starts_def a by (intro exI [of _ "x # u"] exI [of _ v]) simp
  qed
qed

lemma starts_star_split:
  "starts (c # CHR ''*'' # re) line \<longleftrightarrow> (\<exists>v t. line = v @ t \<and> (\<forall>x \<in> set v. accepts c x) \<and> starts re t)"
proof -
  have a: "fst (atoms (c # CHR ''*'' # re)) = Star c # fst (atoms re)"
    "snd (atoms (c # CHR ''*'' # re)) = snd (atoms re)" by (simp_all add: split_def Let_def)
  show ?thesis
  proof
    assume "starts (c # CHR ''*'' # re) line"
    then obtain u' w where l: "line = u' @ w" "u' \<in> lang (Star c # fst (atoms re))" "snd (atoms re) \<longrightarrow> w = []"
      unfolding starts_def a by blast
    then obtain v u where "u' = v @ u" "\<forall>x \<in> set v. accepts c x" "u \<in> lang (fst (atoms re))" by auto
    moreover from this l(3) have "starts re (u @ w)" unfolding starts_def by blast
    ultimately show "\<exists>v t. line = v @ t \<and> (\<forall>x \<in> set v. accepts c x) \<and> starts re t" using l(1) by auto
  next
    assume "\<exists>v t. line = v @ t \<and> (\<forall>x \<in> set v. accepts c x) \<and> starts re t"
    then obtain v t where l: "line = v @ t" "\<forall>x \<in> set v. accepts c x" "starts re t" by blast
    then obtain u w where "t = u @ w" "u \<in> lang (fst (atoms re))" "snd (atoms re) \<longrightarrow> w = []"
      unfolding starts_def by blast
    with l show "starts (c # CHR ''*'' # re) line"
      unfolding starts_def a by (intro exI [of _ "v @ u"] exI [of _ w]) auto
  qed
qed

lemma starts_star:
  "starts (c # CHR ''*'' # re) line \<longleftrightarrow>
     starts re line \<or> (\<exists>x t. line = x # t \<and> accepts c x \<and> starts (c # CHR ''*'' # re) t)"
  (is "?L \<longleftrightarrow> ?R")
proof
  assume ?L
  then obtain v t where v: "line = v @ t" "\<forall>x \<in> set v. accepts c x" "starts re t"
    by (auto simp: starts_star_split)
  show ?R
  proof (cases v)
    case (Cons x v')
    then have "starts (c # CHR ''*'' # re) (v' @ t)" using v by (auto simp: starts_star_split)
    then show ?thesis using v Cons by auto
  qed (use v in simp)
next
  assume ?R
  then show ?L
  proof
    assume "starts re line"
    then show ?L unfolding starts_star_split by (intro exI [of _ "[]"] exI [of _ line]) simp
  next
    assume "\<exists>x t. line = x # t \<and> accepts c x \<and> starts (c # CHR ''*'' # re) t"
    then obtain x v t where "line = x # v @ t" "accepts c x" "\<forall>x \<in> set v. accepts c x" "starts re t"
      by (auto simp: starts_star_split)
    then show ?L unfolding starts_star_split by (intro exI [of _ "x # v"] exI [of _ t]) simp
  qed
qed

lemma re_at_simps [simp]: "re_at (c # re) 0 = c" "re_at (c # re) (Suc i) = re_at re i" "re_at [] i = nul"
  by (simp_all add: re_at_def)

lemma starts_one_Nil: "re = [] \<longrightarrow> c \<noteq> CHR ''$'' \<Longrightarrow> re \<noteq> [] \<longrightarrow> hd re \<noteq> CHR ''*'' \<Longrightarrow> \<not> starts (c # re) []"
  by (simp add: starts_one)

lemma matchhere_starts:
  "nul \<notin> set re \<Longrightarrow> nul \<notin> set line \<Longrightarrow> matchhere re line \<longleftrightarrow> starts re line"
  "nul \<notin> set re \<Longrightarrow> nul \<notin> set line \<Longrightarrow> c \<noteq> nul \<Longrightarrow>
     matchstar c re line \<longleftrightarrow> starts (c # CHR ''*'' # re) line"
proof (induction re line and c re line rule: matchhere_matchstar.induct)
  case (1 re line)
  show ?case
  proof (cases re)
    case Nil
    then show ?thesis by (simp add: matchhere.simps re_at_def starts_Nil)
  next
    case (Cons c re')
    have c: "c \<noteq> nul" "nul \<notin> set re'" using Cons 1(3) by auto
    consider (star) re'' where "re' = CHR ''*'' # re''" | (dollar) "re' = []" "c = CHR ''$''"
      | (one) "re' = [] \<longrightarrow> c \<noteq> CHR ''$''" "re' \<noteq> [] \<longrightarrow> hd re' \<noteq> CHR ''*''"
      by (cases re') auto
    then show ?thesis
    proof cases
      case star
      then show ?thesis using 1 Cons c by (subst matchhere.simps) simp
    next
      case dollar
      then show ?thesis using Cons 1(4) by (subst matchhere.simps) (cases line; auto simp: starts_dollar)
    next
      case one
      have n: "re_at re 1 \<noteq> CHR ''*''" "\<not> (re_at re 0 = CHR ''$'' \<and> re_at re 1 = nul)"
        using one Cons c by (cases re'; auto)+
      show ?thesis
      proof (cases line)
        case Nil
        then show ?thesis using n one Cons c by (subst matchhere.simps) (simp add: starts_one)
      next
        case t: (Cons x line')
        have "x \<noteq> nul" "nul \<notin> set line'" using t 1(4) by auto
        moreover have "matchhere re' line' \<longleftrightarrow> starts re' line'"
          if "c = CHR ''.'' \<or> c = x"
          using 1(2) n Cons t c that \<open>x \<noteq> nul\<close> \<open>nul \<notin> set line'\<close> by simp
        ultimately show ?thesis
          using n one Cons c t by (subst matchhere.simps) (auto simp: starts_one accepts_def)
      qed
    qed
  qed
next
  case (2 c re line)
  show ?case
  proof (cases line)
    case Nil
    then show ?thesis using 2 by (subst matchstar.simps, subst starts_star) simp
  next
    case (Cons x line')
    then have "x \<noteq> nul" "nul \<notin> set line'" using 2(4) by auto
    then show ?thesis
      using 2 Cons by (subst matchstar.simps, subst starts_star) (auto simp: accepts_def)
  qed
qed

lemma match_from_suffix:
  "nul \<notin> set re \<Longrightarrow> nul \<notin> set line \<Longrightarrow> match_from re line \<longleftrightarrow> (\<exists>u v. line = u @ v \<and> starts re v)"
proof (induction line)
  case Nil
  then show ?case by (simp add: matchhere_starts)
next
  case (Cons c line)
  have "(\<exists>u v. c # line = u @ v \<and> starts re v) \<longleftrightarrow> starts re (c # line) \<or> (\<exists>u v. line = u @ v \<and> starts re v)"
    by (metis append_Cons append_Nil list.inject neq_Nil_conv)
  moreover have "c \<noteq> nul" using Cons.prems by auto
  ultimately show ?case using Cons matchhere_starts(1) [of re "c # line"] by simp
qed

text \<open>
  C33. grep's matcher implements its patterns: a pattern that begins with a caret matches a line that
  starts with a string of its language, any other pattern matches a line that contains one, and a
  dollar at the end of the pattern asks that it end there.
\<close>
theorem match_correct:
  assumes "nul \<notin> set re" and "nul \<notin> set line"
  shows "match re line \<longleftrightarrow>
    (if re \<noteq> [] \<and> hd re = CHR ''^'' then starts (tl re) line else (\<exists>u v. line = u @ v \<and> starts re v))"
proof (cases "\<exists>re'. re = CHR ''^'' # re'")
  case True
  then show ?thesis using assms matchhere_starts(1) by (auto simp: match_def re_at_def)
next
  case False
  then have "re_at re 0 \<noteq> CHR ''^''" using assms(1) by (cases re) (auto simp: re_at_def)
  then show ?thesis
    using False match_from_suffix [OF assms] by (cases re) (simp_all add: match_def)
qed

theorem match_correct_witness:
  "match ''b*c$'' ''abbc'' \<and> \<not> match ''^b*c$'' ''abbc'' \<and>
   (\<exists>u v. ''abbc'' = u @ v \<and> starts ''b*c$'' v) \<and> \<not> starts ''b*c$'' ''abbc''"
proof -
  have "match ''b*c$'' ''abbc''" "\<not> match ''^b*c$'' ''abbc''" by code_simp+
  then show ?thesis using match_correct [of "''b*c$''" "''abbc''"] match_correct [of "''^b*c$''" "''abbc''"] by simp
qed

section \<open>The lines\<close>

text \<open>The segments of a text between newlines; the last one is not terminated.\<close>

fun split_nl :: "string \<Rightarrow> string list" where
  "split_nl [] = [[]]"
| "split_nl (c # cs) =
     (if c = CHR 0x0A then [] # split_nl cs else (c # hd (split_nl cs)) # tl (split_nl cs))"

definition selected :: "string \<Rightarrow> string list \<Rightarrow> string list" where
  "selected pattern ls = map (\<lambda>l. l @ [CHR 0x0A]) (filter (match pattern) ls)"

lemma split_nl_ne [simp]: "split_nl s \<noteq> []"
  by (cases s) auto

lemma split_nl_plain: "CHR 0x0A \<notin> set s \<Longrightarrow> split_nl s = [s]"
  by (induction s) auto

lemma split_nl_line: "CHR 0x0A \<notin> set l \<Longrightarrow> split_nl (l @ CHR 0x0A # s) = l # split_nl s"
  by (induction l) auto

lemma split_nl_append: "split_nl (xs @ ys) = butlast (split_nl xs) @ split_nl (last (split_nl xs) @ ys)"
proof (induction xs)
  case (Cons c xs)
  obtain l ls where s: "split_nl xs = l # ls" by (cases "split_nl xs") auto
  show ?case
  proof (cases "c = CHR 0x0A")
    case True
    then show ?thesis using Cons by simp
  next
    case False
    then show ?thesis using Cons s by (cases ls) simp_all
  qed
qed simp

lemma last_split_plain: "CHR 0x0A \<notin> set (last (split_nl s))"
proof (induction s)
  case (Cons c s)
  then show ?case by (cases "split_nl s"; cases "tl (split_nl s)") auto
qed simp

lemma last_split_le: "length (last (split_nl s)) \<le> length s"
proof (induction s)
  case (Cons c s)
  obtain l ls where "split_nl s = l # ls" by (cases "split_nl s") auto
  with Cons show ?case by (cases ls) auto
qed simp

lemma last_split_shorter: "length (last (split_nl s)) < length s \<longleftrightarrow> CHR 0x0A \<in> set s"
proof (induction s)
  case (Cons c s)
  note le = last_split_le
  show ?case
  proof (cases "c = CHR 0x0A")
    case True
    then show ?thesis using le [of s] by simp
  next
    case False
    obtain l ls where s: "split_nl s = l # ls" by (cases "split_nl s") auto
    show ?thesis using Cons False s le [of s] split_nl_plain [of s] by (cases ls) auto
  qed
qed simp

lemma grep_lines_split:
  "grep_lines pattern p = (selected pattern (butlast (split_nl p)), last (split_nl p))"
proof (induction pattern p rule: grep_lines.induct)
  case (1 pattern p)
  show ?case
  proof (cases "strchr p (CHR 0x0A)")
    case None
    then have "split_nl p = [p]" by (simp add: split_nl_plain)
    then show ?thesis by (subst grep_lines.simps, subst None) (simp add: selected_def)
  next
    case (Some q)
    then have q: "q < length p" "p ! q = CHR 0x0A" "CHR 0x0A \<notin> set (take q p)" by (simp_all add: strchr_Some)
    then have p: "p = take q p @ CHR 0x0A # drop (q + 1) p" using id_take_nth_drop [of q p] by simp
    have "take (q + 1) p = take q p @ [CHR 0x0A]" using q by (simp add: take_Suc_conv_app_nth)
    moreover have "split_nl p = take q p # split_nl (drop (q + 1) p)"
      using split_nl_line [OF q(3)] p by metis
    ultimately show ?thesis using 1 [OF Some] Some
      by (subst grep_lines.simps) (simp add: selected_def split_def Let_def)
  qed
qed





end
