(* ===== verification/FindSum.thy ===== *)
theory FindSum
  imports UProg
begin

text \<open>
  find_sum.c: adding up the runs of digits in the arguments, and writing the sum in decimal to a file.
  \<open>int\<close> and \<open>long long\<close> arithmetic that leaves its range is undefined. \<open>str[i]\<close> with \<open>i++\<close> is the tail of the
  string; a store at the end of the buffer extends the list, and \<open>RESULT_BUF\<close> is its size.
\<close>

section \<open>Definitions\<close>

definition is_digit :: "char \<Rightarrow> bool" where
  "is_digit c \<longleftrightarrow> schar CHR ''0'' \<le> schar c \<and> schar c \<le> schar CHR ''9''"

text \<open>The swapping loop of \<open>reverse\<close> on the indices \<open>start\<close> and \<open>end\<close>.\<close>

function reverse_loop :: "int \<Rightarrow> int \<Rightarrow> string \<Rightarrow> string" where
  "reverse_loop start fin str =
     (if start < fin then
        let temp = str ! nat start;
            str = str[nat start := str ! nat fin];
            str = str[nat fin := temp]
        in reverse_loop (start + 1) (fin - 1) str
      else str)"
  by pat_completeness auto
termination by (relation "measure (\<lambda>(s, e, str). nat (e - s))") auto

declare reverse_loop.simps [simp del]

definition reverse :: "string \<Rightarrow> int \<Rightarrow> string" where
  "reverse str len = reverse_loop 0 (len - 1) str"

text \<open>The digit loop of \<open>itoa\<close>; \<open>/\<close> and \<open>%\<close> truncate towards zero.\<close>

function itoa_loop :: "int \<Rightarrow> string \<Rightarrow> string" where
  "itoa_loop num str =
     (if num \<noteq> 0 then
        itoa_loop (sgn num * (abs num div 10)) (str @ [char_of (sgn num * (abs num mod 10) + 48)])
      else str)"
  by pat_completeness auto
termination by (relation "measure (\<lambda>(n, s). nat (abs n))") (auto simp: abs_mult)

declare itoa_loop.simps [simp del]

definition itoa :: "int \<Rightarrow> string" where
  "itoa num =
     (if num = 0 then ''0''
      else let str = itoa_loop num [] in reverse str (int (length str)))"

definition INT_MAX :: int where "INT_MAX = 2 ^ 31 - 1"
definition LLONG_MAX :: int where "LLONG_MAX = 2 ^ 63 - 1"

fun number_loop :: "int \<Rightarrow> string \<Rightarrow> (int \<times> string) res" where
  "number_loop n [] = Inr (n, [])"
| "number_loop n (c # s) =
     (if is_digit c then
        let n = n * 10 + (schar c - schar CHR ''0'')
        in if n > INT_MAX then Inl (Undef ''signed overflow'') else number_loop n s
      else Inr (n, c # s))"

lemma number_loop_shorter: "number_loop n s = Inr (m, t) \<Longrightarrow> length t \<le> length s"
  by (induction n s rule: number_loop.induct) (auto simp: Let_def split: if_splits)

lemma number_loop_digit: "number_loop n (c # s) = Inr (m, t) \<Longrightarrow> is_digit c \<Longrightarrow> length t \<le> length s"
  using number_loop_shorter by (auto simp: Let_def split: if_splits)

function sum_loop :: "int \<Rightarrow> string \<Rightarrow> int res" where
  "sum_loop tot [] = Inr tot"
| "sum_loop tot (c # s) =
     (if is_digit c then
        bindr (number_loop 0 (c # s)) (\<lambda>(n, t).
          if tot + n > LLONG_MAX then Inl (Undef ''signed overflow'') else sum_loop (tot + n) t)
      else sum_loop tot s)"
  by pat_completeness auto
termination by (relation "measure (\<lambda>(t, s). length s)") (auto dest: number_loop_digit simp: less_Suc_eq_le simp del: number_loop.simps)

fun sum_args :: "int \<Rightarrow> string list \<Rightarrow> int res" where
  "sum_args tot [] = Inr tot"
| "sum_args tot (a # as) = bindr (sum_loop tot a) (\<lambda>tot. sum_args tot as)"

definition RESULT_BUF :: nat where "RESULT_BUF = 50"

definition find_sum_main :: "string list \<Rightarrow> prog" where
  "find_sum_main argv =
     (if length argv \<le> 1 then printf 2 (''Usage: find_sum <string1> [string2] ...'' @ nl) [] Exit
      else case sum_args 0 (tl argv) of
        Inl _ \<Rightarrow> Fault
      | Inr total_sum \<Rightarrow>
          let result_buf = itoa total_sum @ nl
          in if length result_buf > RESULT_BUF then Fault
             else Open ''result.txt'' 0x201 (\<lambda>fd.
               if fd < 0 then printf 2 (''find_sum: cannot open result.txt'' @ nl) [] Exit
               else Write fd result_buf (\<lambda>n.
                 if n \<noteq> int (length result_buf)
                 then printf 2 (''find_sum: error writing to result.txt'' @ nl) [] (Close fd Exit)
                 else Close fd Exit)))"

section \<open>Reversing\<close>

lemma reverse_loop_eq:
  assumes "0 \<le> s" "e < int (length str)"
  shows "reverse_loop s e str =
    map (\<lambda>i. if s \<le> int i \<and> int i \<le> e then str ! nat (s + e - int i) else str ! i) [0..<length str]"
  using assms
proof (induction s e str rule: reverse_loop.induct)
  case (1 s e str)
  show ?case
  proof (cases "s < e")
    case True
    let ?str = "str[nat s := str ! nat e, nat e := str ! nat s]"
    have "reverse_loop s e str = reverse_loop (s + 1) (e - 1) ?str"
      using True by (subst reverse_loop.simps) (simp add: Let_def)
    also have "\<dots> = map (\<lambda>i. if s + 1 \<le> int i \<and> int i \<le> e - 1 then ?str ! nat (s + e - int i) else ?str ! i) [0..<length str]"
      using 1 True by (simp add: Let_def)
    also have "\<dots> = map (\<lambda>i. if s \<le> int i \<and> int i \<le> e then str ! nat (s + e - int i) else str ! i) [0..<length str]"
    proof (rule map_cong [OF refl])
      fix i assume "i \<in> set [0..<length str]"
      then have i: "i < length str" by simp
      consider "int i = s" | "int i = e" | "s < int i" "int i < e" | "int i < s \<or> e < int i" by linarith
      then show "(if s + 1 \<le> int i \<and> int i \<le> e - 1 then ?str ! nat (s + e - int i) else ?str ! i) =
          (if s \<le> int i \<and> int i \<le> e then str ! nat (s + e - int i) else str ! i)"
        using True "1.prems" i by cases (auto simp: nth_list_update nat_eq_iff)
    qed
    finally show ?thesis .
  next
    case False
    then have "nat (s + e - int i) = i" if "s \<le> int i" "int i \<le> e" for i using that by simp
    then show ?thesis
      using False by (subst reverse_loop.simps) (auto intro!: nth_equalityI)
  qed
qed

lemma reverse_rev: "reverse str (int (length str)) = rev str"
proof -
  have "nat (int (length str) - 1 - int i) = length str - Suc i" for i by linarith
  then show ?thesis
    unfolding reverse_def by (subst reverse_loop_eq) (auto intro!: nth_equalityI simp: rev_nth)
qed

section \<open>Decimal numbers\<close>

definition dec_from :: "int \<Rightarrow> string \<Rightarrow> int" where
  "dec_from n s = fold (\<lambda>c n. n * 10 + (schar c - schar CHR ''0'')) s n"

definition dec :: "string \<Rightarrow> int" where "dec s = dec_from 0 s"

lemma dec_from_simps [simp]:
  "dec_from n [] = n" "dec_from n (c # s) = dec_from (n * 10 + (schar c - schar CHR ''0'')) s"
  "dec_from n (s @ t) = dec_from (dec_from n s) t"
  by (simp_all add: dec_from_def)

lemma dec_from_mono:
  assumes "0 \<le> n" "\<forall>c \<in> set s. is_digit c" shows "n \<le> dec_from n s"
  using assms
proof (induction s arbitrary: n)
  case (Cons c s)
  then have "schar CHR ''0'' \<le> schar c" by (simp add: is_digit_def)
  then have "n \<le> n * 10 + (schar c - schar CHR ''0'')" using Cons.prems(1) by linarith
  with Cons show ?case by (simp, metis order_trans)
qed simp

lemma number_loop_eq:
  assumes "0 \<le> n" "dec_from n (takeWhile is_digit s) \<le> INT_MAX"
  shows "number_loop n s = Inr (dec_from n (takeWhile is_digit s), dropWhile is_digit s)"
  using assms
proof (induction s arbitrary: n)
  case (Cons c s)
  show ?case
  proof (cases "is_digit c")
    case True
    let ?n = "n * 10 + (schar c - schar CHR ''0'')"
    have "0 \<le> ?n" using True Cons.prems(1) by (simp add: is_digit_def)
    moreover have "?n \<le> dec_from ?n (takeWhile is_digit s)"
      using \<open>0 \<le> ?n\<close> by (intro dec_from_mono) (auto dest: set_takeWhileD)
    ultimately show ?thesis using True Cons.IH [of ?n] Cons.prems(2) by (simp add: Let_def)
  qed simp
qed simp

text \<open>The maximal runs of digits of a string.\<close>

function runs :: "string \<Rightarrow> string list" where
  "runs [] = []"
| "runs (c # s) =
     (if is_digit c then (c # takeWhile is_digit s) # runs (dropWhile is_digit s) else runs s)"
  by pat_completeness auto
termination
  by (relation "measure length") (auto simp: less_Suc_eq_le length_dropWhile_le)

definition sum_runs :: "string list \<Rightarrow> int" where
  "sum_runs as = sum_list (map dec (concat (map runs as)))"

lemma runs_nonneg: "r \<in> set (runs s) \<Longrightarrow> 0 \<le> dec r"
proof (induction s rule: runs.induct)
  case (2 c s)
  have "0 \<le> dec (c # takeWhile is_digit s)" if "is_digit c"
    unfolding dec_def using dec_from_mono [of 0 "c # takeWhile is_digit s"] that
    by (auto dest: set_takeWhileD)
  with 2 show ?case by (auto split: if_splits)
qed simp

lemma sum_list_runs_nonneg: "0 \<le> sum_list (map dec (runs s))"
  by (intro sum_list_nonneg) (auto simp: runs_nonneg)

lemma sum_loop_eq:
  assumes "\<forall>r \<in> set (runs s). dec r \<le> INT_MAX" "tot + sum_list (map dec (runs s)) \<le> LLONG_MAX"
  shows "sum_loop tot s = Inr (tot + sum_list (map dec (runs s)))"
  using assms
proof (induction s arbitrary: tot rule: runs.induct)
  case (2 c s)
  show ?case
  proof (cases "is_digit c")
    case True
    let ?n = "dec (c # takeWhile is_digit s)"
    have "number_loop 0 (c # s) = Inr (?n, dropWhile is_digit s)"
      using number_loop_eq [of 0 "c # s"] True 2(3) by (simp add: dec_def)
    moreover have "tot + ?n \<le> LLONG_MAX"
      using 2(4) True sum_list_runs_nonneg [of "dropWhile is_digit s"] by simp
    ultimately show ?thesis using 2(1) [OF True, of "tot + ?n"] 2(3,4) True by (simp add: algebra_simps)
  qed (use 2 in auto)
qed simp

lemma sum_args_eq:
  assumes "\<forall>a \<in> set as. \<forall>r \<in> set (runs a). dec r \<le> INT_MAX" "tot + sum_runs as \<le> LLONG_MAX"
  shows "sum_args tot as = Inr (tot + sum_runs as)"
  using assms
proof (induction as arbitrary: tot)
  case Nil
  then show ?case by (simp add: sum_runs_def)
next
  case (Cons a as)
  have "0 \<le> sum_runs as" unfolding sum_runs_def by (intro sum_list_nonneg) (auto simp: runs_nonneg)
  then have "sum_loop tot a = Inr (tot + sum_list (map dec (runs a)))"
    using Cons.prems by (intro sum_loop_eq) (auto simp: sum_runs_def)
  then show ?case using Cons by (simp add: sum_runs_def algebra_simps)
qed

text \<open>The digits of \<open>itoa\<close>, lowest first, and their value.\<close>

lemma digit_char:
  assumes "0 \<le> d" "d < 10"
  shows "is_digit (char_of (d + 48))" "schar (char_of (d + 48)) - schar CHR ''0'' = d"
proof -
  have "d = 0 \<or> d = 1 \<or> d = 2 \<or> d = 3 \<or> d = 4 \<or> d = 5 \<or> d = 6 \<or> d = 7 \<or> d = 8 \<or> d = 9" using assms by presburger
  then show "is_digit (char_of (d + 48))" "schar (char_of (d + 48)) - schar CHR ''0'' = d"
    by (auto simp: is_digit_def schar_def)
qed

lemma itoa_loop_0 [simp]: "itoa_loop 0 str = str"
  by (simp add: itoa_loop.simps)

lemma itoa_loop_step: "0 < num \<Longrightarrow> itoa_loop num str = itoa_loop (num div 10) (str @ [char_of (num mod 10 + 48)])"
  by (subst itoa_loop.simps) simp

lemma nat_digit_induct [consumes 1, case_names zero step]:
  fixes num :: int
  assumes "0 \<le> num" "P 0" "\<And>n. 0 < n \<Longrightarrow> P (n div 10) \<Longrightarrow> P n"
  shows "P num"
proof -
  have "P (int n)" for n
  proof (induction n rule: less_induct)
    case (less n)
    show ?case
    proof (cases "n = 0")
      case False
      then have "P (int (n div 10))" using less by simp
      then show ?thesis using assms(3) [of "int n"] False by (simp add: zdiv_int)
    qed (use assms(2) in simp)
  qed
  from this [of "nat num"] assms(1) show ?thesis by simp
qed

lemma itoa_loop_digits:
  assumes "0 \<le> num" "\<forall>c \<in> set str. is_digit c" shows "\<forall>c \<in> set (itoa_loop num str). is_digit c"
  using assms(1,2)
proof (induction num arbitrary: str rule: nat_digit_induct)
  case (step n)
  have "is_digit (char_of (n mod 10 + 48))" by (rule digit_char) simp_all
  then have "\<forall>c \<in> set (itoa_loop (n div 10) (str @ [char_of (n mod 10 + 48)])). is_digit c"
    using step by (intro step.IH) auto
  then show ?case using step.hyps by (simp add: itoa_loop_step)
qed simp

lemma itoa_loop_value:
  assumes "0 \<le> num" shows "dec_from 0 (rev (itoa_loop num str)) = dec_from num (rev str)"
  using assms
proof (induction num arbitrary: str rule: nat_digit_induct)
  case (step n)
  have "schar (char_of (n mod 10 + 48)) - schar CHR ''0'' = n mod 10" by (rule digit_char) simp_all
  with step show ?case by (simp add: itoa_loop_step)
qed simp

lemma itoa_loop_length:
  assumes "0 \<le> num" "num < 10 ^ k" shows "length (itoa_loop num str) \<le> length str + k"
  using assms
proof (induction k arbitrary: num str)
  case (Suc k)
  show ?case
  proof (cases "num = 0")
    case False
    then have "0 \<le> num div 10" "num div 10 < 10 ^ k" using Suc.prems by auto
    from Suc.IH [OF this, of "str @ [char_of (num mod 10 + 48)]"] False Suc.prems show ?thesis
      by (simp add: itoa_loop_step)
  qed simp
next
  case 0
  then have "num = 0" by simp
  then show ?case by simp
qed

lemma itoa_dec:
  assumes "0 \<le> num"
  shows "dec (itoa num) = num" "\<forall>c \<in> set (itoa num). is_digit c" "num \<le> LLONG_MAX \<Longrightarrow> length (itoa num) \<le> 19"
proof -
  show "dec (itoa num) = num"
    using itoa_loop_value [OF assms, of "[]"] by (auto simp: itoa_def dec_def reverse_rev Let_def)
  show "\<forall>c \<in> set (itoa num). is_digit c"
    using itoa_loop_digits [OF assms, of "[]"] by (auto simp: itoa_def reverse_rev Let_def is_digit_def schar_def)
  show "length (itoa num) \<le> 19" if "num \<le> LLONG_MAX"
    using itoa_loop_length [OF assms, of 19 "[]"] that
    by (auto simp: itoa_def reverse_rev Let_def LLONG_MAX_def)
qed



end
