(* ===== verification/UserProps.thy ===== *)
theory UserProps
  imports UProg Grep FindSum Cga
begin

text \<open>
  The main program of grep.c, and properties that relate the user library to the kernel.
\<close>

section \<open>grep.c\<close>

fun grep_writes :: "string list \<Rightarrow> prog \<Rightarrow> prog" where
  "grep_writes [] k = k"
| "grep_writes (w # ws) k = Write 1 w (\<lambda>_. grep_writes ws k)"

fun grep_args :: "string \<Rightarrow> files \<Rightarrow> string list \<Rightarrow> prog" where
  "grep_args pattern fs [] = Exit"
| "grep_args pattern fs (a # as) = Open a 0 (\<lambda>fd.
     if fd < 0 then printf 1 (''grep: cannot open %s'' @ nl) [ustr a] Exit
     else grep_writes (grep pattern [] (fst (fs a))) (Close fd (grep_args pattern fs as)))"

definition grep_main :: "string list \<times> bool \<Rightarrow> files \<Rightarrow> string list \<Rightarrow> prog" where
  "grep_main stdin fs argv =
     (if length argv \<le> 1 then printf 2 (''usage: grep pattern [file ...]'' @ nl) [] Exit
      else if length argv \<le> 2 then grep_writes (grep (argv ! 1) [] (fst stdin)) Exit
      else grep_args (argv ! 1) fs (drop 2 argv))"

section \<open>Two printf\<close>

definition to_lower :: "char \<Rightarrow> char" where
  "to_lower c = (if c \<in> set ''ABCDEF'' then char_of (of_char c + 32 :: int) else c)"

lemma digits_agree: "d < 16 \<Longrightarrow> to_lower (u_digits ! d) = digits ! d"
proof -
  have "\<forall>d \<in> set [0..<16]. to_lower (u_digits ! d) = digits ! d" by code_simp
  then show "d < 16 \<Longrightarrow> to_lower (u_digits ! d) = digits ! d" by simp
qed

lemma print_digits_agree:
  assumes "0 < base" "base \<le> 16"
  shows "map to_lower (u_print_digits base x) = print_digits base x"
proof (induction x rule: less_induct)
  case (less x)
  have "to_lower (u_digits ! (x mod base)) = digits ! (x mod base)"
    using assms by (intro digits_agree) (metis mod_less_divisor order_less_le_trans)
  moreover have "x div base < x" if "\<not> base \<le> 1" "x div base \<noteq> 0"
    using that by (intro div_less_dividend) (auto intro: gr0I)
  ultimately show ?case
    using less by (auto simp: u_print_digits.simps [of base x] print_digits.simps [of base x])
qed

text \<open>
  C38. The two printf agree on numbers: for every integer, in decimal and in hexadecimal, signed or
  not, the user library prints the characters that the kernel prints, with capital letters for
  the digits above nine.
\<close>
theorem printint_agree:
  "map to_lower (u_int_chars xx 10 sg) = int_chars xx 10 sg \<and> map to_lower (u_int_chars xx 16 sg) = int_chars xx 16 sg"
proof -
  have m: "to_lower CHR ''-'' = CHR ''-''" by (simp add: to_lower_def)
  have "map to_lower (u_int_chars xx base sg) = int_chars xx base sg" if "0 < base" "base \<le> 16" for base
    using print_digits_agree [OF that] m by (simp add: u_int_chars_def int_chars_def Let_def flip: rev_map)
  then show ?thesis by simp
qed

end
