(* ===== verification/Kbd.thy ===== *)
theory Kbd
  imports ConsoleProps
begin

text \<open>
  The input side of the console: the keyboard (kbd.c, kbd.h) and the serial port (uart.c), and what
  their interrupts do to the line editor. A device holds the bytes that have arrived and have
  not been fetched; the keyboard driver has its \<open>shift\<close> state besides. The key tables are
  lists of the rows in kbd.h with the designated entries after them.
\<close>

section \<open>Definitions: the keyboard\<close>

record kbd =
  kb_shift :: nat
  kb_queue :: "nat list"

definition SHIFT :: nat where "SHIFT = 1"
definition CTL :: nat where "CTL = 2"
definition ALT :: nat where "ALT = 4"
definition CAPSLOCK :: nat where "CAPSLOCK = 8"
definition NUMLOCK :: nat where "NUMLOCK = 16"
definition SCROLLLOCK :: nat where "SCROLLLOCK = 32"
definition E0ESC :: nat where "E0ESC = 64"

definition key_table :: "nat list \<Rightarrow> (nat \<times> nat) list \<Rightarrow> nat \<Rightarrow> nat" where
  "key_table rows others i =
     (case map_of others i of Some v \<Rightarrow> v | None \<Rightarrow> if i < length rows then rows ! i else 0)"

definition shiftcode :: "nat \<Rightarrow> nat" where
  "shiftcode = key_table []
     [(0x1D, CTL), (0x2A, SHIFT), (0x36, SHIFT), (0x38, ALT), (0x9D, CTL), (0xB8, ALT)]"

definition togglecode :: "nat \<Rightarrow> nat" where
  "togglecode = key_table [] [(0x3A, CAPSLOCK), (0x45, NUMLOCK), (0x46, SCROLLLOCK)]"

abbreviation codes :: "string \<Rightarrow> nat list" where "codes \<equiv> map of_char"

text \<open>The keypad and cursor entries that the tables share.\<close>

definition special_keys :: "(nat \<times> nat) list" where
  "special_keys = [(0xC8, 0xE2), (0xD0, 0xE3), (0xC9, 0xE6), (0xD1, 0xE7), (0xCB, 0xE4), (0xCD, 0xE5),
     (0x97, 0xE0), (0xCF, 0xE1), (0xD2, 0xE8), (0xD3, 0xE9)]"

definition normal_rows :: "nat list" where
  "normal_rows =
     [0, 0x1B] @ codes ''123456'' @
      codes ''7890-='' @ [8, 9] @
      codes ''qwertyui'' @
      codes ''op[]'' @ [10, 0] @ codes ''as'' @
      codes ''dfghjkl;'' @
      [39] @ codes ''`'' @ [0, 92] @ codes ''zxcv'' @
      codes ''bnm,./'' @ [0] @ codes ''*'' @
      [0] @ codes '' '' @ [0, 0, 0, 0, 0, 0] @
      [0, 0, 0, 0, 0, 0, 0] @ codes ''7'' @
      codes ''89-456+1'' @
      codes ''230.'' @ [0, 0, 0, 0]"

definition normalmap :: "nat \<Rightarrow> nat" where
  "normalmap = key_table normal_rows
     ([(0x9C, 10), (0xB5, 47)] @ special_keys)"

definition shift_rows :: "nat list" where
  "shift_rows =
     [0, 27] @ codes ''!@#$%^'' @
      codes ''&*()_+'' @ [8, 9] @
      codes ''QWERTYUI'' @
      codes ''OP{}'' @ [10, 0] @ codes ''AS'' @
      codes ''DFGHJKL:'' @
      [34] @ codes ''~'' @ [0] @ codes ''|ZXCV'' @
      codes ''BNM<>?'' @ [0] @ codes ''*'' @
      [0] @ codes '' '' @ [0, 0, 0, 0, 0, 0] @
      [0, 0, 0, 0, 0, 0, 0] @ codes ''7'' @
      codes ''89-456+1'' @
      codes ''230.'' @ [0, 0, 0, 0]"

definition shiftmap :: "nat \<Rightarrow> nat" where
  "shiftmap = key_table shift_rows
     ([(0x9C, 10), (0xB5, 47)] @ special_keys)"

text \<open>\<open>C(x)\<close> is \<open>x - '@'\<close>, stored in an unsigned byte.\<close>

definition ctl :: "char \<Rightarrow> nat" where
  "ctl x = nat ((of_char x - of_char CHR ''@'') mod 256 :: int)"

definition ctlmap :: "nat \<Rightarrow> nat" where
  "ctlmap = key_table
     ([0, 0, 0, 0, 0, 0, 0, 0] @
      [0, 0, 0, 0, 0, 0, 0, 0] @
      map ctl ''QWERTYUI'' @
      map ctl ''OP'' @ [0, 0, 13, 0] @ map ctl ''AS'' @
      map ctl ''DFGHJKL'' @ [0] @
      [0, 0, 0, ctl (CHR 0x5C)] @ map ctl ''ZXCV'' @
      map ctl ''BNM'' @ [0, 0] @ map ctl ''/'' @ [0, 0])
     ([(0x9C, 13), (0xB5, ctl CHR ''/'')] @ special_keys)"

text \<open>\<open>charcode[shift & (CTL | SHIFT)]\<close>\<close>

definition charcode :: "nat \<Rightarrow> nat \<Rightarrow> nat" where
  "charcode sh = (if sh AND (CTL OR SHIFT) = 0 then normalmap
     else if sh AND (CTL OR SHIFT) = 1 then shiftmap else ctlmap)"

text \<open>\<open>a & ~m\<close>\<close>

definition clear_bits :: "nat \<Rightarrow> nat \<Rightarrow> nat" where
  "clear_bits a m = a XOR (a AND m)"

definition kbdgetc :: "kbd \<Rightarrow> int \<times> kbd" where
  "kbdgetc d =
     (case kb_queue d of [] \<Rightarrow> (-1, d)
      | data # q \<Rightarrow>
          let d = d\<lparr>kb_queue := q\<rparr>; sh = kb_shift d
          in if data = 0xE0 then (0, d\<lparr>kb_shift := sh OR E0ESC\<rparr>)
             else if data AND 0x80 \<noteq> 0 then
               let data = (if sh AND E0ESC \<noteq> 0 then data else data AND 0x7F)
               in (0, d\<lparr>kb_shift := clear_bits sh (shiftcode data OR E0ESC)\<rparr>)
             else
               let (data, sh) = (if sh AND E0ESC \<noteq> 0 then (data OR 0x80, clear_bits sh E0ESC) else (data, sh));
                   sh = (sh OR shiftcode data) XOR togglecode data;
                   c = charcode sh data;
                   c = (if sh AND CAPSLOCK \<noteq> 0 then
                          (if of_char CHR ''a'' \<le> c \<and> c \<le> of_char CHR ''z'' then c - 32
                           else if of_char CHR ''A'' \<le> c \<and> c \<le> of_char CHR ''Z'' then c + 32 else c)
                        else c)
               in (int c, d\<lparr>kb_shift := sh\<rparr>))"

section \<open>Definitions: the serial port\<close>

record serial =
  sp_present :: bool
  sp_queue :: "nat list"

definition uartgetc :: "serial \<Rightarrow> int \<times> serial" where
  "uartgetc d =
     (if \<not> sp_present d then (-1, d)
      else case sp_queue d of [] \<Rightarrow> (-1, d) | c # q \<Rightarrow> (int c, d\<lparr>sp_queue := q\<rparr>))"

text \<open>\<open>line_status\<close> is what the line status register reads when the driver looks for the port.\<close>

definition uartinit :: "nat \<Rightarrow> serial \<Rightarrow> cga \<Rightarrow> serial \<times> cga" where
  "uartinit line_status d v =
     (if line_status = 0xFF then (d, v)
      else
        let v = v\<lparr>uart := True\<rparr>;
            d = d\<lparr>sp_present := True, sp_queue := drop 1 (sp_queue d)\<rparr>
        in (d, fold (\<lambda>c. uartputc (schar c)) (''xv6...'' @ [CHR 0x0A]) v))"

definition kbdintr :: "(proc \<Rightarrow> nat list) \<Rightarrow> 'a console_scheme \<Rightarrow> kbd \<Rightarrow> ('a console_scheme \<times> kbd) res option" where
  "kbdintr callers s d = consoleintr callers kbdgetc s d"

definition uartintr :: "(proc \<Rightarrow> nat list) \<Rightarrow> 'a console_scheme \<Rightarrow> serial \<Rightarrow> ('a console_scheme \<times> serial) res option" where
  "uartintr callers s d = consoleintr callers uartgetc s d"

section \<open>A device that runs dry\<close>

text \<open>
  What consoleintr relies on from the function that fetches a key: every key it returns uses
  something up. \<open>keys d\<close> is then the sequence of keys that the interrupt will see.
\<close>

locale key_source =
  fixes getc :: "'d \<Rightarrow> int \<times> 'd" and pending :: "'d \<Rightarrow> nat"
  assumes consumes: "0 \<le> fst (getc d) \<Longrightarrow> pending (snd (getc d)) < pending d"
begin

lemma loop_returns: "\<exists>t. consoleintr_loop getc key f s d = Some t"
proof (induction "pending d" arbitrary: d s f rule: less_induct)
  case less
  then show ?case
    using consumes [of d] by (subst consoleintr_loop.simps) (auto simp: Let_def split: sum.splits)
qed

lemma intr_returns: "\<exists>t. consoleintr callers getc s d = Some t"
proof (cases "acquire Cons_lock s")
  case (Inr t)
  obtain r where "consoleintr_loop getc console_key False t d = Some r"
    using loop_returns [of console_key False t d] by auto
  then show ?thesis using Inr by (simp add: consoleintr_def)
qed (simp add: consoleintr_def)

text \<open>The keys that will be fetched, the device afterwards, and the handling of the keys one by one.\<close>

lemma loop_keys:
  assumes "0 \<le> fst (getc d)"
  shows "consoleintr_loop getc key f s d = (case key (fst (getc d)) s of Inl x \<Rightarrow> Some (Inl x)
    | Inr s \<Rightarrow> consoleintr_loop getc key (f \<or> fst (getc d) = 16) s (snd (getc d)))"
  using assms by (subst consoleintr_loop.simps) (auto simp: Let_def split: sum.split)

lemma loop_done: "fst (getc d) < 0 \<Longrightarrow> consoleintr_loop getc key f s d = Some (Inr (f, s, snd (getc d)))"
  by (subst consoleintr_loop.simps) (simp add: Let_def)

end

interpretation keyboard: key_source kbdgetc "\<lambda>d. length (kb_queue d)"
  by unfold_locales (auto simp: kbdgetc_def Let_def split_def split: list.splits if_splits)

interpretation serial_port: key_source uartgetc "\<lambda>d. length (sp_queue d)"
  by unfold_locales (auto simp: uartgetc_def split: list.splits if_splits)


section \<open>Decoding\<close>

text \<open>The keys that the queued scan codes stand for, and the driver state after them.\<close>

function kbd_keys :: "kbd \<Rightarrow> int list \<times> kbd" where
  "kbd_keys d =
     (if kb_queue d = [] then ([], d)
      else let (ks, d') = kbd_keys (snd (kbdgetc d)) in (fst (kbdgetc d) # ks, d'))"
  by pat_completeness auto
termination
proof (relation "measure (\<lambda>d. length (kb_queue d))", simp)
  fix d :: kbd
  assume "kb_queue d \<noteq> []"
  then have "0 \<le> fst (kbdgetc d)" by (cases "kb_queue d") (simp_all add: kbdgetc_def Let_def split_def)
  from keyboard.consumes [OF this]
  show "(snd (kbdgetc d), d) \<in> measure (\<lambda>d. length (kb_queue d))" by simp
qed

declare kbd_keys.simps [simp del]

text \<open>
  How a character is typed: its key is pressed and released, with shift held where needed. The
  characters that have a key are the printable ones, newline, tab, backspace and escape.
\<close>

definition find_code :: "(nat \<Rightarrow> nat) \<Rightarrow> nat \<Rightarrow> nat option" where
  "find_code tbl c = find (\<lambda>k. tbl k = c \<and> shiftcode k = 0 \<and> togglecode k = 0) [0..<0x54]"

definition type_char :: "char \<Rightarrow> nat list" where
  "type_char c = (case find_code normalmap (of_char c) of
     Some k \<Rightarrow> [k, k + 0x80]
   | None \<Rightarrow> (case find_code shiftmap (of_char c) of Some k \<Rightarrow> [0x2A, k, k + 0x80, 0xAA] | None \<Rightarrow> []))"

definition typeable :: "char \<Rightarrow> bool" where
  "typeable c \<longleftrightarrow> c \<noteq> nul \<and> of_char c \<in> set normal_rows \<union> set shift_rows"

lemma char_of_zero: "char_of (0 :: nat) = nul"
  by code_simp

definition typed_keys :: "nat list \<Rightarrow> int list" where
  "typed_keys q = fst (kbd_keys \<lparr>kb_shift = 0, kb_queue = q\<rparr>)"

lemma kbdgetc_Cons:
  "kbdgetc \<lparr>kb_shift = sh, kb_queue = x # q\<rparr> =
     (fst (kbdgetc \<lparr>kb_shift = sh, kb_queue = [x]\<rparr>),
      \<lparr>kb_shift = kb_shift (snd (kbdgetc \<lparr>kb_shift = sh, kb_queue = [x]\<rparr>)), kb_queue = q\<rparr>)"
  by (simp add: kbdgetc_def Let_def split_def)

lemma kbd_keys_Nil [simp]: "kbd_keys \<lparr>kb_shift = sh, kb_queue = []\<rparr> = ([], \<lparr>kb_shift = sh, kb_queue = []\<rparr>)"
  by (simp add: kbd_keys.simps)

lemma kbd_keys_Cons:
  "kbd_keys \<lparr>kb_shift = sh, kb_queue = x # q\<rparr> =
     (let d = snd (kbdgetc \<lparr>kb_shift = sh, kb_queue = [x]\<rparr>);
          (ks, d') = kbd_keys \<lparr>kb_shift = kb_shift d, kb_queue = q\<rparr>
      in (fst (kbdgetc \<lparr>kb_shift = sh, kb_queue = [x]\<rparr>) # ks, d'))"
  by (subst kbd_keys.simps, subst (1 2) kbdgetc_Cons) (simp add: Let_def)

lemma kbd_keys_append:
  "kbd_keys \<lparr>kb_shift = sh, kb_queue = q @ r\<rparr> =
     (let (ks, d) = kbd_keys \<lparr>kb_shift = sh, kb_queue = q\<rparr>;
          (ls, d') = kbd_keys \<lparr>kb_shift = kb_shift d, kb_queue = r\<rparr>
      in (ks @ ls, d'))"
  by (induction q arbitrary: sh) (simp_all add: kbd_keys_Cons Let_def split_def)

text \<open>The top bit of a scan code tells a release from a press.\<close>

lemma press_release:
  fixes k :: nat
  assumes "k < 128"
  shows "k AND 128 = 0" "(k + 128) AND 128 \<noteq> 0" "(k + 128) AND 127 = k"
proof -
  have d: "k div 2 ^ 7 = 0" "(k + 128) div 2 ^ 7 = 1" using assms by simp_all
  have "k AND 2 ^ 7 = 0" "(k + 128) AND 2 ^ 7 \<noteq> 0"
    using d by (simp_all only: and_exp_eq_0_iff_not_bit bit_iff_odd) simp_all
  then show "k AND 128 = 0" "(k + 128) AND 128 \<noteq> 0" by simp_all
  have "take_bit 7 (k + 128) = k" using assms by (simp add: take_bit_eq_mod)
  then have "(k + 128) AND mask 7 = k" by (simp only: take_bit_eq_mask)
  then show "(k + 128) AND 127 = k" by (simp add: mask_eq_exp_minus_1)
qed

definition plain_key :: "nat \<Rightarrow> bool" where
  "plain_key k \<longleftrightarrow> k < 0x54 \<and> shiftcode k = 0 \<and> togglecode k = 0"

lemma getc_plain:
  assumes "plain_key k" "sh = 0 \<or> sh = SHIFT"
  shows "kbdgetc \<lparr>kb_shift = sh, kb_queue = [k]\<rparr> = (int (charcode sh k), \<lparr>kb_shift = sh, kb_queue = []\<rparr>)"
    "kbdgetc \<lparr>kb_shift = sh, kb_queue = [k + 128]\<rparr> = (0, \<lparr>kb_shift = sh, kb_queue = []\<rparr>)"
proof -
  have k: "k < 128" "k \<noteq> 0xE0" "k + 128 \<noteq> 0xE0" "shiftcode k = 0" "togglecode k = 0"
    using assms(1) by (simp_all add: plain_key_def)
  have "0 AND E0ESC = 0" "SHIFT AND E0ESC = 0" "0 AND CAPSLOCK = 0" "SHIFT AND CAPSLOCK = 0"
    "clear_bits 0 E0ESC = 0" "clear_bits SHIFT E0ESC = SHIFT"
    by code_simp+
  then have sh: "sh AND E0ESC = 0" "sh AND CAPSLOCK = 0" "clear_bits sh E0ESC = sh"
    using assms(2) by auto
  note simps = k(2-5) press_release [OF k(1)] sh
  show "kbdgetc \<lparr>kb_shift = sh, kb_queue = [k]\<rparr> = (int (charcode sh k), \<lparr>kb_shift = sh, kb_queue = []\<rparr>)"
    by (simp add: kbdgetc_def Let_def simps)
  show "kbdgetc \<lparr>kb_shift = sh, kb_queue = [k + 128]\<rparr> = (0, \<lparr>kb_shift = sh, kb_queue = []\<rparr>)"
    by (simp add: kbdgetc_def Let_def simps)
qed

lemma getc_shift:
  "kbdgetc \<lparr>kb_shift = 0, kb_queue = [0x2A]\<rparr> = (0, \<lparr>kb_shift = SHIFT, kb_queue = []\<rparr>)"
  "kbdgetc \<lparr>kb_shift = SHIFT, kb_queue = [0xAA]\<rparr> = (0, \<lparr>kb_shift = 0, kb_queue = []\<rparr>)"
  by code_simp+

lemma find_code_plain:
  assumes "find_code tbl c = Some k"
  shows "plain_key k" "tbl k = c"
  using assms by (auto simp: find_code_def plain_key_def find_Some_iff)

text \<open>The keys that have a character in one of the two tables.\<close>

lemma normal_rows_eq: "normal_rows =
    [0, 27, 49, 50, 51, 52, 53, 54, 55, 56, 57, 48, 45, 61, 8, 9,
     113, 119, 101, 114, 116, 121, 117, 105, 111, 112, 91, 93, 10, 0, 97, 115,
     100, 102, 103, 104, 106, 107, 108, 59, 39, 96, 0, 92, 122, 120, 99, 118,
     98, 110, 109, 44, 46, 47, 0, 42, 0, 32, 0, 0, 0, 0, 0, 0,
     0, 0, 0, 0, 0, 0, 0, 55, 56, 57, 45, 52, 53, 54, 43, 49,
     50, 51, 48, 46, 0, 0, 0, 0]"
  by code_simp

lemma shift_rows_eq: "shift_rows =
    [0, 27, 33, 64, 35, 36, 37, 94, 38, 42, 40, 41, 95, 43, 8, 9,
     81, 87, 69, 82, 84, 89, 85, 73, 79, 80, 123, 125, 10, 0, 65, 83,
     68, 70, 71, 72, 74, 75, 76, 58, 34, 126, 0, 124, 90, 88, 67, 86,
     66, 78, 77, 60, 62, 63, 0, 42, 0, 32, 0, 0, 0, 0, 0, 0,
     0, 0, 0, 0, 0, 0, 0, 55, 56, 57, 45, 52, 53, 54, 43, 49,
     50, 51, 48, 46, 0, 0, 0, 0]"
  by code_simp

lemma rows_zero: "list_all (\<lambda>i. normal_rows ! i = 0 \<and> shift_rows ! i = 0) [29, 42, 54, 56, 58, 69, 70, 84, 85, 86, 87]"
  by code_simp

lemma length_rows: "length normal_rows = 88" "length shift_rows = 88" by code_simp+

lemma plain_keyI:
  assumes "k \<noteq> 29" "k \<noteq> 42" "k \<noteq> 54" "k \<noteq> 56" "k \<noteq> 58" "k \<noteq> 69" "k \<noteq> 70" "k < 84"
  shows "plain_key k"
  using assms unfolding plain_key_def shiftcode_def togglecode_def key_table_def by simp

lemma key_table_row:
  assumes "k < 84" "length rows = 88"
  shows "key_table rows ([(0x9C, 10), (0xB5, 47)] @ special_keys) k = rows ! k"
  using assms by (simp add: key_table_def special_keys_def)

lemma row_key_codes:
  assumes "rows = normal_rows \<or> rows = shift_rows" "rows ! k \<noteq> 0" 
  shows "k \<notin> set [29, 42, 54, 56, 58, 69, 70, 84, 85, 86, 87]"
proof
  assume "k \<in> set [29, 42, 54, 56, 58, 69, 70, 84, 85, 86, 87]"
  then have "normal_rows ! k = 0 \<and> shift_rows ! k = 0" using rows_zero unfolding list_all_iff by (rule bspec[rotated])
  then show False using assms by auto
qed

lemma row_keys:
  assumes "rows = normal_rows \<or> rows = shift_rows" "k < length rows" "rows ! k \<noteq> 0"
  shows "plain_key k" "key_table rows ([(0x9C, 10), (0xB5, 47)] @ special_keys) k = rows ! k"
proof -
  have l: "length rows = 88" using assms(1) length_rows by blast
  have z: "k \<noteq> 29" "k \<noteq> 42" "k \<noteq> 54" "k \<noteq> 56" "k \<noteq> 58" "k \<noteq> 69" "k \<noteq> 70" "k \<noteq> 84" "k \<noteq> 85" "k \<noteq> 86" "k \<noteq> 87"
    using row_key_codes [OF assms(1,3)] by simp_all
  have "k < 84" using z(8-11) assms(2) l by linarith
  with z show "plain_key k" by (intro plain_keyI)
  show "key_table rows ([(0x9C, 10), (0xB5, 47)] @ special_keys) k = rows ! k"
    using \<open>k < 84\<close> l by (rule key_table_row)
qed

lemma find_code_Some: "plain_key k \<Longrightarrow> tbl k = c \<Longrightarrow> \<exists>k. find_code tbl c = Some k"
  unfolding find_code_def plain_key_def
  by (cases "find (\<lambda>k. tbl k = c \<and> shiftcode k = 0 \<and> togglecode k = 0) [0..<0x54]") (auto simp: find_None_iff)

text \<open>Typing one character.\<close>

lemma kbd_keys_pair:
  assumes "plain_key k" "sh = 0 \<or> sh = SHIFT"
  shows "kbd_keys \<lparr>kb_shift = sh, kb_queue = k # (k + 128) # q\<rparr> =
    (let (ks, d) = kbd_keys \<lparr>kb_shift = sh, kb_queue = q\<rparr> in (int (charcode sh k) # 0 # ks, d))"
  unfolding kbd_keys_Cons getc_plain [OF assms] Let_def fst_conv snd_conv kbd.simps prod.case by (simp add: split_def)

lemma kbd_keys_shifted:
  assumes "plain_key k"
  shows "kbd_keys \<lparr>kb_shift = 0, kb_queue = [0x2A, k, k + 128, 0xAA]\<rparr> =
    ([0, int (charcode SHIFT k), 0, 0], \<lparr>kb_shift = 0, kb_queue = []\<rparr>)"
proof -
  have "kbd_keys \<lparr>kb_shift = SHIFT, kb_queue = [0xAA]\<rparr> = ([0], \<lparr>kb_shift = 0, kb_queue = []\<rparr>)"
    unfolding kbd_keys_Cons getc_shift Let_def fst_conv snd_conv kbd.simps kbd_keys_Nil prod.case ..
  then have "kbd_keys \<lparr>kb_shift = SHIFT, kb_queue = [k, k + 128, 0xAA]\<rparr> =
      ([int (charcode SHIFT k), 0, 0], \<lparr>kb_shift = 0, kb_queue = []\<rparr>)"
    using kbd_keys_pair [OF assms, of SHIFT "[0xAA]"] by simp
  then show ?thesis
    unfolding kbd_keys_Cons [of 0 "0x2A"] getc_shift Let_def fst_conv snd_conv kbd.simps prod.case by simp
qed

lemma type_char_keys:
  assumes "typeable c"
  shows "filter (\<lambda>k. k \<noteq> 0) (typed_keys (type_char c)) = [of_char c]"
    "kb_shift (snd (kbd_keys \<lparr>kb_shift = 0, kb_queue = type_char c\<rparr>)) = 0"
proof -
  have c0: "(of_char c :: nat) \<noteq> 0"
    using assms by (metis char_of_char typeable_def char_of_zero)
  then have c1: "(of_char c :: int) \<noteq> 0" by (metis of_nat_of_char of_nat_0_eq_iff)
  have ch: "charcode 0 = normalmap" "charcode SHIFT = shiftmap"
    by (simp_all add: charcode_def CTL_def SHIFT_def)
  consider (normal) k where "find_code normalmap (of_char c) = Some k"
    | (shift) k where "find_code normalmap (of_char c) = None" "find_code shiftmap (of_char c) = Some k"
  proof -
    have "\<exists>k. find_code tbl (of_char c) = Some k"
      if a: "of_char c \<in> set rows" "rows = normal_rows \<and> tbl = normalmap \<or> rows = shift_rows \<and> tbl = shiftmap" for rows tbl
    proof -
      obtain k where k: "k < length rows" "rows ! k = of_char c" using a(1) unfolding in_set_conv_nth by blast
      have "tbl k = of_char c" "plain_key k"
        using row_keys [of rows k] k c0 a(2) by (auto simp: normalmap_def shiftmap_def)
      then show ?thesis by (intro find_code_Some)
    qed
    then show ?thesis using assms that unfolding typeable_def by (metis UnE option.exhaust)
  qed
  then have "filter (\<lambda>k. k \<noteq> 0) (typed_keys (type_char c)) = [of_char c] \<and>
    kb_shift (snd (kbd_keys \<lparr>kb_shift = 0, kb_queue = type_char c\<rparr>)) = 0"
  proof cases
    case normal
    note p = find_code_plain [OF normal]
    have "kbd_keys \<lparr>kb_shift = 0, kb_queue = type_char c\<rparr> = ([of_char c, 0], \<lparr>kb_shift = 0, kb_queue = []\<rparr>)"
      using kbd_keys_pair [OF p(1), of 0 "[]"] ch(1) p(2) normal by (simp add: type_char_def of_nat_of_char)
    then show ?thesis using c1 by (simp add: typed_keys_def)
  next
    case shift
    note p = find_code_plain [OF shift(2)]
    have "type_char c = [0x2A, k, k + 128, 0xAA]" unfolding type_char_def shift option.case by simp
    then have "kbd_keys \<lparr>kb_shift = 0, kb_queue = type_char c\<rparr> = ([0, of_char c, 0, 0], \<lparr>kb_shift = 0, kb_queue = []\<rparr>)"
      by (simp only: kbd_keys_shifted [OF p(1)] ch(2) p(2) of_nat_of_char)
    then show ?thesis using c1 by (simp add: typed_keys_def)
  qed
  then show "filter (\<lambda>k. k \<noteq> 0) (typed_keys (type_char c)) = [of_char c]"
    "kb_shift (snd (kbd_keys \<lparr>kb_shift = 0, kb_queue = type_char c\<rparr>)) = 0" by blast+
qed



end
