(* ===== verification/Kstate.thy ===== *)
theory Kstate
  imports Console
begin

text \<open>
  The state of the storage side of the kernel and how code runs in it. \<open>storage\<close> collects the
  tables of the buffer cache (bio.c, buf.h), the log (log.c), the inode cache (fs.c, file.h), the
  open files (file.c) and the pipes (pipe.c), with the memory disk of memide.c; it is one field of
  the kernel state on top of the console, so the lock layer, the process table and the
  console operations apply to it unchanged. An object is named by its index in its table and a pipe by the
  address of its page. \<open>wtrace\<close> is history: the blocks written to the disk, in order.

  \<open>held L s\<close> says that the executing CPU runs a process that is awake and holds exactly the spin locks in
  \<open>L\<close>; \<open>kframe s t\<close> that \<open>t\<close> differs from \<open>s\<close> only in the lock layer, in the storage, and in that
  sleeping processes may have been woken. Every operation on storage is specified by these two
  and by the new value of the storage.
\<close>

section \<open>Definitions\<close>

definition BSIZE :: nat where "BSIZE = 512"
definition NBUF :: nat where "NBUF = 30"
definition LOGSIZE :: nat where "LOGSIZE = 30"
definition MAXOPBLOCKS :: nat where "MAXOPBLOCKS = 10"
definition NINODE :: nat where "NINODE = 50"
definition NFILE :: nat where "NFILE = 100"
definition NDIRECT :: nat where "NDIRECT = 12"
definition B_VALID :: int where "B_VALID = 2"
definition B_DIRTY :: int where "B_DIRTY = 4"

record sleeplock =
  sl_locked :: nat
  sl_name :: string
  sl_pid :: int

record buf =
  b_flags :: int
  b_dev :: nat
  b_blockno :: nat
  b_refcnt :: nat
  b_prev :: nat
  b_next :: nat
  b_data :: "char list"

record logst =
  lg_start :: int
  lg_size :: int
  lg_outstanding :: int
  lg_committing :: bool
  lg_dev :: int
  lh_n :: int
  lh_block :: "int list"

record superblock =
  sb_size :: nat
  sb_nblocks :: nat
  sb_ninodes :: nat
  sb_nlog :: nat
  sb_logstart :: nat
  sb_inodestart :: nat
  sb_bmapstart :: nat

record inode =
  i_dev :: nat
  i_inum :: nat
  i_ref :: int
  i_valid :: bool
  i_type :: int
  i_major :: int
  i_minor :: int
  i_nlink :: int
  i_size :: nat
  i_addrs :: "nat list"

datatype ftype = FD_NONE | FD_PIPE | FD_INODE

record ofile =
  f_type :: ftype
  f_ref :: int
  f_readable :: bool
  f_writable :: bool
  f_pipe :: nat
  f_ip :: nat
  f_off :: nat

record pipe =
  p_data :: "char list"
  p_nread :: nat
  p_nwrite :: nat
  p_readopen :: bool
  p_writeopen :: bool

record storage =
  sleeps :: "sleep_id \<Rightarrow> sleeplock"
  bufs :: "nat \<Rightarrow> buf"
  memdisk :: "nat \<Rightarrow> char list"
  disksize :: nat
  wtrace :: "(nat \<times> char list) list"
  jlog :: logst
  sb :: superblock
  icache :: "nat \<Rightarrow> inode"
  files_t :: "nat \<Rightarrow> ofile"
  pipes :: "nat \<Rightarrow> pipe"

record kst = console +
  sto :: storage

definition upd_sto :: "(storage \<Rightarrow> storage) \<Rightarrow> 'a kst_scheme \<Rightarrow> 'a kst_scheme" where
  "upd_sto f s = s\<lparr>sto := f (sto s)\<rparr>"

declare One_nat_def [simp del]

section \<open>The process that runs\<close>

definition cur :: "'a mach_scheme \<Rightarrow> nat option" where
  "cur s = (case this_cpu s of None \<Rightarrow> None | Some c \<Rightarrow> cpu_proc (cpus s c))"

definition held :: "lock_id set \<Rightarrow> 'a pstate_t_scheme \<Rightarrow> bool" where
  "held L s \<longleftrightarrow> mach_ok s \<and> finite L \<and> int (card L) \<le> ncli (cpus s (the (this_cpu s))) \<and>
     (\<forall>l \<in> L. holds l s) \<and> (\<forall>l. l \<notin> L \<longrightarrow> free l s) \<and>
     (case cur s of None \<Rightarrow> False | Some p \<Rightarrow> pstate (ptable s p) \<noteq> SLEEPING)"

definition woke :: "proc \<Rightarrow> proc \<Rightarrow> bool" where
  "woke p q \<longleftrightarrow> q = p \<or> pstate p = SLEEPING \<and> q = p\<lparr>pstate := RUNNABLE\<rparr>"

definition others :: "'a kst_scheme \<Rightarrow> 'a kst_scheme" where
  "others s = s\<lparr>cpus := undefined, eflags_if := undefined, locks := undefined, ptable := undefined, sto := undefined\<rparr>"

definition kframe :: "'a kst_scheme \<Rightarrow> 'a kst_scheme \<Rightarrow> bool" where
  "kframe s t \<longleftrightarrow> others t = others s \<and>
     (\<forall>c. apicid (cpus t c) = apicid (cpus s c) \<and> cpu_proc (cpus t c) = cpu_proc (cpus s c)) \<and>
     (\<forall>i. woke (ptable s i) (ptable t i))"

definition mypid :: "'a pstate_t_scheme \<Rightarrow> int" where
  "mypid s = pid (ptable s (the (cur s)))"

lemma woke_refl [simp]: "woke p p"
  by (simp add: woke_def)

lemma woke_trans: "woke p q \<Longrightarrow> woke q r \<Longrightarrow> woke p r"
  by (auto simp: woke_def)

lemma wokeD: "woke p q \<Longrightarrow> pid q = pid p" "woke p q \<Longrightarrow> killed q = killed p" "woke p q \<Longrightarrow> cwd q = cwd p"
  "woke p q \<Longrightarrow> ofile q = ofile p" "woke p q \<Longrightarrow> sz q = sz p" "woke p q \<Longrightarrow> pgdir q = pgdir p"
  "woke p q \<Longrightarrow> pstate p \<noteq> SLEEPING \<Longrightarrow> q = p"
  by (auto simp: woke_def)

lemma woke_woken [simp]: "woke (pt i) (woken ch pt i)"
  by (simp add: woke_def woken_def)

lemma kframe_refl [simp]: "kframe s s"
  by (simp add: kframe_def)

lemma kframe_trans [trans]: "kframe s t \<Longrightarrow> kframe t u \<Longrightarrow> kframe s u"
  by (auto simp: kframe_def intro: woke_trans)

lemma others_eqs:
  assumes "others t = others s"
  shows "ncpu t = ncpu s" "lapicid t = lapicid s" "mem t = mem s" "use_lock t = use_lock s"
    "freelist t = freelist s" "kend t = kend s" "initproc t = initproc s" "kpgdir t = kpgdir s"
    "panicked t = panicked s" "scr t = scr s" "input t = input s" "kst.more t = kst.more s"
  using assms [THEN arg_cong, of ncpu] assms [THEN arg_cong, of lapicid] assms [THEN arg_cong, of mem]
    assms [THEN arg_cong, of use_lock] assms [THEN arg_cong, of freelist] assms [THEN arg_cong, of kend]
    assms [THEN arg_cong, of initproc] assms [THEN arg_cong, of kpgdir] assms [THEN arg_cong, of panicked]
    assms [THEN arg_cong, of scr] assms [THEN arg_cong, of input] assms [THEN arg_cong, of kst.more]
  by (simp_all add: others_def)

lemma kframe_eqs:
  assumes "kframe s t"
  shows "ncpu t = ncpu s" "lapicid t = lapicid s" "mem t = mem s" "use_lock t = use_lock s"
    "freelist t = freelist s" "kend t = kend s" "initproc t = initproc s" "kpgdir t = kpgdir s"
    "panicked t = panicked s" "scr t = scr s" "input t = input s" "kst.more t = kst.more s"
proof -
  have "others t = others s" using assms by (simp add: kframe_def)
  note o = others_eqs [OF this]
  show "ncpu t = ncpu s" "lapicid t = lapicid s" "mem t = mem s" "use_lock t = use_lock s"
    "freelist t = freelist s" "kend t = kend s" "initproc t = initproc s" "kpgdir t = kpgdir s"
    "panicked t = panicked s" "scr t = scr s" "input t = input s" "kst.more t = kst.more s"
    by (fact o)+
qed

lemma kframe_cpu:
  assumes "kframe s t"
  shows "this_cpu t = this_cpu s" "cur t = cur s" "woke (ptable s i) (ptable t i)"
  using assms kframe_eqs [OF assms] by (auto simp: kframe_def this_cpu_def cur_def split: option.splits)

lemma kframe_mypid: "kframe s t \<Longrightarrow> mypid t = mypid s"
  by (simp add: mypid_def kframe_cpu wokeD(1) [OF kframe_cpu(3)])

lemma kframe_sto [simp]:
  "kframe s (t\<lparr>sto := x\<rparr>) = kframe s t" "kframe (s\<lparr>sto := x\<rparr>) t = kframe s t"
  by (simp_all add: kframe_def others_def)

lemma held_sto [simp]: "held L (s\<lparr>sto := x\<rparr>) = held L s"
  by (simp add: held_def mach_ok_def holds_def free_def cur_def this_cpu_def readeflags_if_def split: option.splits)

lemma heldD: "held L s \<Longrightarrow> mach_ok s" "held L s \<Longrightarrow> l \<notin> L \<Longrightarrow> free l s" "held L s \<Longrightarrow> l \<in> L \<Longrightarrow> holds l s"
  by (auto simp: held_def split: if_splits)

lemma held_cur: "held L s \<Longrightarrow> \<exists>p. cur s = Some p \<and> pstate (ptable s p) \<noteq> SLEEPING"
  by (auto simp: held_def split: option.splits)

lemma sto_locks [simp]: "sto (acq l s) = sto s" "sto (rel l s) = sto s" "sto (wk ch s) = sto s"
  by (simp_all add: acq_def rel_def wk_def Let_def)

lemma this_cpu_locks [simp]: "this_cpu (acq l s) = this_cpu s" "this_cpu (rel l s) = this_cpu s"
  by (auto simp: acq_def rel_def Let_def this_cpu_def intro!: find_cong)

lemma cur_locks [simp]: "cur (acq l s) = cur s" "cur (rel l s) = cur s"
  by (auto simp: cur_def split: option.splits) (auto simp: acq_def rel_def Let_def)

lemma cur_ptable [simp]: "cur (s\<lparr>ptable := f\<rparr>) = cur s"
  by (simp add: cur_def split: option.split)

lemma kframe_locks [simp]: "kframe s (acq l s)" "kframe s (rel l s)"
  by (auto simp: kframe_def others_def acq_def rel_def Let_def)

lemma held_acq:
  assumes "held L s" "l \<notin> L"
  shows "held (insert l L) (acq l s)"
proof -
  note h = assms(1) [unfolded held_def]
  then obtain c where c: "this_cpu s = Some c" by (auto simp: mach_ok_def split: option.splits)
  have "ncli (cpus (acq l s) c) = ncli (cpus s c) + 1" using c by (simp add: acq_def Let_def)
  moreover have "holds k (acq l s)" if "k \<in> insert l L" for k
    using that h assms(2) holds_acq [of s l] holds_acq_other [of s k l] by auto
  moreover have "free k (acq l s)" if "k \<notin> insert l L" for k
    using that h by auto
  ultimately show ?thesis using h c assms(2) unfolding held_def by (simp split: option.splits)
qed

lemma held_rel:
  assumes "held L s" "l \<in> L"
  shows "held (L - {l}) (rel l s)"
proof -
  note h = assms(1) [unfolded held_def]
  then obtain c where c: "this_cpu s = Some c" by (auto simp: mach_ok_def split: option.splits)
  have hl: "holds l s" using h assms(2) by auto
  have n: "ncli (cpus (rel l s) c) = ncli (cpus s c) - 1" using c by (simp add: rel_def Let_def)
  have "card L = Suc (card (L - {l}))" using h assms(2) by (intro card.remove) auto
  then have m: "int (card (L - {l})) \<le> ncli (cpus (rel l s) c)" using h n c by simp
  have "holds k (rel l s)" if k: "k \<in> L - {l}" for k
  proof -
    have "0 < card (L - {l})" using k h by (auto simp: card_gt_0_iff)
    then have "0 < ncli (cpus (rel l s) c)" using m by linarith
    moreover have "holds k s" using k h by auto
    ultimately show ?thesis using k c by (auto simp: holds_def rel_def Let_def)
  qed
  moreover have "free k (rel l s)" if "k \<notin> L - {l}" for k
    using that h by auto
  ultimately show ?thesis using h c m hl unfolding held_def by (simp split: option.splits)
qed

lemma acquire_held:
  assumes "held L s" "l \<notin> L"
  shows "acquire l s = Inr (acq l s)"
  using assms by (simp add: acquire_eq heldD)

lemma release_held:
  assumes "held L s" "l \<in> L"
  shows "release l s = Inr (rel l s)"
  using assms by (simp add: release_eq heldD)

lemma wk_held:
  assumes "held L s" "Ptable_lock \<notin> L"
  shows "wakeup ch s = Inr (wk ch s)" "held L (wk ch s)" "kframe s (wk ch s)"
proof -
  show "wakeup ch s = Inr (wk ch s)" using assms by (intro wakeup_eq) (auto dest: heldD)
  have "held (insert Ptable_lock L - {Ptable_lock}) (rel Ptable_lock (acq Ptable_lock s))"
    using assms by (intro held_rel held_acq) auto
  then have a: "held L (rel Ptable_lock (acq Ptable_lock s))" using assms(2) by simp
  obtain p where p: "cur s = Some p" "pstate (ptable s p) \<noteq> SLEEPING" using held_cur [OF assms(1)] by blast
  have "woken ch (ptable s) p = ptable s p" using p by (intro woken_other) simp
  then show "held L (wk ch s)"
    using a p unfolding held_def wk_def by (simp split: option.splits)
  have "kframe s (rel Ptable_lock (acq Ptable_lock s))"
    using kframe_trans kframe_locks by blast
  then show "kframe s (wk ch s)"
    by (simp add: kframe_def wk_def others_def)
qed

text \<open>
  \<open>mv L s x t\<close>: code that started in \<open>s\<close> has come to \<open>t\<close>, holds the spin locks \<open>L\<close>, and the storage is
  \<open>x\<close>. The specifications of the storage operations are triples with this postcondition.
\<close>

definition mv :: "lock_id set \<Rightarrow> 'a kst_scheme \<Rightarrow> storage \<Rightarrow> 'a kst_scheme \<Rightarrow> bool" where
  "mv L s x t \<longleftrightarrow> held L t \<and> kframe s t \<and> sto t = x"

lemma mvI [intro]: "held L t \<Longrightarrow> kframe s t \<Longrightarrow> sto t = x \<Longrightarrow> mv L s x t"
  by (simp add: mv_def)

lemma mvD: "mv L s x t \<Longrightarrow> held L t" "mv L s x t \<Longrightarrow> kframe s t" "mv L s x t \<Longrightarrow> sto t = x"
  by (simp_all add: mv_def)

lemma mv_self [simp]: "mv L s (sto s) s = held L s"
  by (auto simp: mv_def)

lemma mv_trans: "mv L s x t \<Longrightarrow> mv M t y u \<Longrightarrow> mv M s y u"
  by (auto simp: mv_def intro: kframe_trans)

lemma mv_sto: "mv L s x t \<Longrightarrow> mv L s y (t\<lparr>sto := y\<rparr>)"
  by (simp add: mv_def)

lemma mv_upd [simp]: "mv L s x t \<Longrightarrow> mv L s (f x) (upd_sto f t)"
  by (simp add: mv_def upd_sto_def)

lemma sto_upd [simp]: "sto (upd_sto f s) = f (sto s)"
  by (simp add: upd_sto_def)

lemma mv_facts:
  assumes "mv L s x t"
  shows "cur t = cur s" "mypid t = mypid s" "mem t = mem s" "sto t = x"
  using assms by (simp_all add: mv_def kframe_cpu kframe_mypid kframe_eqs)

lemma returns_bind: "returns m P \<Longrightarrow> (\<And>x. P x \<Longrightarrow> returns (f x) Q) \<Longrightarrow> returns (bindr m f) Q"
  by (auto simp: returns_iff bindr_def)

lemma acquire_mv:
  assumes "mv L s x t" "l \<notin> L"
  shows "returns (acquire l t) (mv (insert l L) s x)"
  using assms held_acq [of L t l] by (auto simp: mv_def acquire_held intro: kframe_trans [OF _ kframe_locks(1)])

lemma release_mv:
  assumes "mv L s x t" "l \<in> L" "M = L - {l}"
  shows "returns (release l t) (mv M s x)"
  using assms held_rel [of L t l] by (auto simp: mv_def release_held intro: kframe_trans [OF _ kframe_locks(2)])

lemma wakeup_mv:
  assumes "mv L s x t" "Ptable_lock \<notin> L"
  shows "returns (wakeup ch t) (mv L s x)"
  using assms wk_held [of L t ch] by (auto simp: mv_def intro: kframe_trans)

lemma myproc_mv:
  assumes "mv L s x t"
  shows "returns (myproc t) (\<lambda>(p, u). p = cur s \<and> p \<noteq> None \<and> mv L s x u)"
proof -
  note h = mvD(1) [OF assms, unfolded held_def]
  then obtain c where c: "this_cpu t = Some c" "0 \<le> ncli (cpus t c)"
    by (auto simp: mach_ok_def split: option.splits)
  define t1 where "t1 = t\<lparr>eflags_if := (eflags_if t)(lapicid t := False),
           cpus := (cpus t)(c := (cpus t c)\<lparr>
             intena := (if ncli (cpus t c) = 0 then readeflags_if t else intena (cpus t c)),
             ncli := ncli (cpus t c) + 1\<rparr>)\<rparr>"
  have t1: "this_cpu t1 = Some c" "\<not> readeflags_if t1" "0 < ncli (cpus t1 c)"
    using c by (simp_all add: t1_def mach_defs)
  define u where "u = t1\<lparr>eflags_if := (eflags_if t1)(lapicid t1 := (ncli (cpus t1 c) = 1 \<and> intena (cpus t1 c))),
           cpus := (cpus t1)(c := (cpus t1 c)\<lparr>ncli := ncli (cpus t1 c) - 1\<rparr>)\<rparr>"
  have "pushcli t = Inr t1" unfolding t1_def using c by (simp add: pushcli_eq)
  moreover have "mycpu t1 = Inr c" using t1 by (intro mycpu_eq)
  moreover have "popcli t1 = Inr u" unfolding u_def using t1 by (intro popcli_eq)
  ultimately have m: "myproc t = Inr (cur t, u)" using c by (simp add: myproc_def cur_def t1_def)
  have cpu: "this_cpu u = Some c" "cur u = cur t"
    using c by (simp_all add: u_def t1_def cur_def)
  have "readeflags_if u = readeflags_if t"
    using h c by (auto simp: u_def t1_def mach_defs mach_ok_def split: option.splits)
  then have "held L u"
    using h c cpu unfolding held_def
    by (simp add: mach_ok_def holds_def free_def split: option.splits) (auto simp: u_def t1_def holds_def free_def)
  moreover have "kframe t u" by (auto simp: kframe_def others_def u_def t1_def)
  moreover have "sto u = sto t" by (simp add: u_def t1_def)
  ultimately show ?thesis
    using m assms held_cur [OF mvD(1) [OF assms]] kframe_cpu(2) [OF mvD(2) [OF assms]]
    by (auto simp: mv_def intro: kframe_trans)
qed

section \<open>A kernel that runs one process\<close>

text \<open>The machine of \<open>pst0\<close> with a blank console and the given storage; process 0, with number 1, runs.\<close>

definition kst_of :: "storage \<Rightarrow> kst" where
  "kst_of \<sigma> = \<lparr>cpus = cpus pst0, ncpu = 2, lapicid = 0, eflags_if = eflags_if pst0, locks = locks pst0,
     mem = \<lambda>_. nul, use_lock = True, freelist = 0, kend = 0x80110000,
     ptable = ptable pst0, initproc = Some 0, nextpid = 3, kpgdir = 4096,
     trapret = 0x80106000, forkret_addr = 0x80103000,
     panicked = False, locking = True,
     scr = \<lparr>crtc_index = 0, crtc = (\<lambda>_. 0)(14 := 1), crt = \<lambda>_. 0, uart = True, com1 = []\<rparr>,
     input = \<lparr>in_buf = replicate 128 nul, in_r = 0, in_w = 0, in_e = 0, in_c = 0,
       selecting = False, sel_start = -1, sel_end = -1\<rparr>,
     undo = \<lparr>undo_buf = replicate 128 \<lparr>op_type = OP_INSERT, op_c = nul, op_pos = 0\<rparr>, undo_n = 0\<rparr>,
     clipboard = \<lparr>clip_buf = replicate 128 nul, clip_n = 0\<rparr>,
     last_key_was_tab = False, sto = \<sigma>\<rparr>"

lemma kst_of_simps [simp]: "sto (kst_of \<sigma>) = \<sigma>" "held {} (kst_of \<sigma>)" "mypid (kst_of \<sigma>) = 1" "cur (kst_of \<sigma>) = Some 0"
proof -
  show "sto (kst_of \<sigma>) = \<sigma>" by (simp add: kst_of_def)
  have t: "this_cpu (kst_of \<sigma>) = Some 0" by (simp add: this_cpu_def kst_of_def pst0_def mach0_def upt_rec)
  then show c: "cur (kst_of \<sigma>) = Some 0" by (simp add: cur_def kst_of_def pst0_def mach0_def)
  show "mypid (kst_of \<sigma>) = 1" using c by (simp add: mypid_def kst_of_def pst0_def proc0_def)
  show "held {} (kst_of \<sigma>)"
    using t c by (simp add: held_def mach_ok_def free_def kst_of_def pst0_def mach0_def proc0_def)
qed

lemma kst_of_mv [simp]: "mv {} (kst_of \<sigma>) \<sigma> (kst_of \<sigma>)"
  using mv_self [of "{}" "kst_of \<sigma>"] by simp

text \<open>The tables as the loader leaves them, all zero, over a disk of 1000 blank blocks.\<close>

definition sto0 :: storage where
  "sto0 = \<lparr>sleeps = \<lambda>_. \<lparr>sl_locked = 0, sl_name = [], sl_pid = 0\<rparr>,
     bufs = \<lambda>_. \<lparr>b_flags = 0, b_dev = 0, b_blockno = 0, b_refcnt = 0, b_prev = 0, b_next = 0, b_data = replicate BSIZE nul\<rparr>,
     memdisk = \<lambda>_. replicate BSIZE nul, disksize = 1000, wtrace = [],
     jlog = \<lparr>lg_start = 0, lg_size = 0, lg_outstanding = 0, lg_committing = False, lg_dev = 0, lh_n = 0,
       lh_block = replicate LOGSIZE 0\<rparr>,
     sb = \<lparr>sb_size = 0, sb_nblocks = 0, sb_ninodes = 0, sb_nlog = 0, sb_logstart = 0, sb_inodestart = 0, sb_bmapstart = 0\<rparr>,
     icache = \<lambda>_. \<lparr>i_dev = 0, i_inum = 0, i_ref = 0, i_valid = False, i_type = 0, i_major = 0, i_minor = 0, i_nlink = 0,
       i_size = 0, i_addrs = replicate 13 0\<rparr>,
     files_t = \<lambda>_. \<lparr>f_type = FD_NONE, f_ref = 0, f_readable = False, f_writable = False, f_pipe = 0, f_ip = 0, f_off = 0\<rparr>,
     pipes = \<lambda>_. \<lparr>p_data = replicate 512 nul, p_nread = 0, p_nwrite = 0, p_readopen = False, p_writeopen = False\<rparr>\<rparr>"

end
