(* ===== verification/Sleeplock.thy ===== *)
theory Sleeplock
  imports Kstate
begin

text \<open>
  Sleep locks (sleeplock.c): a lock that is held across disk operations. The record of a
  sleep lock is in the storage; its spin lock is \<open>Sleep_lk k\<close>. A process that finds the lock taken
  goes to sleep, which is \<open>Asleep\<close>.
\<close>

section \<open>Definitions\<close>

definition upd_sleep :: "sleep_id \<Rightarrow> (sleeplock \<Rightarrow> sleeplock) \<Rightarrow> storage \<Rightarrow> storage" where
  "upd_sleep k f \<sigma> = \<sigma>\<lparr>sleeps := (sleeps \<sigma>)(k := f (sleeps \<sigma> k))\<rparr>"

definition initsleeplock :: "sleep_id \<Rightarrow> string \<Rightarrow> 'a kst_scheme \<Rightarrow> 'a kst_scheme" where
  "initsleeplock k name s =
     upd_sto (upd_sleep k (\<lambda>_. \<lparr>sl_locked = 0, sl_name = name, sl_pid = 0\<rparr>)) (initlock (Sleep_lk k) ''sleep lock'' s)"

definition acquiresleep :: "sleep_id \<Rightarrow> 'a kst_scheme \<Rightarrow> 'a kst_scheme res" where
  "acquiresleep k s =
     bindr (acquire (Sleep_lk k) s) (\<lambda>s.
       if sl_locked (sleeps (sto s) k) \<noteq> 0 then Inl Asleep
       else
         let s = upd_sto (upd_sleep k (\<lambda>l. l\<lparr>sl_locked := 1\<rparr>)) s
         in bindr (myproc s) (\<lambda>(p, s).
              case p of None \<Rightarrow> Inl (Undef ''null pointer'')
              | Some i \<Rightarrow>
                  let s = upd_sto (upd_sleep k (\<lambda>l. l\<lparr>sl_pid := pid (ptable s i)\<rparr>)) s
                  in release (Sleep_lk k) s))"

definition releasesleep :: "sleep_id \<Rightarrow> 'a kst_scheme \<Rightarrow> 'a kst_scheme res" where
  "releasesleep k s =
     bindr (acquire (Sleep_lk k) s) (\<lambda>s.
       let s = upd_sto (upd_sleep k (\<lambda>l. l\<lparr>sl_locked := 0\<rparr>)) s;
           s = upd_sto (upd_sleep k (\<lambda>l. l\<lparr>sl_pid := 0\<rparr>)) s
       in bindr (wakeup (Chan_sleep k) s) (\<lambda>s. release (Sleep_lk k) s))"

definition holdingsleep :: "sleep_id \<Rightarrow> 'a kst_scheme \<Rightarrow> (bool \<times> 'a kst_scheme) res" where
  "holdingsleep k s =
     bindr (acquire (Sleep_lk k) s) (\<lambda>s.
     bindr (if sl_locked (sleeps (sto s) k) = 0 then Inr (False, s)
            else bindr (myproc s) (\<lambda>(p, s).
                   case p of None \<Rightarrow> Inl (Undef ''null pointer'')
                   | Some i \<Rightarrow> Inr (sl_pid (sleeps (sto s) k) = pid (ptable s i), s))) (\<lambda>(r, s).
     bindr (release (Sleep_lk k) s) (\<lambda>s. Inr (r, s))))"

section \<open>What a call does\<close>

definition lock_sleep :: "sleep_id \<Rightarrow> int \<Rightarrow> storage \<Rightarrow> storage" where
  "lock_sleep k p = upd_sleep k (\<lambda>l. l\<lparr>sl_locked := 1, sl_pid := p\<rparr>)"

definition unlock_sleep :: "sleep_id \<Rightarrow> storage \<Rightarrow> storage" where
  "unlock_sleep k = upd_sleep k (\<lambda>l. l\<lparr>sl_locked := 0, sl_pid := 0\<rparr>)"

definition has_sleep :: "sleep_id \<Rightarrow> int \<Rightarrow> storage \<Rightarrow> bool" where
  "has_sleep k p \<sigma> \<longleftrightarrow> sl_locked (sleeps \<sigma> k) \<noteq> 0 \<and> sl_pid (sleeps \<sigma> k) = p"

lemma upd_sleep_twice: "upd_sleep k f (upd_sleep k g \<sigma>) = upd_sleep k (\<lambda>l. f (g l)) \<sigma>"
  by (simp add: upd_sleep_def)

lemma mv_pid:
  assumes "mv L s x t" "cur s = Some i"
  shows "pid (ptable t i) = mypid s"
  using mv_facts(1,2) [OF assms(1)] assms(2) by (simp add: mypid_def)

lemma acquiresleep_mv:
  assumes "mv L s x t" "Sleep_lk k \<notin> L" "sl_locked (sleeps x k) = 0"
  shows "returns (acquiresleep k t) (mv L s (lock_sleep k (mypid s) x))"
  unfolding acquiresleep_def Let_def
proof (rule returns_bind [OF acquire_mv [OF assms(1,2)]])
  fix u assume u: "mv (insert (Sleep_lk k) L) s x u"
  have "returns (bindr (myproc (upd_sto (upd_sleep k (\<lambda>l. l\<lparr>sl_locked := 1\<rparr>)) u)) (\<lambda>(p, s).
              case p of None \<Rightarrow> Inl (Undef ''null pointer'')
              | Some i \<Rightarrow> release (Sleep_lk k) (upd_sto (upd_sleep k (\<lambda>l. l\<lparr>sl_pid := pid (ptable s i)\<rparr>)) s)))
      (mv L s (lock_sleep k (mypid s) x))"
  proof (rule returns_bind [OF myproc_mv [OF mv_upd [OF u]]], clarsimp simp del: One_nat_def)
    fix v i assume v: "cur s = Some i" "mv (insert (Sleep_lk k) L) s (upd_sleep k (\<lambda>l. l\<lparr>sl_locked := 1\<rparr>) x) v"
    have "lock_sleep k (mypid s) x = upd_sleep k (\<lambda>l. l\<lparr>sl_pid := pid (ptable v i)\<rparr>) (upd_sleep k (\<lambda>l. l\<lparr>sl_locked := 1\<rparr>) x)"
      using mv_pid [OF v(2,1)] by (simp add: lock_sleep_def upd_sleep_twice)
    then show "returns (release (Sleep_lk k) (upd_sto (upd_sleep k (\<lambda>l. l\<lparr>sl_pid := pid (ptable v i)\<rparr>)) v))
        (mv L s (lock_sleep k (mypid s) x))"
      using release_mv [OF mv_upd [OF v(2)], of "Sleep_lk k" L] assms(2) by simp
  qed
  then show "returns (if sl_locked (sleeps (sto u) k) \<noteq> 0 then Inl Asleep
       else bindr (myproc (upd_sto (upd_sleep k (\<lambda>l. l\<lparr>sl_locked := 1\<rparr>)) u)) (\<lambda>(p, s).
              case p of None \<Rightarrow> Inl (Undef ''null pointer'')
              | Some i \<Rightarrow> release (Sleep_lk k) (upd_sto (upd_sleep k (\<lambda>l. l\<lparr>sl_pid := pid (ptable s i)\<rparr>)) s)))
      (mv L s (lock_sleep k (mypid s) x))"
    using assms(3) mv_facts(4) [OF u] by simp
qed

lemma acquiresleep_waits:
  assumes "held L s" "Sleep_lk k \<notin> L" "sl_locked (sleeps (sto s) k) \<noteq> 0"
  shows "acquiresleep k s = Inl Asleep"
  using assms by (simp add: acquiresleep_def acquire_held)

lemma releasesleep_mv:
  assumes "mv L s x t" "Sleep_lk k \<notin> L" "Ptable_lock \<notin> L"
  shows "returns (releasesleep k t) (mv L s (unlock_sleep k x))"
  unfolding releasesleep_def Let_def
proof (rule returns_bind [OF acquire_mv [OF assms(1,2)]], rule returns_bind [OF wakeup_mv])
  fix u assume "mv (insert (Sleep_lk k) L) s x u"
  from mv_upd [OF mv_upd [OF this, of "upd_sleep k (\<lambda>l. l\<lparr>sl_locked := 0\<rparr>)"], of "upd_sleep k (\<lambda>l. l\<lparr>sl_pid := 0\<rparr>)"]
  show "mv (insert (Sleep_lk k) L) s (unlock_sleep k x)
      (upd_sto (upd_sleep k (\<lambda>l. l\<lparr>sl_pid := 0\<rparr>)) (upd_sto (upd_sleep k (\<lambda>l. l\<lparr>sl_locked := 0\<rparr>)) u))"
    by (simp add: unlock_sleep_def upd_sleep_twice)
qed (use assms in \<open>auto intro: release_mv\<close>)

lemma holdingsleep_mv:
  assumes "mv L s x t" "Sleep_lk k \<notin> L"
  shows "returns (holdingsleep k t) (\<lambda>(r, u). r = has_sleep k (mypid s) x \<and> mv L s x u)"
  unfolding holdingsleep_def
proof (rule returns_bind [OF acquire_mv [OF assms]])
  fix u assume u: "mv (insert (Sleep_lk k) L) s x u"
  have m: "returns (bindr (myproc u) (\<lambda>(p, s).
                   case p of None \<Rightarrow> Inl (Undef ''null pointer'')
                   | Some i \<Rightarrow> Inr (sl_pid (sleeps (sto s) k) = pid (ptable s i), s)))
      (\<lambda>(r, v). r = (sl_pid (sleeps x k) = mypid s) \<and> mv (insert (Sleep_lk k) L) s x v)"
    by (rule returns_bind [OF myproc_mv [OF u]]) (auto simp: mv_facts(4) mv_pid)
  have "returns (if sl_locked (sleeps (sto u) k) = 0 then Inr (False, u)
            else bindr (myproc u) (\<lambda>(p, s).
                   case p of None \<Rightarrow> Inl (Undef ''null pointer'')
                   | Some i \<Rightarrow> Inr (sl_pid (sleeps (sto s) k) = pid (ptable s i), s)))
      (\<lambda>(r, v). r = has_sleep k (mypid s) x \<and> mv (insert (Sleep_lk k) L) s x v)"
    using m u mv_facts(4) [OF u] by (auto simp: has_sleep_def)
  then show "returns (bindr (if sl_locked (sleeps (sto u) k) = 0 then Inr (False, u)
            else bindr (myproc u) (\<lambda>(p, s).
                   case p of None \<Rightarrow> Inl (Undef ''null pointer'')
                   | Some i \<Rightarrow> Inr (sl_pid (sleeps (sto s) k) = pid (ptable s i), s))) (\<lambda>(r, s).
     bindr (release (Sleep_lk k) s) (\<lambda>s. Inr (r, s)))) (\<lambda>(r, u). r = has_sleep k (mypid s) x \<and> mv L s x u)"
  proof (rule returns_bind, clarsimp)
    fix v assume "mv (insert (Sleep_lk k) L) s x v"
    from release_mv [OF this, of "Sleep_lk k" L] assms(2)
    show "returns (release (Sleep_lk k) v) (mv L s x)" by simp
  qed
qed

lemma sleeps_lock [simp]:
  "sleeps (lock_sleep k p \<sigma>) = (sleeps \<sigma>)(k := (sleeps \<sigma> k)\<lparr>sl_locked := 1, sl_pid := p\<rparr>)"
  "sleeps (unlock_sleep k \<sigma>) = (sleeps \<sigma>)(k := (sleeps \<sigma> k)\<lparr>sl_locked := 0, sl_pid := 0\<rparr>)"
  "bufs (lock_sleep k p \<sigma>) = bufs \<sigma>" "bufs (unlock_sleep k \<sigma>) = bufs \<sigma>"
  "memdisk (lock_sleep k p \<sigma>) = memdisk \<sigma>" "memdisk (unlock_sleep k \<sigma>) = memdisk \<sigma>"
  "disksize (lock_sleep k p \<sigma>) = disksize \<sigma>" "disksize (unlock_sleep k \<sigma>) = disksize \<sigma>"
  "wtrace (lock_sleep k p \<sigma>) = wtrace \<sigma>" "wtrace (unlock_sleep k \<sigma>) = wtrace \<sigma>"
  "jlog (lock_sleep k p \<sigma>) = jlog \<sigma>" "jlog (unlock_sleep k \<sigma>) = jlog \<sigma>"
  "sb (lock_sleep k p \<sigma>) = sb \<sigma>" "sb (unlock_sleep k \<sigma>) = sb \<sigma>"
  "icache (lock_sleep k p \<sigma>) = icache \<sigma>" "icache (unlock_sleep k \<sigma>) = icache \<sigma>"
  "files_t (lock_sleep k p \<sigma>) = files_t \<sigma>" "files_t (unlock_sleep k \<sigma>) = files_t \<sigma>"
  "pipes (lock_sleep k p \<sigma>) = pipes \<sigma>" "pipes (unlock_sleep k \<sigma>) = pipes \<sigma>"
  by (simp_all add: lock_sleep_def unlock_sleep_def upd_sleep_def)

end
