(* ===== verification/Bio.thy ===== *)
theory Bio
  imports Sleeplock
begin

text \<open>
  The buffer cache (bio.c) over the memory disk (memide.c). Buffer \<open>i\<close> of the table is number \<open>i\<close> and the
  list head \<open>bcache.head\<close> is number \<open>NBUF\<close>; the \<open>prev\<close> and \<open>next\<close> pointers are kept as in the code,
  and the loops follow them with a bound of one step more than there are buffers. The lemmas show
  that the pointers always form one ring through all buffers, so that the bound is enough, and that the cache is
  transparent: \<open>view\<close> is what the blocks hold as seen through it, a read returns the view,
  and caching, evicting and writing back leave the view alone.
\<close>

section \<open>Definitions\<close>

definition upd_buf :: "nat \<Rightarrow> (buf \<Rightarrow> buf) \<Rightarrow> storage \<Rightarrow> storage" where
  "upd_buf i f \<sigma> = \<sigma>\<lparr>bufs := (bufs \<sigma>)(i := f (bufs \<sigma> i))\<rparr>"

definition bc_head :: nat where "bc_head = NBUF"

text \<open>The body of the loop of binit.\<close>

definition link_buf :: "nat \<Rightarrow> storage \<Rightarrow> storage" where
  "link_buf b \<sigma> =
     (let \<sigma> = upd_buf b (\<lambda>x. x\<lparr>b_next := b_next (bufs \<sigma> bc_head)\<rparr>) \<sigma>;
          \<sigma> = upd_buf b (\<lambda>x. x\<lparr>b_prev := bc_head\<rparr>) \<sigma>;
          \<sigma> = upd_buf (b_next (bufs \<sigma> bc_head)) (\<lambda>x. x\<lparr>b_prev := b\<rparr>) \<sigma>
      in upd_buf bc_head (\<lambda>x. x\<lparr>b_next := b\<rparr>) \<sigma>)"

definition binit :: "'a kst_scheme \<Rightarrow> 'a kst_scheme" where
  "binit s =
     (let s = initlock Bcache_lock ''bcache'' s;
          s = upd_sto (upd_buf bc_head (\<lambda>x. x\<lparr>b_prev := bc_head\<rparr>)) s;
          s = upd_sto (upd_buf bc_head (\<lambda>x. x\<lparr>b_next := bc_head\<rparr>)) s
      in fold (\<lambda>b s. initsleeplock (Buf_lock b) ''buffer'' (upd_sto (link_buf b) s)) [0..<NBUF] s)"

text \<open>\<open>for (b = b; b != &bcache.head; b = nx(b)) if (P(b)) return b;\<close>\<close>

fun walk :: "(nat \<Rightarrow> nat) \<Rightarrow> (nat \<Rightarrow> bool) \<Rightarrow> nat \<Rightarrow> nat \<Rightarrow> nat option res" where
  "walk nx P 0 b = Inl Spin"
| "walk nx P (Suc n) b =
     (if b = bc_head then Inr None else if P b then Inr (Some b) else walk nx P n (nx b))"

definition bget :: "nat \<Rightarrow> nat \<Rightarrow> 'a kst_scheme \<Rightarrow> (nat \<times> 'a kst_scheme) res" where
  "bget dev blockno s =
     bindr (acquire Bcache_lock s) (\<lambda>s.
     let bs = bufs (sto s)
     in bindr (walk (\<lambda>b. b_next (bs b)) (\<lambda>b. b_dev (bs b) = dev \<and> b_blockno (bs b) = blockno)
          (Suc NBUF) (b_next (bs bc_head))) (\<lambda>r.
        case r of Some b \<Rightarrow>
          let s = upd_sto (upd_buf b (\<lambda>x. x\<lparr>b_refcnt := u32 (int (b_refcnt x) + 1)\<rparr>)) s
          in bindr (release Bcache_lock s) (\<lambda>s.
             bindr (acquiresleep (Buf_lock b) s) (\<lambda>s. Inr (b, s)))
        | None \<Rightarrow>
          bindr (walk (\<lambda>b. b_prev (bs b)) (\<lambda>b. b_refcnt (bs b) = 0 \<and> b_flags (bs b) AND B_DIRTY = 0)
            (Suc NBUF) (b_prev (bs bc_head))) (\<lambda>r.
          case r of Some b \<Rightarrow>
            let s = upd_sto (upd_buf b (\<lambda>x. x\<lparr>b_dev := dev, b_blockno := blockno, b_flags := 0, b_refcnt := 1\<rparr>)) s
            in bindr (release Bcache_lock s) (\<lambda>s.
               bindr (acquiresleep (Buf_lock b) s) (\<lambda>s. Inr (b, s)))
          | None \<Rightarrow> Inl (Panic ''bget: no buffers''))))"

text \<open>The driver of memide.c; \<open>img\<close> are the bytes linked in as \<open>_binary_fs_img\<close>.\<close>

definition ideinit :: "char list \<Rightarrow> 'a kst_scheme \<Rightarrow> 'a kst_scheme" where
  "ideinit img s = upd_sto (\<lambda>\<sigma>. \<sigma>\<lparr>memdisk := (\<lambda>n. take BSIZE (drop (n * BSIZE) img)), disksize := length img div BSIZE\<rparr>) s"

definition ideintr :: "'a kst_scheme \<Rightarrow> 'a kst_scheme" where
  "ideintr s = s"

definition iderw :: "nat \<Rightarrow> 'a kst_scheme \<Rightarrow> 'a kst_scheme res" where
  "iderw b s =
     bindr (holdingsleep (Buf_lock b) s) (\<lambda>(h, s).
       let x = bufs (sto s) b
       in if \<not> h then Inl (Panic ''iderw: buf not locked'')
          else if b_flags x AND (B_VALID OR B_DIRTY) = B_VALID then Inl (Panic ''iderw: nothing to do'')
          else if b_dev x \<noteq> 1 then Inl (Panic ''iderw: request not for disk 1'')
          else if b_blockno x \<ge> disksize (sto s) then Inl (Panic ''iderw: block out of range'')
          else
            let s = (if b_flags x AND B_DIRTY \<noteq> 0 then
                       let s = upd_sto (upd_buf b (\<lambda>x. x\<lparr>b_flags := b_flags x AND NOT B_DIRTY\<rparr>)) s
                       in upd_sto (\<lambda>\<sigma>. \<sigma>\<lparr>memdisk := (memdisk \<sigma>)(b_blockno x := b_data x),
                                         wtrace := wtrace \<sigma> @ [(b_blockno x, b_data x)]\<rparr>) s
                     else upd_sto (upd_buf b (\<lambda>x. x\<lparr>b_data := memdisk (sto s) (b_blockno x)\<rparr>)) s)
            in Inr (upd_sto (upd_buf b (\<lambda>x. x\<lparr>b_flags := b_flags x OR B_VALID\<rparr>)) s))"

definition bread :: "nat \<Rightarrow> nat \<Rightarrow> 'a kst_scheme \<Rightarrow> (nat \<times> 'a kst_scheme) res" where
  "bread dev blockno s =
     bindr (bget dev blockno s) (\<lambda>(b, s).
     bindr (if b_flags (bufs (sto s) b) AND B_VALID = 0 then iderw b s else Inr s) (\<lambda>s.
       Inr (b, s)))"

definition bwrite :: "nat \<Rightarrow> 'a kst_scheme \<Rightarrow> 'a kst_scheme res" where
  "bwrite b s =
     bindr (holdingsleep (Buf_lock b) s) (\<lambda>(h, s).
       if \<not> h then Inl (Panic ''bwrite'')
       else iderw b (upd_sto (upd_buf b (\<lambda>x. x\<lparr>b_flags := b_flags x OR B_DIRTY\<rparr>)) s))"

text \<open>Moving a buffer to the front of the list.\<close>

definition relink :: "nat \<Rightarrow> storage \<Rightarrow> storage" where
  "relink b \<sigma> =
     (let \<sigma> = upd_buf (b_next (bufs \<sigma> b)) (\<lambda>x. x\<lparr>b_prev := b_prev (bufs \<sigma> b)\<rparr>) \<sigma>;
          \<sigma> = upd_buf (b_prev (bufs \<sigma> b)) (\<lambda>x. x\<lparr>b_next := b_next (bufs \<sigma> b)\<rparr>) \<sigma>
      in link_buf b \<sigma>)"

definition brelse :: "nat \<Rightarrow> 'a kst_scheme \<Rightarrow> 'a kst_scheme res" where
  "brelse b s =
     bindr (holdingsleep (Buf_lock b) s) (\<lambda>(h, s).
       if \<not> h then Inl (Panic ''brelse'')
       else bindr (releasesleep (Buf_lock b) s) (\<lambda>s.
            bindr (acquire Bcache_lock s) (\<lambda>s.
              let s = upd_sto (upd_buf b (\<lambda>x. x\<lparr>b_refcnt := u32 (int (b_refcnt x) - 1)\<rparr>)) s;
                  s = (if b_refcnt (bufs (sto s) b) = 0 then upd_sto (relink b) s else s)
              in release Bcache_lock s)))"

section \<open>The ring of buffers\<close>

text \<open>\<open>chain nx pv x ys z\<close>: the pointers lead from \<open>x\<close> through \<open>ys\<close> to \<open>z\<close>, and back.\<close>

fun chain :: "(nat \<Rightarrow> nat) \<Rightarrow> (nat \<Rightarrow> nat) \<Rightarrow> nat \<Rightarrow> nat list \<Rightarrow> nat \<Rightarrow> bool" where
  "chain nx pv x [] z \<longleftrightarrow> nx x = z \<and> pv z = x"
| "chain nx pv x (y # ys) z \<longleftrightarrow> nx x = y \<and> pv y = x \<and> chain nx pv y ys z"

lemma chain_append: "chain nx pv x (as @ b # cs) z \<longleftrightarrow> chain nx pv x as b \<and> chain nx pv b cs z"
  by (induction as arbitrary: x) auto

lemma chain_rev: "chain pv nx z (rev ys) x = chain nx pv x ys z"
  by (induction ys arbitrary: x) (auto simp: chain_append)

lemma chain_cong:
  assumes "\<And>i. i \<in> set (x # ys) \<Longrightarrow> nx' i = nx i" "\<And>i. i \<in> set (ys @ [z]) \<Longrightarrow> pv' i = pv i"
  shows "chain nx' pv' x ys z = chain nx pv x ys z"
  using assms by (induction ys arbitrary: x) auto

lemma chain_first: "chain nx pv x ys z \<Longrightarrow> nx x = hd (ys @ [z])"
  by (cases ys) auto

lemma chain_last: "chain nx pv x ys z \<Longrightarrow> pv z = last (x # ys)"
  by (induction ys arbitrary: x) auto

lemma chain_unlink:
  assumes "chain nx pv x as b" "chain nx pv b cs z" "distinct (x # as @ b # cs)" "z \<notin> set (as @ b # cs)"
  shows "chain (nx(pv b := nx b)) (pv(nx b := pv b)) x (as @ cs) z"
  using assms
proof (induction as arbitrary: x)
  case Nil
  show ?case
  proof (cases cs)
    case (Cons c ds)
    have "chain (nx(x := c)) (pv(c := x)) c ds z = chain nx pv c ds z"
      using Nil Cons by (intro chain_cong) auto
    then show ?thesis using Nil Cons by (simp del: fun_upd_apply add: fun_upd_same)
  qed (use Nil in auto)
next
  case (Cons a as)
  have "nx b = hd (cs @ [z])" using chain_first [OF Cons.prems(2)] .
  then have n: "nx b \<noteq> a" using Cons.prems by (cases cs) auto
  have "pv b = last (a # as)" using chain_last [of nx pv a as b] Cons.prems(1) by simp
  then have "pv b \<in> set (a # as)" using last_in_set [of "a # as"] by simp
  then have "pv b \<noteq> x" using Cons.prems(3) by auto
  moreover have "chain (nx(pv b := nx b)) (pv(nx b := pv b)) a (as @ cs) z"
    using Cons.prems by (intro Cons.IH) auto
  ultimately show ?case using Cons.prems(1) n by (simp del: fun_upd_apply add: fun_upd_other fun_upd_same)
qed

lemma chain_insert:
  assumes "chain nx pv x ys x" "b \<notin> set (x # ys)" "distinct (x # ys)"
  shows "chain (nx(b := nx x, x := b)) (pv(b := x, nx x := b)) x (b # ys) x"
proof (cases ys)
  case (Cons y zs)
  have "chain (nx(b := nx x, x := b)) (pv(b := x, nx x := b)) y zs x = chain nx pv y zs x"
    using assms Cons by (intro chain_cong) auto
  then show ?thesis using assms Cons by auto
qed (use assms in auto)

lemma walk_find:
  assumes "chain nx pv x ys bc_head" "bc_head \<notin> set ys" "length ys < n"
  shows "walk nx P n (nx x) = Inr (find P ys)"
  using assms
proof (induction ys arbitrary: x n)
  case Nil
  then show ?case by (cases n) auto
next
  case (Cons y ys)
  then show ?case by (cases n) auto
qed

definition lru :: "(nat \<Rightarrow> buf) \<Rightarrow> nat list \<Rightarrow> bool" where
  "lru B bs \<longleftrightarrow> chain (\<lambda>i. b_next (B i)) (\<lambda>i. b_prev (B i)) bc_head bs bc_head \<and> distinct bs \<and> set bs = {..<NBUF}"

lemma lru_walks:
  assumes "lru B bs"
  shows "walk (\<lambda>b. b_next (B b)) P (Suc NBUF) (b_next (B bc_head)) = Inr (find P bs)"
    "walk (\<lambda>b. b_prev (B b)) P (Suc NBUF) (b_prev (B bc_head)) = Inr (find P (rev bs))"
proof -
  have "length bs = NBUF" using assms distinct_card [of bs] by (simp add: lru_def)
  moreover have "bc_head \<notin> set bs" using assms by (simp add: lru_def bc_head_def)
  ultimately show "walk (\<lambda>b. b_next (B b)) P (Suc NBUF) (b_next (B bc_head)) = Inr (find P bs)"
    "walk (\<lambda>b. b_prev (B b)) P (Suc NBUF) (b_prev (B bc_head)) = Inr (find P (rev bs))"
    using assms walk_find [of "\<lambda>b. b_next (B b)" "\<lambda>b. b_prev (B b)" bc_head bs "Suc NBUF" P]
      walk_find [of "\<lambda>b. b_prev (B b)" "\<lambda>b. b_next (B b)" bc_head "rev bs" "Suc NBUF" P]
    by (simp_all add: lru_def chain_rev)
qed

lemma lru_cong:
  assumes "\<And>i. b_next (B' i) = b_next (B i) \<and> b_prev (B' i) = b_prev (B i)"
  shows "lru B' bs = lru B bs"
  by (simp add: lru_def assms)

lemma bufs_upd_buf [simp]: "bufs (upd_buf i f \<sigma>) = (bufs \<sigma>)(i := f (bufs \<sigma> i))"
  by (simp add: upd_buf_def)

lemma link_buf_links:
  assumes "b \<noteq> bc_head"
  shows "(\<lambda>i. b_next (bufs (link_buf b \<sigma>) i)) =
      (\<lambda>i. b_next (bufs \<sigma> i))(b := b_next (bufs \<sigma> bc_head), bc_head := b)"
    "(\<lambda>i. b_prev (bufs (link_buf b \<sigma>) i)) =
      (\<lambda>i. b_prev (bufs \<sigma> i))(b := bc_head, b_next (bufs \<sigma> bc_head) := b)"
  using assms by (auto simp: link_buf_def Let_def fun_eq_iff)

text \<open>The part of a buffer that is not the list.\<close>

definition core :: "buf \<Rightarrow> buf" where
  "core b = b\<lparr>b_prev := 0, b_next := 0\<rparr>"

lemma core_simps [simp]: "b_flags (core b) = b_flags b" "b_dev (core b) = b_dev b" "b_blockno (core b) = b_blockno b"
  "b_refcnt (core b) = b_refcnt b" "b_data (core b) = b_data b" "core (b\<lparr>b_prev := i\<rparr>) = core b" "core (b\<lparr>b_next := i\<rparr>) = core b"
  by (simp_all add: core_def)

lemma core_eqs:
  assumes "core b = core c"
  shows "b_flags b = b_flags c" "b_dev b = b_dev c" "b_blockno b = b_blockno c" "b_refcnt b = b_refcnt c"
    "b_data b = b_data c"
  using assms [THEN arg_cong, of b_flags] assms [THEN arg_cong, of b_dev] assms [THEN arg_cong, of b_blockno]
    assms [THEN arg_cong, of b_refcnt] assms [THEN arg_cong, of b_data] by simp_all

lemma link_buf_core [simp]: "core (bufs (link_buf b \<sigma>) i) = core (bufs \<sigma> i)"
  by (simp add: link_buf_def Let_def)

lemma relink_core [simp]: "core (bufs (relink b \<sigma>) i) = core (bufs \<sigma> i)"
  by (simp add: relink_def Let_def)



lemma lru_relink:
  assumes "lru (bufs \<sigma>) bs" "b \<in> set bs"
  shows "lru (bufs (relink b \<sigma>)) (b # remove1 b bs)"
proof -
  let ?nx = "\<lambda>i. b_next (bufs \<sigma> i)" and ?pv = "\<lambda>i. b_prev (bufs \<sigma> i)"
  note l = assms(1) [unfolded lru_def]
  have h: "bc_head \<notin> set bs" using l by (simp add: bc_head_def)
  then have b: "b \<noteq> bc_head" using assms(2) by auto
  from assms(2) obtain as cs where bs: "bs = as @ b # cs" "b \<notin> set as" by (meson split_list_first)
  have c: "chain ?nx ?pv bc_head as b" "chain ?nx ?pv b cs bc_head"
    using l unfolding bs chain_append by blast+
  have "b_next (bufs \<sigma> b) = hd (cs @ [bc_head])" using chain_first [OF c(2)] .
  then have nb: "b_next (bufs \<sigma> b) \<noteq> b" using l b bs by (cases cs) auto
  define \<tau> where "\<tau> = upd_buf (b_prev (bufs \<sigma> b)) (\<lambda>x. x\<lparr>b_next := b_next (bufs \<sigma> b)\<rparr>)
      (upd_buf (b_next (bufs \<sigma> b)) (\<lambda>x. x\<lparr>b_prev := b_prev (bufs \<sigma> b)\<rparr>) \<sigma>)"
  have r: "relink b \<sigma> = link_buf b \<tau>"
    using nb by (simp add: relink_def \<tau>_def Let_def)
  have t: "(\<lambda>i. b_next (bufs \<tau> i)) = ?nx(?pv b := ?nx b)" "(\<lambda>i. b_prev (bufs \<tau> i)) = ?pv(?nx b := ?pv b)"
    by (auto simp: \<tau>_def fun_eq_iff)
  have d: "distinct (bc_head # as @ b # cs)" "bc_head \<notin> set (as @ b # cs)" using l h bs by auto
  have u: "chain (\<lambda>i. b_next (bufs \<tau> i)) (\<lambda>i. b_prev (bufs \<tau> i)) bc_head (as @ cs) bc_head"
    unfolding t by (rule chain_unlink [OF c d])
  have "chain (\<lambda>i. b_next (bufs (link_buf b \<tau>) i)) (\<lambda>i. b_prev (bufs (link_buf b \<tau>) i)) bc_head (b # as @ cs) bc_head"
    unfolding link_buf_links [OF b] using d b by (intro chain_insert [OF u]) auto
  moreover have "remove1 b bs = as @ cs" using bs by (simp add: remove1_append)
  ultimately show ?thesis using l bs unfolding lru_def r by auto
qed

section \<open>The cache invariant\<close>

text \<open>
  \<open>bc p H\<close>: the buffers in \<open>H\<close> are locked by the process with number \<open>p\<close> and no other is in use, every block is cached at most once, and a
  buffer that is neither held nor dirty agrees with the disk.
\<close>

definition buf_held :: "int \<Rightarrow> nat \<Rightarrow> storage \<Rightarrow> bool" where
  "buf_held p i \<sigma> \<longleftrightarrow> has_sleep (Buf_lock i) p \<sigma> \<and> b_refcnt (bufs \<sigma> i) = 1 \<and> b_dev (bufs \<sigma> i) = 1 \<and>
     b_blockno (bufs \<sigma> i) < disksize \<sigma> \<and> b_flags (bufs \<sigma> i) \<in> {2, 6}"

definition buf_rest :: "nat \<Rightarrow> storage \<Rightarrow> bool" where
  "buf_rest i \<sigma> \<longleftrightarrow> sl_locked (sleeps \<sigma> (Buf_lock i)) = 0 \<and> b_refcnt (bufs \<sigma> i) = 0 \<and>
     (b_flags (bufs \<sigma> i) = 0 \<and> b_dev (bufs \<sigma> i) = 0 \<or>
      b_dev (bufs \<sigma> i) = 1 \<and> b_blockno (bufs \<sigma> i) < disksize \<sigma> \<and>
      (b_flags (bufs \<sigma> i) = 6 \<or> b_flags (bufs \<sigma> i) = 2 \<and> b_data (bufs \<sigma> i) = memdisk \<sigma> (b_blockno (bufs \<sigma> i))))"

definition caches :: "storage \<Rightarrow> nat \<Rightarrow> nat \<Rightarrow> bool" where
  "caches \<sigma> i n \<longleftrightarrow> i < NBUF \<and> b_dev (bufs \<sigma> i) = 1 \<and> b_blockno (bufs \<sigma> i) = n"

definition bc :: "int \<Rightarrow> nat set \<Rightarrow> storage \<Rightarrow> bool" where
  "bc p H \<sigma> \<longleftrightarrow> H \<subseteq> {..<NBUF} \<and> (\<exists>bs. lru (bufs \<sigma>) bs) \<and> (\<forall>n. length (memdisk \<sigma> n) = BSIZE) \<and>
     (\<forall>i < NBUF. length (b_data (bufs \<sigma> i)) = BSIZE) \<and>
     (\<forall>i \<in> H. buf_held p i \<sigma>) \<and> (\<forall>i < NBUF. i \<notin> H \<longrightarrow> buf_rest i \<sigma>) \<and>
     (\<forall>i j n. caches \<sigma> i n \<longrightarrow> caches \<sigma> j n \<longrightarrow> i = j)"

definition view :: "storage \<Rightarrow> nat \<Rightarrow> char list" where
  "view \<sigma> n = (case find (\<lambda>i. b_dev (bufs \<sigma> i) = 1 \<and> b_blockno (bufs \<sigma> i) = n) [0..<NBUF] of
     Some i \<Rightarrow> b_data (bufs \<sigma> i) | None \<Rightarrow> memdisk \<sigma> n)"

definition dirtyb :: "storage \<Rightarrow> nat set" where
  "dirtyb \<sigma> = {i. i < NBUF \<and> b_flags (bufs \<sigma> i) = 6}"

lemma bcD:
  assumes "bc p H \<sigma>"
  shows "H \<subseteq> {..<NBUF}" "\<exists>bs. lru (bufs \<sigma>) bs" "length (memdisk \<sigma> n) = BSIZE"
    "i < NBUF \<Longrightarrow> length (b_data (bufs \<sigma> i)) = BSIZE" "i \<in> H \<Longrightarrow> buf_held p i \<sigma>"
    "i < NBUF \<Longrightarrow> i \<notin> H \<Longrightarrow> buf_rest i \<sigma>" "caches \<sigma> i n \<Longrightarrow> caches \<sigma> j n \<Longrightarrow> i = j"
  using assms by (auto simp: bc_def)

lemma view_cached:
  assumes "bc p H \<sigma>" "caches \<sigma> i n"
  shows "view \<sigma> n = b_data (bufs \<sigma> i)"
proof (cases "find (\<lambda>i. b_dev (bufs \<sigma> i) = 1 \<and> b_blockno (bufs \<sigma> i) = n) [0..<NBUF]")
  case None
  then show ?thesis using assms(2) by (auto simp: find_None_iff caches_def)
next
  case (Some j)
  then have "caches \<sigma> j n" by (auto simp: find_Some_iff caches_def)
  then have "j = i" using bcD(7) [OF assms(1)] assms(2) by blast
  then show ?thesis using Some by (simp add: view_def)
qed

lemma view_uncached:
  assumes "\<And>i. \<not> caches \<sigma> i n"
  shows "view \<sigma> n = memdisk \<sigma> n"
proof -
  have "find (\<lambda>i. b_dev (bufs \<sigma> i) = 1 \<and> b_blockno (bufs \<sigma> i) = n) [0..<NBUF] = None"
    using assms by (auto simp: find_None_iff caches_def)
  then show ?thesis by (simp add: view_def)
qed

lemma length_view [simp]:
  assumes "bc p H \<sigma>"
  shows "length (view \<sigma> n) = BSIZE"
proof (cases "\<exists>i. caches \<sigma> i n")
  case True
  then obtain i where i: "caches \<sigma> i n" by blast
  then show ?thesis using view_cached [OF assms i] bcD(4) [OF assms, of i] by (simp add: caches_def)
next
  case False
  then show ?thesis using view_uncached [of \<sigma> n] bcD(3) [OF assms, of n] by simp
qed

section \<open>Reading a block\<close>

text \<open>\<open>got x b y\<close>: what changed between \<open>x\<close> and \<open>y\<close> is only how buffers are used.\<close>

definition fs_same :: "storage \<Rightarrow> storage \<Rightarrow> bool" where
  "fs_same x y \<longleftrightarrow> disksize y = disksize x \<and> jlog y = jlog x \<and> sb y = sb x \<and> icache y = icache x \<and>
     files_t y = files_t x \<and> pipes y = pipes x \<and> (\<forall>k. sleeps y (Inode_lock k) = sleeps x (Inode_lock k))"

lemma fs_same_refl [simp]: "fs_same x x"
  by (simp add: fs_same_def)

lemma fs_same_trans: "fs_same x y \<Longrightarrow> fs_same y z \<Longrightarrow> fs_same x z"
  by (simp add: fs_same_def)

definition same_view :: "storage \<Rightarrow> storage \<Rightarrow> bool" where
  "same_view x y \<longleftrightarrow> view y = view x \<and> memdisk y = memdisk x \<and> wtrace y = wtrace x \<and> fs_same x y"

lemma same_viewD:
  assumes "same_view x y"
  shows "view y = view x" "memdisk y = memdisk x" "wtrace y = wtrace x" "fs_same x y"
    "disksize y = disksize x" "jlog y = jlog x"
  using assms by (simp_all add: same_view_def fs_same_def)

definition dblocks :: "storage \<Rightarrow> nat set" where
  "dblocks \<sigma> = (\<lambda>i. b_blockno (bufs \<sigma> i)) ` dirtyb \<sigma>"

lemma same_view_refl [simp]: "same_view x x"
  by (simp add: same_view_def)

lemma same_view_trans: "same_view x y \<Longrightarrow> same_view y z \<Longrightarrow> same_view x z"
  by (auto simp: same_view_def intro: fs_same_trans)

definition bread_hit :: "int \<Rightarrow> nat \<Rightarrow> storage \<Rightarrow> storage" where
  "bread_hit p b \<sigma> = lock_sleep (Buf_lock b) p (upd_buf b (\<lambda>x. x\<lparr>b_refcnt := 1\<rparr>) \<sigma>)"

definition bread_miss :: "int \<Rightarrow> nat \<Rightarrow> nat \<Rightarrow> storage \<Rightarrow> storage" where
  "bread_miss p n b \<sigma> = lock_sleep (Buf_lock b) p
     (upd_buf b (\<lambda>x. x\<lparr>b_dev := 1, b_blockno := n, b_refcnt := 1, b_data := memdisk \<sigma> n, b_flags := 2\<rparr>) \<sigma>)"

lemma upd_buf_other [simp]:
  "sleeps (upd_buf i f \<sigma>) = sleeps \<sigma>" "memdisk (upd_buf i f \<sigma>) = memdisk \<sigma>" "disksize (upd_buf i f \<sigma>) = disksize \<sigma>"
  "wtrace (upd_buf i f \<sigma>) = wtrace \<sigma>" "jlog (upd_buf i f \<sigma>) = jlog \<sigma>" "sb (upd_buf i f \<sigma>) = sb \<sigma>"
  "icache (upd_buf i f \<sigma>) = icache \<sigma>" "files_t (upd_buf i f \<sigma>) = files_t \<sigma>" "pipes (upd_buf i f \<sigma>) = pipes \<sigma>"
  by (simp_all add: upd_buf_def)

lemma upd_buf_twice: "upd_buf i f (upd_buf i g \<sigma>) = upd_buf i (\<lambda>x. f (g x)) \<sigma>"
  by (simp add: upd_buf_def)

lemma lock_upd_buf: "lock_sleep k p (upd_buf i f \<sigma>) = upd_buf i f (lock_sleep k p \<sigma>)"
  by (simp add: lock_sleep_def upd_sleep_def upd_buf_def)

lemma flag_simps [simp]:
  "(2 :: int) AND B_VALID = 2" "(6 :: int) AND B_VALID = 2" "(0 :: int) AND B_VALID = 0"
  "(2 :: int) AND B_DIRTY = 0" "(6 :: int) AND B_DIRTY = 4" "(0 :: int) AND B_DIRTY = 0"
  "(2 :: int) AND (B_VALID OR B_DIRTY) = 2" "(6 :: int) AND (B_VALID OR B_DIRTY) = 6" "(0 :: int) AND (B_VALID OR B_DIRTY) = 0"
  "(2 :: int) OR B_DIRTY = 6" "(6 :: int) OR B_DIRTY = 6" "(6 :: int) AND NOT B_DIRTY = 2"
  "(2 :: int) OR B_VALID = 2" "(0 :: int) OR B_VALID = 2" "(6 :: int) OR B_VALID = 6"
  by (simp_all add: B_VALID_def B_DIRTY_def)

lemma mv_returnsE: "returns m (mv L s x) \<Longrightarrow> (\<And>u. m = Inr u \<Longrightarrow> mv L s x u \<Longrightarrow> P) \<Longrightarrow> P"
  by (auto simp: returns_iff)

lemma lru_find_cached:
  assumes "bc p H x" "lru (bufs x) bs"
  shows "caches x b n \<Longrightarrow> find (\<lambda>b. b_dev (bufs x b) = 1 \<and> b_blockno (bufs x b) = n) bs = Some b"
    "(\<And>i. \<not> caches x i n) \<Longrightarrow> find (\<lambda>b. b_dev (bufs x b) = 1 \<and> b_blockno (bufs x b) = n) bs = None"
proof -
  let ?P = "\<lambda>b. b_dev (bufs x b) = 1 \<and> b_blockno (bufs x b) = n"
  have c: "find ?P bs = Some c \<Longrightarrow> caches x c n" for c
    using assms(2) by (auto simp: find_Some_iff caches_def lru_def dest: nth_mem)
  show "find ?P bs = Some b" if "caches x b n"
  proof (cases "find ?P bs")
    case None
    then show ?thesis using that assms(2) by (auto simp: find_None_iff caches_def lru_def)
  next
    case (Some c)
    then show ?thesis using c bcD(7) [OF assms(1)] that by blast
  qed
  show "find ?P bs = None" if "\<And>i. \<not> caches x i n"
    using c that by (cases "find ?P bs") auto
qed

lemma bget_hit:
  assumes "mv {} s x t" "bc p H x" "caches x b n" "b \<notin> H" "p = mypid s"
  shows "returns (bget 1 n t) (\<lambda>(c, u). c = b \<and> mv {} s (bread_hit p b x) u)"
proof -
  obtain bs where bs: "lru (bufs x) bs" using bcD(2) [OF assms(2)] by blast
  note f = lru_find_cached(1) [OF assms(2) bs assms(3)]
  have r: "buf_rest b x" using bcD(6) [OF assms(2)] assms(3,4) by (simp add: caches_def)
  let ?inc = "upd_buf b (\<lambda>x. x\<lparr>b_refcnt := u32 (int (b_refcnt x) + 1)\<rparr>)"
  have y: "?inc x = upd_buf b (\<lambda>x. x\<lparr>b_refcnt := 1\<rparr>) x"
    using r by (simp add: upd_buf_def buf_rest_def One_nat_def)
  have z: "lock_sleep (Buf_lock b) (mypid s) (?inc x) = bread_hit p b x" unfolding y bread_hit_def assms(5) ..
  obtain u where u: "acquire Bcache_lock t = Inr u" "mv {Bcache_lock} s x u"
    using acquire_mv [OF assms(1)] by (auto elim: mv_returnsE)
  obtain v where v: "release Bcache_lock (upd_sto ?inc u) = Inr v" "mv {} s (?inc x) v"
    using release_mv [OF mv_upd [OF u(2)], of Bcache_lock "{}"] by (auto elim: mv_returnsE)
  have "sl_locked (sleeps (?inc x) (Buf_lock b)) = 0" using r by (simp add: buf_rest_def)
  then obtain w where w: "acquiresleep (Buf_lock b) v = Inr w" "mv {} s (bread_hit p b x) w"
    using acquiresleep_mv [OF v(2), of "Buf_lock b", unfolded z] by (auto elim: mv_returnsE)
  have "bget 1 n t = Inr (b, w)"
    using f unfolding bget_def u(1) bindr_Inr mv_facts(4) [OF u(2)] Let_def lru_walks [OF bs] by (simp add: v(1) w(1))
  then show ?thesis using w(2) by simp
qed

lemma bget_miss:
  assumes "mv {} s x t" "bc p H x" "\<And>i. \<not> caches x i n" "\<exists>i < NBUF. i \<notin> H \<and> i \<notin> dirtyb x" "p = mypid s"
  obtains b where "b < NBUF" "b \<notin> H" "b \<notin> dirtyb x"
    "returns (bget 1 n t) (\<lambda>(c, u). c = b \<and> mv {} s (lock_sleep (Buf_lock b) p
       (upd_buf b (\<lambda>x. x\<lparr>b_dev := 1, b_blockno := n, b_flags := 0, b_refcnt := 1\<rparr>) x)) u)"
proof -
  obtain bs where bs: "lru (bufs x) bs" using bcD(2) [OF assms(2)] by blast
  note f = lru_find_cached(2) [OF assms(2) bs assms(3)]
  let ?Q = "\<lambda>b. b_refcnt (bufs x b) = 0 \<and> b_flags (bufs x b) AND B_DIRTY = 0"
  have q: "?Q i \<longleftrightarrow> i \<notin> H \<and> i \<notin> dirtyb x" if "i < NBUF" for i
  proof (cases "i \<in> H")
    case True
    then show ?thesis using bcD(5) [OF assms(2) True] by (simp add: buf_held_def)
  next
    case False
    then show ?thesis using bcD(6) [OF assms(2) that False] that by (auto simp: buf_rest_def dirtyb_def)
  qed
  obtain b where g: "find ?Q (rev bs) = Some b"
  proof (cases "find ?Q (rev bs)")
    case None
    obtain i where i: "i < NBUF" "i \<notin> H" "i \<notin> dirtyb x" using assms(4) by blast
    then have "?Q i" using q by blast
    then show ?thesis using None bs i by (auto simp: find_None_iff lru_def)
  qed auto
  then have "b \<in> set bs" "?Q b" by (auto simp: find_Some_iff) (metis length_rev nth_mem set_rev)
  then have b: "b < NBUF" "b \<notin> H" "b \<notin> dirtyb x" using q bs by (auto simp: lru_def)
  have r: "buf_rest b x" using bcD(6) [OF assms(2)] b by simp
  let ?f = "upd_buf b (\<lambda>x. x\<lparr>b_dev := 1, b_blockno := n, b_flags := 0, b_refcnt := 1\<rparr>)"
  obtain u where u: "acquire Bcache_lock t = Inr u" "mv {Bcache_lock} s x u"
    using acquire_mv [OF assms(1)] by (auto elim: mv_returnsE)
  obtain v where v: "release Bcache_lock (upd_sto ?f u) = Inr v" "mv {} s (?f x) v"
    using release_mv [OF mv_upd [OF u(2), of ?f], of Bcache_lock "{}"] by (auto elim: mv_returnsE)
  have "sl_locked (sleeps (?f x) (Buf_lock b)) = 0" using r by (simp add: buf_rest_def)
  then obtain w where w: "acquiresleep (Buf_lock b) v = Inr w" "mv {} s (lock_sleep (Buf_lock b) p (?f x)) w"
    using acquiresleep_mv [OF v(2)] assms(5) by (auto elim: mv_returnsE)
  have "bget 1 n t = Inr (b, w)"
    using f g unfolding bget_def u(1) bindr_Inr mv_facts(4) [OF u(2)] Let_def lru_walks [OF bs]
    by (simp add: v(1) [simplified] w(1))
  then show thesis using that [OF b] w(2) by simp
qed

lemma iderw_read:
  assumes "mv {} s x t" "has_sleep (Buf_lock b) (mypid s) x" "b_flags (bufs x b) = 0" "b_dev (bufs x b) = 1"
    "b_blockno (bufs x b) < disksize x"
  shows "returns (iderw b t) (mv {} s (upd_buf b (\<lambda>y. y\<lparr>b_data := memdisk x (b_blockno y), b_flags := 2\<rparr>) x))"
proof -
  obtain u where u: "holdingsleep (Buf_lock b) t = Inr (True, u)" "mv {} s x u"
    using holdingsleep_mv [OF assms(1), of "Buf_lock b"] assms(2) by (auto simp: returns_iff)
  let ?f = "upd_buf b (\<lambda>y. y\<lparr>b_data := memdisk x (b_blockno y)\<rparr>)" and ?g = "upd_buf b (\<lambda>y. y\<lparr>b_flags := b_flags y OR B_VALID\<rparr>)"
  have "iderw b t = Inr (upd_sto ?g (upd_sto ?f u))"
    using assms(3-5) mv_facts(4) [OF u(2)] by (simp add: iderw_def u(1) B_VALID_def)
  moreover have "?g (?f x) = upd_buf b (\<lambda>y. y\<lparr>b_data := memdisk x (b_blockno y), b_flags := 2\<rparr>) x"
    using assms(3) by (simp add: upd_buf_def B_VALID_def)
  ultimately show ?thesis using mv_upd [OF mv_upd [OF u(2), of ?f], of ?g] by simp
qed

definition disk_write :: "nat \<Rightarrow> char list \<Rightarrow> storage \<Rightarrow> storage" where
  "disk_write n d \<sigma> = \<sigma>\<lparr>memdisk := (memdisk \<sigma>)(n := d), wtrace := wtrace \<sigma> @ [(n, d)]\<rparr>"

lemma iderw_write:
  assumes "mv {} s x t" "has_sleep (Buf_lock b) (mypid s) x" "b_flags (bufs x b) = 6" "b_dev (bufs x b) = 1"
    "b_blockno (bufs x b) < disksize x"
  shows "returns (iderw b t)
    (mv {} s (disk_write (b_blockno (bufs x b)) (b_data (bufs x b)) (upd_buf b (\<lambda>y. y\<lparr>b_flags := 2\<rparr>) x)))"
proof -
  obtain u where u: "holdingsleep (Buf_lock b) t = Inr (True, u)" "mv {} s x u"
    using holdingsleep_mv [OF assms(1), of "Buf_lock b"] assms(2) by (auto simp: returns_iff)
  let ?f = "upd_buf b (\<lambda>y. y\<lparr>b_flags := b_flags y AND NOT B_DIRTY\<rparr>)" and ?g = "upd_buf b (\<lambda>y. y\<lparr>b_flags := b_flags y OR B_VALID\<rparr>)"
  let ?d = "disk_write (b_blockno (bufs x b)) (b_data (bufs x b))"
  have "iderw b t = Inr (upd_sto ?g (upd_sto ?d (upd_sto ?f u)))"
    using assms(3-5) mv_facts(4) [OF u(2)] by (simp add: iderw_def u(1) B_VALID_def disk_write_def [abs_def] Let_def)
  moreover have "?g (?d (?f x)) = ?d (upd_buf b (\<lambda>y. y\<lparr>b_flags := 2\<rparr>) x)"
    using assms(3) by (simp add: upd_buf_def disk_write_def)
  ultimately show ?thesis using mv_upd [OF mv_upd [OF mv_upd [OF u(2), of ?f], of ?d], of ?g] by simp
qed

text \<open>Taking a cached block.\<close>

lemma caches_core:
  assumes "\<And>i. core (bufs y i) = core (bufs x i)"
  shows "caches y i n = caches x i n"
  using core_eqs(2,3) [OF assms, of i] by (simp add: caches_def)

lemma view_cong:
  assumes "\<And>i. b_dev (bufs y i) = b_dev (bufs x i) \<and> b_blockno (bufs y i) = b_blockno (bufs x i) \<and> b_data (bufs y i) = b_data (bufs x i)"
    "memdisk y = memdisk x"
  shows "view y = view x"
  using assms by (auto simp: view_def fun_eq_iff split: option.split)

lemma bread_hit_ok:
  assumes "bc p H x" "caches x b n" "b \<notin> H"
  shows "bc p (insert b H) (bread_hit p b x)" "same_view x (bread_hit p b x)" "dirtyb (bread_hit p b x) = dirtyb x"
proof -
  let ?y = "bread_hit p b x"
  have b: "b < NBUF" using assms(2) by (simp add: caches_def)
  have y: "bufs ?y = (bufs x)(b := (bufs x b)\<lparr>b_refcnt := 1\<rparr>)" "memdisk ?y = memdisk x" "disksize ?y = disksize x"
    "sleeps ?y = (sleeps x)(Buf_lock b := (sleeps x (Buf_lock b))\<lparr>sl_locked := 1, sl_pid := p\<rparr>)"
    by (simp_all add: bread_hit_def)
  have c: "caches ?y i m = caches x i m" for i m by (simp add: caches_def y)
  have "lru (bufs ?y) bs = lru (bufs x) bs" for bs by (rule lru_cong) (simp add: y)
  moreover have "buf_held p b ?y"
    using bcD(6) [OF assms(1) b assms(3)] assms(2) by (auto simp: buf_held_def buf_rest_def has_sleep_def y caches_def)
  moreover have "buf_held p i ?y" if "i \<in> H" for i
  proof -
    have "i \<noteq> b" using that assms(3) by blast
    then show ?thesis using bcD(5) [OF assms(1) that] by (simp add: buf_held_def has_sleep_def y)
  qed
  moreover have "buf_rest i ?y" if "i < NBUF" "i \<notin> insert b H" for i
    using bcD(6) [OF assms(1) that(1)] that by (simp add: buf_rest_def y)
  ultimately show "bc p (insert b H) ?y"
    using assms(1) b unfolding bc_def c by (auto simp: y)
  have "view ?y = view x" by (rule view_cong) (simp_all add: y)
  then show "same_view x ?y" by (simp add: same_view_def fs_same_def y bread_hit_def)
  show "dirtyb ?y = dirtyb x" by (auto simp: dirtyb_def y)
qed

text \<open>Taking over a buffer for a block that is not cached.\<close>

lemma bread_miss_ok:
  assumes "bc p H x" "\<And>i. \<not> caches x i n" "b < NBUF" "b \<notin> H" "b \<notin> dirtyb x" "n < disksize x"
  shows "bc p (insert b H) (bread_miss p n b x)" "same_view x (bread_miss p n b x)" "dirtyb (bread_miss p n b x) = dirtyb x"
proof -
  let ?y = "bread_miss p n b x"
  have y: "bufs ?y = (bufs x)(b := (bufs x b)\<lparr>b_dev := 1, b_blockno := n, b_refcnt := 1, b_data := memdisk x n, b_flags := 2\<rparr>)"
    "memdisk ?y = memdisk x" "disksize ?y = disksize x"
    "sleeps ?y = (sleeps x)(Buf_lock b := (sleeps x (Buf_lock b))\<lparr>sl_locked := 1, sl_pid := p\<rparr>)"
    by (simp_all add: bread_miss_def)
  have c: "caches ?y i m \<longleftrightarrow> (if i = b then m = n else caches x i m)" for i m
    using assms(3) by (auto simp: caches_def y)
  have r: "buf_rest b x" using bcD(6) [OF assms(1,3,4)] .
  have "lru (bufs ?y) bs = lru (bufs x) bs" for bs by (rule lru_cong) (simp add: y)
  moreover have "buf_held p b ?y" using assms(6) by (simp add: buf_held_def has_sleep_def y)
  moreover have "buf_held p i ?y" if "i \<in> H" for i
  proof -
    have "i \<noteq> b" using that assms(4) by blast
    then show ?thesis using bcD(5) [OF assms(1) that] by (simp add: buf_held_def has_sleep_def y)
  qed
  moreover have "buf_rest i ?y" if "i < NBUF" "i \<notin> insert b H" for i
    using bcD(6) [OF assms(1) that(1)] that by (simp add: buf_rest_def y)
  moreover have "caches ?y i m \<longrightarrow> caches ?y j m \<longrightarrow> i = j" for i j m
    using assms(2) bcD(7) [OF assms(1)] unfolding c by metis
  ultimately show bc: "bc p (insert b H) ?y"
    using assms(1,3) unfolding bc_def by (auto simp: y)
  have "view ?y m = view x m" for m
  proof (cases "m = n")
    case True
    then show ?thesis using view_cached [OF bc, of b n] view_uncached [of x n] assms(2) c by (simp add: y)
  next
    case False
    show ?thesis
    proof (cases "\<exists>i. i \<noteq> b \<and> caches x i m")
      case True
      then obtain i where i: "i \<noteq> b" "caches x i m" by blast
      then show ?thesis using view_cached [OF bc, of i m] view_cached [OF assms(1) i(2)] c by (simp add: y)
    next
      case none: False
      have "\<not> caches ?y i m" for i using c none \<open>m \<noteq> n\<close> by (cases "i = b") auto
      then have "view ?y m = memdisk x m" using view_uncached [of ?y m] by (simp add: y)
      moreover have "view x m = memdisk x m"
      proof (cases "caches x b m")
        case True
        then have "b_flags (bufs x b) = 2 \<and> b_data (bufs x b) = memdisk x m"
          using r assms(3,5) by (auto simp: buf_rest_def dirtyb_def caches_def)
        then show ?thesis using view_cached [OF assms(1) True] by simp
      next
        case False
        then have "\<not> caches x i m" for i using none by (cases "i = b") auto
        then show ?thesis by (rule view_uncached)
      qed
      ultimately show ?thesis by simp
    qed
  qed
  then have "view ?y = view x" by (rule ext)
  then show "same_view x ?y" by (simp add: same_view_def fs_same_def y bread_miss_def)
  show "dirtyb ?y = dirtyb x" using assms(5) by (auto simp: dirtyb_def y)
qed

definition got :: "int \<Rightarrow> nat set \<Rightarrow> storage \<Rightarrow> nat \<Rightarrow> nat \<Rightarrow> storage \<Rightarrow> bool" where
  "got p H x n b y \<longleftrightarrow> b \<notin> H \<and> bc p (insert b H) y \<and> caches y b n \<and> b_data (bufs y b) = view x n \<and>
     same_view x y \<and> dirtyb y = dirtyb x \<and> dblocks y = dblocks x \<and> (\<forall>h \<in> H. core (bufs y h) = core (bufs x h))"

definition can_read :: "nat set \<Rightarrow> storage \<Rightarrow> nat \<Rightarrow> bool" where
  "can_read H x n \<longleftrightarrow> n < disksize x \<and> (\<forall>h \<in> H. b_blockno (bufs x h) \<noteq> n) \<and>
     ((\<exists>i. caches x i n) \<or> (\<exists>i < NBUF. i \<notin> H \<and> i \<notin> dirtyb x))"

theorem bread_mv:
  assumes "mv {} s x t" "bc p H x" "p = mypid s" "can_read H x n"
  shows "returns (bread 1 n t) (\<lambda>(b, u). \<exists>y. mv {} s y u \<and> got p H x n b y)"
proof (cases "\<exists>i. caches x i n")
  case True
  then obtain b where b: "caches x b n" by blast
  then have h: "b \<notin> H" using assms(4) by (auto simp: can_read_def caches_def)
  note ok = bread_hit_ok [OF assms(2) b h]
  obtain u where u: "bget 1 n t = Inr (b, u)" "mv {} s (bread_hit p b x) u"
    using bget_hit [OF assms(1,2) b h assms(3)] by (auto simp: returns_iff)
  have y: "bufs (bread_hit p b x) = (bufs x)(b := (bufs x b)\<lparr>b_refcnt := 1\<rparr>)" by (simp add: bread_hit_def)
  have "b_flags (bufs x b) \<in> {2, 6}"
    using bcD(6) [OF assms(2) _ h] b by (auto simp: buf_rest_def caches_def)
  then have "bread 1 n t = Inr (b, u)"
    using mv_facts(4) [OF u(2)] by (auto simp: bread_def u(1) y)
  moreover have "got p H x n b (bread_hit p b x)"
    using ok h b view_cached [OF assms(2) b] by (auto simp: got_def dblocks_def caches_def y)
  ultimately show ?thesis using u(2) by auto
next
  case False
  then have no: "\<And>i. \<not> caches x i n" by blast
  have n: "n < disksize x" and av: "\<exists>i < NBUF. i \<notin> H \<and> i \<notin> dirtyb x" using assms(4) False by (auto simp: can_read_def)
  obtain b where b: "b < NBUF" "b \<notin> H" "b \<notin> dirtyb x"
    "returns (bget 1 n t) (\<lambda>(c, u). c = b \<and> mv {} s (lock_sleep (Buf_lock b) p
       (upd_buf b (\<lambda>x. x\<lparr>b_dev := 1, b_blockno := n, b_flags := 0, b_refcnt := 1\<rparr>) x)) u)"
    using bget_miss [OF assms(1,2) no av assms(3)] by blast
  note ok = bread_miss_ok [OF assms(2) no b(1-3) n]
  let ?z = "lock_sleep (Buf_lock b) p (upd_buf b (\<lambda>x. x\<lparr>b_dev := 1, b_blockno := n, b_flags := 0, b_refcnt := 1\<rparr>) x)"
  obtain u where u: "bget 1 n t = Inr (b, u)" "mv {} s ?z u"
    using b(4) by (auto simp: returns_iff)
  have "upd_buf b (\<lambda>y. y\<lparr>b_data := memdisk ?z (b_blockno y), b_flags := 2\<rparr>) ?z = bread_miss p n b x"
    by (simp add: bread_miss_def lock_upd_buf upd_buf_twice)
  moreover have "returns (iderw b u) (mv {} s (upd_buf b (\<lambda>y. y\<lparr>b_data := memdisk ?z (b_blockno y), b_flags := 2\<rparr>) ?z))"
    using assms(3) n by (intro iderw_read [OF u(2)]) (simp_all add: has_sleep_def)
  ultimately obtain v where v: "iderw b u = Inr v" "mv {} s (bread_miss p n b x) v" by (auto simp: returns_iff)
  have y: "bufs (bread_miss p n b x) = (bufs x)(b := (bufs x b)\<lparr>b_dev := 1, b_blockno := n, b_refcnt := 1, b_data := memdisk x n, b_flags := 2\<rparr>)"
    by (simp add: bread_miss_def)
  have "bread 1 n t = Inr (b, v)"
    using mv_facts(4) [OF u(2)] by (simp add: bread_def u(1) v(1))
  moreover have "got p H x n b (bread_miss p n b x)"
    using ok b view_uncached [OF no] by (auto simp: got_def dblocks_def caches_def y)
  ultimately show ?thesis using v(2) by auto
qed

section \<open>Changing, writing and releasing a held buffer\<close>

definition set_data :: "nat \<Rightarrow> char list \<Rightarrow> storage \<Rightarrow> storage" where
  "set_data b d = upd_buf b (\<lambda>x. x\<lparr>b_data := d\<rparr>)"

definition set_flags :: "nat \<Rightarrow> int \<Rightarrow> storage \<Rightarrow> storage" where
  "set_flags b v = upd_buf b (\<lambda>x. x\<lparr>b_flags := v\<rparr>)"

lemma bufs_set [simp]:
  "bufs (set_data b d \<sigma>) = (bufs \<sigma>)(b := (bufs \<sigma> b)\<lparr>b_data := d\<rparr>)"
  "bufs (set_flags b v \<sigma>) = (bufs \<sigma>)(b := (bufs \<sigma> b)\<lparr>b_flags := v\<rparr>)"
  by (simp_all add: set_data_def set_flags_def)

lemma set_other [simp]:
  "sleeps (set_data i f \<sigma>) = sleeps \<sigma>" "memdisk (set_data i f \<sigma>) = memdisk \<sigma>" "disksize (set_data i f \<sigma>) = disksize \<sigma>"
  "wtrace (set_data i f \<sigma>) = wtrace \<sigma>" "jlog (set_data i f \<sigma>) = jlog \<sigma>" "sb (set_data i f \<sigma>) = sb \<sigma>"
  "icache (set_data i f \<sigma>) = icache \<sigma>" "files_t (set_data i f \<sigma>) = files_t \<sigma>" "pipes (set_data i f \<sigma>) = pipes \<sigma>"
  "sleeps (set_flags i v \<sigma>) = sleeps \<sigma>" "memdisk (set_flags i v \<sigma>) = memdisk \<sigma>" "disksize (set_flags i v \<sigma>) = disksize \<sigma>"
  "wtrace (set_flags i v \<sigma>) = wtrace \<sigma>" "jlog (set_flags i v \<sigma>) = jlog \<sigma>" "sb (set_flags i v \<sigma>) = sb \<sigma>"
  "icache (set_flags i v \<sigma>) = icache \<sigma>" "files_t (set_flags i v \<sigma>) = files_t \<sigma>" "pipes (set_flags i v \<sigma>) = pipes \<sigma>"
  by (simp_all add: set_data_def set_flags_def)

lemma bc_set:
  assumes "bc p H x" "b \<in> H" "f (bufs x b) = (bufs x b)\<lparr>b_data := d, b_flags := v\<rparr>" "length d = BSIZE" "v \<in> {2, 6}"
  shows "bc p H (upd_buf b f x)"
proof -
  let ?y = "upd_buf b f x"
  have "lru (bufs ?y) bs = lru (bufs x) bs" for bs by (rule lru_cong) (simp add: assms(3))
  moreover have "caches ?y i m = caches x i m" for i m by (simp add: caches_def assms(3))
  moreover have "buf_held p i ?y" if "i \<in> H" for i
    using bcD(5) [OF assms(1) that] assms(5) by (auto simp: buf_held_def has_sleep_def assms(3))
  moreover have "buf_rest i ?y" if "i < NBUF" "i \<notin> H" for i
    using bcD(6) [OF assms(1) that] that assms(2) by (auto simp: buf_rest_def assms(3))
  ultimately show ?thesis using assms(1,4) unfolding bc_def by (auto simp: assms(3))
qed

lemma bc_set_data:
  assumes "bc p H x" "b \<in> H" "length d = BSIZE"
  shows "bc p H (set_data b d x)"
  unfolding set_data_def
  using assms bcD(5) [OF assms(1,2)] by (intro bc_set [where d = d and v = "b_flags (bufs x b)"]) (auto simp: buf_held_def)

lemma bc_set_flags:
  assumes "bc p H x" "b \<in> H" "v \<in> {2, 6}"
  shows "bc p H (set_flags b v x)"
proof -
  have "b < NBUF" using bcD(1) [OF assms(1)] assms(2) by auto
  then show ?thesis
    unfolding set_flags_def using assms bcD(4) [OF assms(1)]
    by (intro bc_set [where d = "b_data (bufs x b)" and v = v]) auto
qed

lemma held_caches: "bc p H x \<Longrightarrow> b \<in> H \<Longrightarrow> caches x b (b_blockno (bufs x b))"
  using bcD(1,5) by (fastforce simp: buf_held_def caches_def)

lemma view_set_data:
  assumes "bc p H x" "b \<in> H" "length d = BSIZE"
  shows "view (set_data b d x) = (view x)(b_blockno (bufs x b) := d)"
proof
  fix m
  note bc = bc_set_data [OF assms]
  have c: "caches (set_data b d x) i m = caches x i m" for i by (simp add: caches_def)
  show "view (set_data b d x) m = ((view x)(b_blockno (bufs x b) := d)) m"
  proof (cases "\<exists>i. caches x i m")
    case True
    then obtain i where i: "caches x i m" by blast
    have "view (set_data b d x) m = b_data (bufs (set_data b d x) i)"
      using view_cached [OF bc, of i m] c i by blast
    moreover have "m = b_blockno (bufs x b) \<Longrightarrow> i = b" using bcD(7) [OF assms(1) i, of b] held_caches [OF assms(1,2)] by simp
    moreover have "i = b \<Longrightarrow> m = b_blockno (bufs x b)" using i by (simp add: caches_def)
    ultimately show ?thesis using view_cached [OF assms(1) i] by (cases "i = b") auto
  next
    case False
    have "m \<noteq> b_blockno (bufs x b)"
    proof
      assume "m = b_blockno (bufs x b)"
      then show False using held_caches [OF assms(1,2)] False by simp
    qed
    moreover have "view (set_data b d x) m = memdisk x m" using view_uncached [of "set_data b d x" m] False c by simp
    moreover have "view x m = memdisk x m" using view_uncached [of x m] False by blast
    ultimately show ?thesis by simp
  qed
qed

lemma view_set_flags [simp]: "view (set_flags b v x) = view x"
  by (rule view_cong) simp_all

text \<open>Writing a held buffer through to the disk.\<close>

definition written :: "nat \<Rightarrow> storage \<Rightarrow> storage" where
  "written b x = disk_write (b_blockno (bufs x b)) (b_data (bufs x b)) (set_flags b 2 x)"

theorem bwrite_mv:
  assumes "mv {} s x t" "bc p H x" "p = mypid s" "b \<in> H"
  shows "returns (bwrite b t) (mv {} s (written b x))"
proof -
  note h = bcD(5) [OF assms(2,4), unfolded buf_held_def]
  obtain u where u: "holdingsleep (Buf_lock b) t = Inr (True, u)" "mv {} s x u"
    using holdingsleep_mv [OF assms(1), of "Buf_lock b"] h assms(3) by (auto simp: returns_iff)
  let ?f = "upd_buf b (\<lambda>x. x\<lparr>b_flags := b_flags x OR B_DIRTY\<rparr>)"
  have "returns (iderw b (upd_sto ?f u)) (mv {} s (disk_write (b_blockno (bufs (?f x) b)) (b_data (bufs (?f x) b))
      (upd_buf b (\<lambda>y. y\<lparr>b_flags := 2\<rparr>) (?f x))))"
    using h assms(3) by (intro iderw_write [OF mv_upd [OF u(2)]]) (auto simp: has_sleep_def)
  then show ?thesis
    by (simp add: bwrite_def u(1) written_def set_flags_def upd_buf_twice)
qed

lemma written_ok:
  assumes "bc p H x" "b \<in> H"
  shows "bc p H (written b x)" "view (written b x) = view x" "dirtyb (written b x) = dirtyb x - {b}"
    "memdisk (written b x) = (memdisk x)(b_blockno (bufs x b) := b_data (bufs x b))"
    "wtrace (written b x) = wtrace x @ [(b_blockno (bufs x b), b_data (bufs x b))]"
proof -
  let ?y = "written b x" and ?n = "b_blockno (bufs x b)"
  have b: "b < NBUF" using bcD(1) [OF assms(1)] assms(2) by auto
  have y: "bufs ?y = (bufs x)(b := (bufs x b)\<lparr>b_flags := 2\<rparr>)" "sleeps ?y = sleeps x" "disksize ?y = disksize x"
    "memdisk ?y = (memdisk x)(?n := b_data (bufs x b))"
    by (simp_all add: written_def disk_write_def)
  then show "memdisk ?y = (memdisk x)(?n := b_data (bufs x b))"
    "wtrace ?y = wtrace x @ [(?n, b_data (bufs x b))]" by (simp_all add: written_def disk_write_def)
  have c: "caches ?y i m = caches x i m" for i m by (simp add: caches_def y)
  have "lru (bufs ?y) bs = lru (bufs x) bs" for bs by (rule lru_cong) (simp add: y)
  moreover have "buf_held p i ?y" if "i \<in> H" for i
    using bcD(5) [OF assms(1) that] by (auto simp: buf_held_def has_sleep_def y)
  moreover have "buf_rest i ?y" if i: "i < NBUF" "i \<notin> H" for i
  proof -
    have "b_dev (bufs x i) = 1 \<Longrightarrow> b_blockno (bufs x i) \<noteq> ?n"
      using bcD(7) [OF assms(1) held_caches [OF assms], of i] i assms(2) by (auto simp: caches_def)
    then show ?thesis using bcD(6) [OF assms(1) i] i assms(2) by (auto simp: buf_rest_def y)
  qed
  ultimately show bc: "bc p H ?y" using assms(1) b unfolding bc_def c by (auto simp: y)
  show "view ?y = view x"
  proof
    fix m
    show "view ?y m = view x m"
    proof (cases "\<exists>i. caches x i m")
      case True
      then obtain i where i: "caches x i m" by blast
      then show ?thesis using view_cached [OF bc, of i m] view_cached [OF assms(1) i] c by (simp add: y)
    next
      case False
      then have "m \<noteq> ?n" using held_caches [OF assms] by auto
      then show ?thesis using view_uncached [of ?y m] view_uncached [of x m] False c by (simp add: y)
    qed
  qed
  show "dirtyb ?y = dirtyb x - {b}" by (auto simp: dirtyb_def y)
qed

lemma relink_other [simp]:
  "sleeps (relink b \<sigma>) = sleeps \<sigma>" "memdisk (relink b \<sigma>) = memdisk \<sigma>" "disksize (relink b \<sigma>) = disksize \<sigma>"
  "wtrace (relink b \<sigma>) = wtrace \<sigma>" "jlog (relink b \<sigma>) = jlog \<sigma>" "sb (relink b \<sigma>) = sb \<sigma>"
  "icache (relink b \<sigma>) = icache \<sigma>" "files_t (relink b \<sigma>) = files_t \<sigma>" "pipes (relink b \<sigma>) = pipes \<sigma>"
  by (simp_all add: relink_def link_buf_def Let_def)

text \<open>Giving a buffer back.\<close>

definition released :: "nat \<Rightarrow> storage \<Rightarrow> storage" where
  "released b x = relink b (upd_buf b (\<lambda>y. y\<lparr>b_refcnt := 0\<rparr>) (unlock_sleep (Buf_lock b) x))"

theorem brelse_mv:
  assumes "mv {} s x t" "bc p H x" "p = mypid s" "b \<in> H"
  shows "returns (brelse b t) (mv {} s (released b x))"
proof -
  note h = bcD(5) [OF assms(2,4), unfolded buf_held_def]
  obtain u where u: "holdingsleep (Buf_lock b) t = Inr (True, u)" "mv {} s x u"
    using holdingsleep_mv [OF assms(1), of "Buf_lock b"] h assms(3) by (auto simp: returns_iff)
  obtain v where v: "releasesleep (Buf_lock b) u = Inr v" "mv {} s (unlock_sleep (Buf_lock b) x) v"
    using releasesleep_mv [OF u(2), of "Buf_lock b"] by (auto simp: returns_iff)
  obtain w where w: "acquire Bcache_lock v = Inr w" "mv {Bcache_lock} s (unlock_sleep (Buf_lock b) x) w"
    using acquire_mv [OF v(2), of Bcache_lock] by (auto simp: returns_iff)
  let ?f = "upd_buf b (\<lambda>x. x\<lparr>b_refcnt := u32 (int (b_refcnt x) - 1)\<rparr>)"
  have f: "?f (unlock_sleep (Buf_lock b) x) = upd_buf b (\<lambda>y. y\<lparr>b_refcnt := 0\<rparr>) (unlock_sleep (Buf_lock b) x)"
    using h by (simp add: upd_buf_def)
  have "returns (release Bcache_lock (upd_sto (relink b) (upd_sto ?f w))) (mv {} s (released b x))"
    using release_mv [OF mv_upd [OF mv_upd [OF w(2), of ?f], of "relink b"], of Bcache_lock "{}"]
    by (simp add: released_def f)
  moreover have "b_refcnt (bufs (sto (upd_sto ?f w)) b) = 0"
    using mv_facts(4) [OF w(2)] h by simp
  ultimately show ?thesis by (simp add: brelse_def u(1) v(1) w(1) Let_def)
qed

lemma released_ok:
  assumes "bc p H x" "b \<in> H" "b \<in> dirtyb x \<or> b_data (bufs x b) = memdisk x (b_blockno (bufs x b))"
  shows "bc p (H - {b}) (released b x)" "same_view x (released b x)" "dirtyb (released b x) = dirtyb x"
    "i \<noteq> b \<Longrightarrow> core (bufs (released b x) i) = core (bufs x i)"
    "b_data (bufs (released b x) i) = b_data (bufs x i)" "b_blockno (bufs (released b x) i) = b_blockno (bufs x i)"
    "caches (released b x) i n = caches x i n"
proof -
  let ?y = "released b x" and ?z = "upd_buf b (\<lambda>y. y\<lparr>b_refcnt := 0\<rparr>) (unlock_sleep (Buf_lock b) x)"
  have b: "b < NBUF" using bcD(1) [OF assms(1)] assms(2) by auto
  have z: "bufs ?z = (bufs x)(b := (bufs x b)\<lparr>b_refcnt := 0\<rparr>)" by simp
  have y: "memdisk ?y = memdisk x" "disksize ?y = disksize x" "wtrace ?y = wtrace x" "jlog ?y = jlog x" "sb ?y = sb x"
    "icache ?y = icache x" "files_t ?y = files_t x" "pipes ?y = pipes x"
    "sleeps ?y = (sleeps x)(Buf_lock b := (sleeps x (Buf_lock b))\<lparr>sl_locked := 0, sl_pid := 0\<rparr>)"
    by (simp_all add: released_def)
  have c: "core (bufs ?y i) = core (bufs ?z i)" for i by (simp add: released_def)
  note f = core_eqs [OF c]
  have g: "b_flags (bufs ?y i) = b_flags (bufs x i)" "b_dev (bufs ?y i) = b_dev (bufs x i)"
    "b_blockno (bufs ?y i) = b_blockno (bufs x i)" "b_data (bufs ?y i) = b_data (bufs x i)"
    "b_refcnt (bufs ?y i) = (if i = b then 0 else b_refcnt (bufs x i))" for i
    using f [of i] by (simp_all add: z)
  show "i \<noteq> b \<Longrightarrow> core (bufs ?y i) = core (bufs x i)" using c [of i] by (simp add: z)
  show "b_data (bufs ?y i) = b_data (bufs x i)" "b_blockno (bufs ?y i) = b_blockno (bufs x i)" by (fact g)+
  have ca: "caches ?y i m = caches x i m" for i m by (simp add: caches_def g)
  then show "caches ?y i n = caches x i n" .
  obtain bs where bs: "lru (bufs x) bs" using bcD(2) [OF assms(1)] by blast
  then have "lru (bufs ?z) bs" by (subst lru_cong) (simp_all add: z)
  moreover have "b \<in> set bs" using bs b by (simp add: lru_def)
  ultimately have "lru (bufs ?y) (b # remove1 b bs)" unfolding released_def by (rule lru_relink)
  moreover have "buf_rest b ?y"
    using bcD(5) [OF assms(1,2)] assms(3) b by (auto simp: buf_rest_def buf_held_def g y dirtyb_def)
  moreover have "buf_held p i ?y" if "i \<in> H - {b}" for i
    using bcD(5) [OF assms(1), of i] that by (auto simp: buf_held_def has_sleep_def y g)
  moreover have "buf_rest i ?y" if "i < NBUF" "i \<notin> H" for i
    using bcD(6) [OF assms(1) that] that assms(2) by (auto simp: buf_rest_def y g)
  ultimately show bc: "bc p (H - {b}) ?y" using assms(1) b unfolding bc_def ca by (auto simp: y g)
  have "view ?y = view x" by (rule view_cong) (simp_all add: g y)
  then show "same_view x ?y" by (simp add: same_view_def fs_same_def y)
  show "dirtyb ?y = dirtyb x" by (auto simp: dirtyb_def g)
qed

section \<open>Dirty blocks\<close>

lemma dirty_dev: "bc p H x \<Longrightarrow> i \<in> dirtyb x \<Longrightarrow> caches x i (b_blockno (bufs x i))"
  using bcD(5,6) by (fastforce simp: dirtyb_def buf_held_def buf_rest_def caches_def)

lemma dblocks_iff: "bc p H x \<Longrightarrow> n \<in> dblocks x \<longleftrightarrow> (\<exists>i. i \<in> dirtyb x \<and> caches x i n)"
  using dirty_dev by (auto simp: dblocks_def) (auto simp: caches_def)

lemma dblocks_at:
  assumes "bc p H x" "caches x i n"
  shows "n \<in> dblocks x \<longleftrightarrow> i \<in> dirtyb x"
  using dblocks_iff [OF assms(1)] bcD(7) [OF assms(1)] assms(2) by blast

lemma finite_dirtyb [simp]: "finite (dirtyb x)"
  by (simp add: dirtyb_def)

lemma card_dblocks:
  assumes "bc p H x"
  shows "card (dblocks x) = card (dirtyb x)"
  unfolding dblocks_def
proof (rule card_image, rule inj_onI)
  fix i j assume "i \<in> dirtyb x" "j \<in> dirtyb x" "b_blockno (bufs x i) = b_blockno (bufs x j)"
  then show "i = j" using dirty_dev [OF assms, of i] dirty_dev [OF assms, of j] bcD(7) [OF assms] by simp
qed

lemma clean_view:
  assumes "bc p H x" "n \<notin> dblocks x" "\<forall>h \<in> H. b_blockno (bufs x h) \<noteq> n"
  shows "view x n = memdisk x n"
proof (cases "\<exists>i. caches x i n")
  case True
  then obtain i where i: "caches x i n" by blast
  then have "i \<notin> H" using assms(3) by (auto simp: caches_def)
  then have "buf_rest i x" using bcD(6) [OF assms(1)] i by (simp add: caches_def)
  moreover have "i \<notin> dirtyb x" using dblocks_at [OF assms(1) i] assms(2) by simp
  ultimately have "b_data (bufs x i) = memdisk x n"
    using i by (auto simp: buf_rest_def dirtyb_def caches_def)
  then show ?thesis using view_cached [OF assms(1) i] by simp
qed (use view_uncached [of x n] in auto)

lemma can_readI:
  assumes "n < disksize x" "\<forall>h \<in> H. b_blockno (bufs x h) \<noteq> n" "finite H" "card H + card (dirtyb x) < NBUF"
  shows "can_read H x n"
proof -
  have "card (H \<union> dirtyb x) < card {..<NBUF}"
    using assms(4) card_Un_le [of H "dirtyb x"] by simp
  then have "\<not> {..<NBUF} \<subseteq> H \<union> dirtyb x" using card_mono [of "H \<union> dirtyb x" "{..<NBUF}"] assms(3) by auto
  then show ?thesis using assms(1,2) by (auto simp: can_read_def)
qed

lemma can_read_dirty:
  assumes "bc p H x" "n < disksize x" "\<forall>h \<in> H. b_blockno (bufs x h) \<noteq> n" "n \<in> dblocks x"
  shows "can_read H x n"
  using assms dblocks_iff [OF assms(1)] by (auto simp: can_read_def)

lemma gotD:
  assumes "got p H x n b y"
  shows "b \<notin> H" "bc p (insert b H) y" "caches y b n" "b_data (bufs y b) = view x n" "same_view x y"
    "dirtyb y = dirtyb x" "dblocks y = dblocks x" "h \<in> H \<Longrightarrow> core (bufs y h) = core (bufs x h)" "b_blockno (bufs y b) = n"
  using assms by (simp_all add: got_def caches_def)

text \<open>A held buffer that was only read can be given back.\<close>

lemma got_clean:
  assumes "got p H x n b y" "bc p H x" "\<forall>h \<in> H. b_blockno (bufs x h) \<noteq> n"
  shows "b \<in> dirtyb y \<or> b_data (bufs y b) = memdisk y n"
proof (cases "n \<in> dblocks x")
  case True
  then show ?thesis using dblocks_at [OF gotD(2,3) [OF assms(1)]] gotD(7) [OF assms(1)] by simp
next
  case False
  then show ?thesis using clean_view [OF assms(2) False assms(3)] gotD(4) [OF assms(1)] same_viewD(2) [OF gotD(5) [OF assms(1)]]
    by simp
qed

lemma dblocks_released:
  assumes "bc p H x" "b \<in> H" "b \<in> dirtyb x \<or> b_data (bufs x b) = memdisk x (b_blockno (bufs x b))"
  shows "dblocks (released b x) = dblocks x"
  using released_ok(3,6) [OF assms] by (simp add: dblocks_def)

lemma dblocks_written:
  assumes "bc p H x" "b \<in> H"
  shows "dblocks (written b x) = dblocks x - {b_blockno (bufs x b)}"
proof -
  have "b_blockno (bufs (written b x) i) = b_blockno (bufs x i)" for i by (simp add: written_def disk_write_def)
  moreover have "inj_on (\<lambda>i. b_blockno (bufs x i)) (insert b (dirtyb x))"
  proof (rule inj_onI)
    fix i j assume "i \<in> insert b (dirtyb x)" "j \<in> insert b (dirtyb x)" "b_blockno (bufs x i) = b_blockno (bufs x j)"
    then show "i = j"
      using dirty_dev [OF assms(1)] held_caches [OF assms] bcD(7) [OF assms(1)] by (metis insertE)
  qed
  ultimately show ?thesis
    unfolding dblocks_def written_ok(3) [OF assms] by (auto simp: inj_on_def)
qed

lemma fs_same_written [simp]: "fs_same x (written b x)"
  by (simp add: fs_same_def written_def disk_write_def)

lemma fs_same_set [simp]: "fs_same x (set_data b d x)" "fs_same x (set_flags b v x)"
  by (simp_all add: fs_same_def)

lemma dirty_set_data [simp]: "dirtyb (set_data b d x) = dirtyb x" "dblocks (set_data b d x) = dblocks x"
  by (auto simp: dirtyb_def dblocks_def)

end
