(* ===== verification/Bytes.thy ===== *)
theory Bytes
  imports Prelude
begin

text \<open>
  Fields inside a block of bytes: \<open>slice d i k\<close> are the \<open>k\<close> bytes from offset \<open>i\<close> on, \<open>splice d i bs\<close>
  is the block with \<open>bs\<close> copied to offset \<open>i\<close> (a memmove into it). Integers are stored with the
  low byte first.
\<close>

section \<open>Definitions\<close>

definition slice :: "'a list \<Rightarrow> nat \<Rightarrow> nat \<Rightarrow> 'a list" where
  "slice d i k = take k (drop i d)"

definition splice :: "'a list \<Rightarrow> nat \<Rightarrow> 'a list \<Rightarrow> 'a list" where
  "splice d i bs = take i d @ bs @ drop (i + length bs) d"

fun le_nat :: "char list \<Rightarrow> nat" where
  "le_nat [] = 0"
| "le_nat (c # cs) = of_char c + 256 * le_nat cs"

fun le_bytes :: "nat \<Rightarrow> nat \<Rightarrow> char list" where
  "le_bytes 0 v = []"
| "le_bytes (Suc k) v = char_of (v mod 256) # le_bytes k (v div 256)"

definition get16 :: "char list \<Rightarrow> nat \<Rightarrow> nat" where "get16 d i = le_nat (slice d i 2)"
definition get32 :: "char list \<Rightarrow> nat \<Rightarrow> nat" where "get32 d i = le_nat (slice d i 4)"
definition put16 :: "char list \<Rightarrow> nat \<Rightarrow> nat \<Rightarrow> char list" where "put16 d i v = splice d i (le_bytes 2 v)"
definition put32 :: "char list \<Rightarrow> nat \<Rightarrow> nat \<Rightarrow> char list" where "put32 d i v = splice d i (le_bytes 4 v)"

definition i16 :: "nat \<Rightarrow> int" where
  "i16 n = (if n < 2 ^ 15 then int n else int n - 2 ^ 16)"

definition u16 :: "int \<Rightarrow> nat" where
  "u16 i = nat (i mod 2 ^ 16)"

section \<open>Slices\<close>

lemma length_slice [simp]: "i + k \<le> length d \<Longrightarrow> length (slice d i k) = k"
  by (simp add: slice_def)

lemma length_splice [simp]: "i + length bs \<le> length d \<Longrightarrow> length (splice d i bs) = length d"
  by (simp add: splice_def)

lemma nth_splice:
  "i + length bs \<le> length d \<Longrightarrow> j < length d \<Longrightarrow>
   splice d i bs ! j = (if i \<le> j \<and> j < i + length bs then bs ! (j - i) else d ! j)"
  by (auto simp: splice_def nth_append not_less min_def)

lemma slice_splice [simp]: "i + length bs \<le> length d \<Longrightarrow> k = length bs \<Longrightarrow> slice (splice d i bs) i k = bs"
  by (simp add: slice_def splice_def)

lemma slice_splice_other [simp]:
  assumes "i + length bs \<le> length d" "j + k \<le> i \<or> i + length bs \<le> j" "j + k \<le> length d"
  shows "slice (splice d i bs) j k = slice d j k"
proof (rule nth_equalityI)
  show "length (slice (splice d i bs) j k) = length (slice d j k)" using assms by simp
  fix m assume "m < length (slice (splice d i bs) j k)"
  then have m: "m < k" using assms by simp
  then have "slice (splice d i bs) j k ! m = splice d i bs ! (j + m)" using assms by (simp add: slice_def)
  also have "\<dots> = d ! (j + m)" using assms m by (auto simp: nth_splice)
  also have "\<dots> = slice d j k ! m" using assms m by (simp add: slice_def)
  finally show "slice (splice d i bs) j k ! m = slice d j k ! m" .
qed

lemma splice_slice [simp]: "i + k \<le> length d \<Longrightarrow> splice d i (slice d i k) = d"
  by (simp add: splice_def slice_def)
     (metis add.commute append_take_drop_id drop_drop)

lemma splice_whole [simp]: "length bs = length d \<Longrightarrow> splice d 0 bs = bs"
  by (simp add: splice_def)

lemma slice_whole [simp]: "k = length d \<Longrightarrow> slice d 0 k = d"
  by (simp add: slice_def)

section \<open>Integers\<close>

lemma length_le_bytes [simp]: "length (le_bytes k v) = k"
  by (induction k arbitrary: v) auto

lemma le_nat_bytes: "le_nat (le_bytes k v) = v mod 256 ^ k"
  by (induction k arbitrary: v) (simp_all add: mod_mult2_eq)

lemma le_nat_bound: "le_nat bs < 256 ^ length bs"
proof (induction bs)
  case (Cons c cs)
  obtain a :: nat where a: "a = of_char c" "a < 256" by simp
  define P :: nat where "P = 256 ^ length cs"
  have "le_nat cs < P" using Cons by (simp add: P_def)
  with a(2) have "a + 256 * le_nat cs < 256 * P" by linarith
  then show ?case using a(1) by (simp add: P_def)
qed simp

lemma le_bytes_nat: "le_bytes (length bs) (le_nat bs) = bs"
  by (induction bs) simp_all

lemma le_bytes_mod [simp]: "le_bytes k (v mod 256 ^ k) = le_bytes k v"
  by (metis le_bytes_nat le_nat_bytes length_le_bytes)

lemma get32_put32 [simp]: "i + 4 \<le> length d \<Longrightarrow> v < 2 ^ 32 \<Longrightarrow> get32 (put32 d i v) i = v"
  by (simp add: get32_def put32_def le_nat_bytes)

lemma get32_put32_other [simp]:
  "i + 4 \<le> length d \<Longrightarrow> j + 4 \<le> length d \<Longrightarrow> j + 4 \<le> i \<or> i + 4 \<le> j \<Longrightarrow> get32 (put32 d i v) j = get32 d j"
  by (simp add: get32_def put32_def)

lemma length_put32 [simp]: "i + 4 \<le> length d \<Longrightarrow> length (put32 d i v) = length d"
  and length_put16 [simp]: "i + 2 \<le> length d \<Longrightarrow> length (put16 d i v) = length d"
  by (simp_all add: put32_def put16_def)

lemma get32_bound [simp]: "i + 4 \<le> length d \<Longrightarrow> get32 d i < 4294967296"
  using le_nat_bound [of "slice d i 4"] by (simp add: get32_def)

lemma get16_bound [simp]: "i + 2 \<le> length d \<Longrightarrow> get16 d i < 65536"
  using le_nat_bound [of "slice d i 2"] by (simp add: get16_def power2_eq_square)

lemma get16_put16 [simp]: "i + 2 \<le> length d \<Longrightarrow> v < 2 ^ 16 \<Longrightarrow> get16 (put16 d i v) i = v"
  by (simp add: get16_def put16_def le_nat_bytes power2_eq_square)

lemma u16_i16 [simp]: "n < 65536 \<Longrightarrow> u16 (i16 n) = n"
  by (auto simp: u16_def i16_def)

lemma i16_u16 [simp]: "- 32768 \<le> i \<Longrightarrow> i < 32768 \<Longrightarrow> i16 (u16 i) = i"
proof -
  assume a: "- 32768 \<le> i" "i < 32768"
  show ?thesis
  proof (cases "0 \<le> i")
    case True
    then show ?thesis using a by (simp add: u16_def i16_def)
  next
    case False
    have "i mod 65536 = (i + 65536) mod 65536" by simp
    also have "\<dots> = i + 65536" using a False by (intro mod_pos_pos_trivial) auto
    finally have "i mod 65536 = i + 65536" .
    then show ?thesis using a False by (simp add: u16_def i16_def)
  qed
qed

lemma i32_u32 [simp]: "- 2147483648 \<le> i \<Longrightarrow> i < 2147483648 \<Longrightarrow> i32 (u32 i) = i"
proof -
  assume a: "- 2147483648 \<le> i" "i < 2147483648"
  show ?thesis
  proof (cases "0 \<le> i")
    case True
    then show ?thesis using a by (simp add: i32_def)
  next
    case False
    have "i mod 4294967296 = (i + 4294967296) mod 4294967296" by simp
    also have "\<dots> = i + 4294967296" using a False by (intro mod_pos_pos_trivial) auto
    finally have "i mod 4294967296 = i + 4294967296" .
    then show ?thesis using a False by (simp add: u32_def i32_def)
  qed
qed

end
