(* ===== verification/Log.thy ===== *)
theory Log
  imports Bio Bytes
begin

text \<open>
  The write-ahead log (log.c). The in-memory header and the counters are the record \<open>jlog\<close>; the header
  block on disk holds the count in its first four bytes and the block numbers after it. A
  process that has to wait for the log is \<open>Asleep\<close>; an index outside \<open>block[LOGSIZE]\<close> is \<open>Undef\<close>.
  readsb (fs.c) is here because initlog calls it.
\<close>

section \<open>Definitions\<close>

definition upd_log :: "(logst \<Rightarrow> logst) \<Rightarrow> storage \<Rightarrow> storage" where
  "upd_log f \<sigma> = \<sigma>\<lparr>jlog := f (jlog \<sigma>)\<rparr>"

definition sb_of :: "char list \<Rightarrow> superblock" where
  "sb_of d = \<lparr>sb_size = get32 d 0, sb_nblocks = get32 d 4, sb_ninodes = get32 d 8, sb_nlog = get32 d 12,
     sb_logstart = get32 d 16, sb_inodestart = get32 d 20, sb_bmapstart = get32 d 24\<rparr>"

definition readsb :: "nat \<Rightarrow> 'a kst_scheme \<Rightarrow> (superblock \<times> 'a kst_scheme) res" where
  "readsb dev s =
     bindr (bread dev 1 s) (\<lambda>(bp, s).
       let r = sb_of (b_data (bufs (sto s) bp))
       in bindr (brelse bp s) (\<lambda>s. Inr (r, s)))"

definition lh_at :: "int list \<Rightarrow> nat \<Rightarrow> int res" where
  "lh_at bl i = (if i < LOGSIZE then Inr (bl ! i) else Inl (Undef ''log.lh.block''))"

definition install_one :: "nat \<Rightarrow> 'a kst_scheme \<Rightarrow> 'a kst_scheme res" where
  "install_one tail s =
     (let l = jlog (sto s)
      in bindr (bread (u32 (lg_dev l)) (u32 (lg_start l + int tail + 1)) s) (\<lambda>(lbuf, s).
         bindr (lh_at (lh_block l) tail) (\<lambda>n.
         bindr (bread (u32 (lg_dev l)) (u32 n) s) (\<lambda>(dbuf, s).
           let s = upd_sto (set_data dbuf (b_data (bufs (sto s) lbuf))) s
           in bindr (bwrite dbuf s) (\<lambda>s.
              bindr (brelse lbuf s) (\<lambda>s. brelse dbuf s))))))"

definition install_trans :: "'a kst_scheme \<Rightarrow> 'a kst_scheme res" where
  "install_trans s = for_each [0..<nat (lh_n (jlog (sto s)))] install_one s"

definition read_head :: "'a kst_scheme \<Rightarrow> 'a kst_scheme res" where
  "read_head s =
     bindr (bread (u32 (lg_dev (jlog (sto s)))) (u32 (lg_start (jlog (sto s)))) s) (\<lambda>(b, s).
       let d = b_data (bufs (sto s) b);
           s = upd_sto (upd_log (\<lambda>l. l\<lparr>lh_n := i32 (get32 d 0)\<rparr>)) s
       in bindr (for_each [0..<nat (lh_n (jlog (sto s)))] (\<lambda>i s.
            if i < LOGSIZE
            then Inr (upd_sto (upd_log (\<lambda>l. l\<lparr>lh_block := (lh_block l)[i := i32 (get32 d (4 + 4 * i))]\<rparr>)) s)
            else Inl (Undef ''log.lh.block'')) s) (\<lambda>s.
          brelse b s))"

definition write_head :: "'a kst_scheme \<Rightarrow> 'a kst_scheme res" where
  "write_head s =
     bindr (bread (u32 (lg_dev (jlog (sto s)))) (u32 (lg_start (jlog (sto s)))) s) (\<lambda>(b, s).
       let l = jlog (sto s);
           s = upd_sto (\<lambda>\<sigma>. set_data b (put32 (b_data (bufs \<sigma> b)) 0 (u32 (lh_n l))) \<sigma>) s
       in bindr (for_each [0..<nat (lh_n l)] (\<lambda>i s.
            bindr (lh_at (lh_block l) i) (\<lambda>n.
              Inr (upd_sto (\<lambda>\<sigma>. set_data b (put32 (b_data (bufs \<sigma> b)) (4 + 4 * i) (u32 n)) \<sigma>) s))) s) (\<lambda>s.
          bindr (bwrite b s) (\<lambda>s. brelse b s)))"

definition recover_from_log :: "'a kst_scheme \<Rightarrow> 'a kst_scheme res" where
  "recover_from_log s =
     bindr (read_head s) (\<lambda>s.
     bindr (install_trans s) (\<lambda>s.
       write_head (upd_sto (upd_log (\<lambda>l. l\<lparr>lh_n := 0\<rparr>)) s)))"

definition initlog :: "nat \<Rightarrow> 'a kst_scheme \<Rightarrow> 'a kst_scheme res" where
  "initlog dev s =
     (if 4 + 4 * LOGSIZE \<ge> BSIZE then Inl (Panic ''initlog: too big logheader'')
      else
        let s = initlock Log_lock ''log'' s
        in bindr (readsb dev s) (\<lambda>(sup, s).
           recover_from_log (upd_sto (upd_log (\<lambda>l. l\<lparr>lg_start := i32 (sb_logstart sup), lg_size := i32 (sb_nlog sup),
             lg_dev := i32 dev\<rparr>)) s)))"

definition begin_op :: "'a kst_scheme \<Rightarrow> 'a kst_scheme res" where
  "begin_op s =
     bindr (acquire Log_lock s) (\<lambda>s.
       let l = jlog (sto s)
       in if lg_committing l then Inl Asleep
          else if lh_n l + (lg_outstanding l + 1) * int MAXOPBLOCKS > int LOGSIZE then Inl Asleep
          else release Log_lock (upd_sto (upd_log (\<lambda>l. l\<lparr>lg_outstanding := lg_outstanding l + 1\<rparr>)) s))"

definition write_log_one :: "nat \<Rightarrow> 'a kst_scheme \<Rightarrow> 'a kst_scheme res" where
  "write_log_one tail s =
     (let l = jlog (sto s)
      in bindr (bread (u32 (lg_dev l)) (u32 (lg_start l + int tail + 1)) s) (\<lambda>(tob, s).
         bindr (lh_at (lh_block l) tail) (\<lambda>n.
         bindr (bread (u32 (lg_dev l)) (u32 n) s) (\<lambda>(fromb, s).
           let s = upd_sto (set_data tob (b_data (bufs (sto s) fromb))) s
           in bindr (bwrite tob s) (\<lambda>s.
              bindr (brelse fromb s) (\<lambda>s. brelse tob s))))))"

definition write_log :: "'a kst_scheme \<Rightarrow> 'a kst_scheme res" where
  "write_log s = for_each [0..<nat (lh_n (jlog (sto s)))] write_log_one s"

definition commit :: "'a kst_scheme \<Rightarrow> 'a kst_scheme res" where
  "commit s =
     (if lh_n (jlog (sto s)) > 0 then
        bindr (write_log s) (\<lambda>s.
        bindr (write_head s) (\<lambda>s.
        bindr (install_trans s) (\<lambda>s.
          write_head (upd_sto (upd_log (\<lambda>l. l\<lparr>lh_n := 0\<rparr>)) s))))
      else Inr s)"

definition end_op :: "'a kst_scheme \<Rightarrow> 'a kst_scheme res" where
  "end_op s =
     bindr (acquire Log_lock s) (\<lambda>s.
       let s = upd_sto (upd_log (\<lambda>l. l\<lparr>lg_outstanding := lg_outstanding l - 1\<rparr>)) s
       in if lg_committing (jlog (sto s)) then Inl (Panic ''log.committing'')
          else
            let do_commit = (lg_outstanding (jlog (sto s)) = 0)
            in bindr (if do_commit then Inr (upd_sto (upd_log (\<lambda>l. l\<lparr>lg_committing := True\<rparr>)) s)
                      else wakeup Chan_log s) (\<lambda>s.
               bindr (release Log_lock s) (\<lambda>s.
                 if do_commit then
                   bindr (commit s) (\<lambda>s.
                   bindr (acquire Log_lock s) (\<lambda>s.
                   bindr (wakeup Chan_log (upd_sto (upd_log (\<lambda>l. l\<lparr>lg_committing := False\<rparr>)) s)) (\<lambda>s.
                     release Log_lock s)))
                 else Inr s)))"

definition log_write :: "nat \<Rightarrow> 'a kst_scheme \<Rightarrow> 'a kst_scheme res" where
  "log_write b s =
     (let l = jlog (sto s)
      in if lh_n l \<ge> int LOGSIZE \<or> lh_n l \<ge> lg_size l - 1 then Inl (Panic ''too big a transaction'')
         else if lg_outstanding l < 1 then Inl (Panic ''log_write outside of trans'')
         else
           bindr (acquire Log_lock s) (\<lambda>s.
             let l = jlog (sto s); n = b_blockno (bufs (sto s) b);
                 i = (case find (\<lambda>i. u32 (lh_block l ! i) = n) [0..<nat (lh_n l)] of Some i \<Rightarrow> i | None \<Rightarrow> nat (lh_n l));
                 s = upd_sto (upd_log (\<lambda>l. l\<lparr>lh_block := (lh_block l)[i := i32 n]\<rparr>)) s;
                 s = (if int i = lh_n l then upd_sto (upd_log (\<lambda>l. l\<lparr>lh_n := lh_n l + 1\<rparr>)) s else s);
                 s = upd_sto (upd_buf b (\<lambda>x. x\<lparr>b_flags := b_flags x OR B_DIRTY\<rparr>)) s
             in release Log_lock s))"

declare One_nat_def [simp del]

section \<open>Loops over an index\<close>

lemma for_upto_rule:
  assumes "I 0 s" "\<And>i s. i < n \<Longrightarrow> I i s \<Longrightarrow> returns (f i s) (I (Suc i))"
  shows "returns (for_each [0..<n] f s) (I n)"
proof -
  have "returns (for_each [0..<n] f s) (I (length [0..<n]))"
  proof (rule for_each_rule [where I = "\<lambda>ys. I (length ys)"])
    fix ys y zs s assume a: "[0..<n] = ys @ y # zs" "I (length ys) s"
    have l: "length ys < n" using arg_cong [OF a(1), of length] by simp
    have "y = [0..<n] ! length ys" unfolding a(1) by simp
    then have "y = length ys" "y < n" using l by simp_all
    then show "returns (f y s) (I (length (ys @ [y])))" using assms(2) a(2) by simp
  qed (use assms(1) in simp)
  then show ?thesis by simp
qed

section \<open>Copying one block to another\<close>

text \<open>\<open>wrote n d x y\<close>: between \<open>x\<close> and \<open>y\<close>, no buffer held in either, block \<open>n\<close> was written to the disk with contents \<open>d\<close>.\<close>

definition wrote :: "int \<Rightarrow> nat \<Rightarrow> char list \<Rightarrow> storage \<Rightarrow> storage \<Rightarrow> bool" where
  "wrote p n d x y \<longleftrightarrow> bc p {} y \<and> view y = (view x)(n := d) \<and> memdisk y = (memdisk x)(n := d) \<and>
     wtrace y = wtrace x @ [(n, d)] \<and> dblocks y = dblocks x - {n} \<and> fs_same x y"

lemma wroteD:
  assumes "wrote p n d x y"
  shows "bc p {} y" "view y = (view x)(n := d)" "memdisk y = (memdisk x)(n := d)" "wtrace y = wtrace x @ [(n, d)]"
    "dblocks y = dblocks x - {n}" "fs_same x y" "jlog y = jlog x" "disksize y = disksize x"
  using assms by (simp_all add: wrote_def fs_same_def)

lemma copy_tail:
  assumes "mv {} s y t" "bc p {bt, bs} y" "p = mypid s" "bt \<noteq> bs"
    "bs \<in> dirtyb y \<or> b_data (bufs y bs) = memdisk y (b_blockno (bufs y bs))"
  shows "returns (bindr (bwrite bt (upd_sto (set_data bt (b_data (bufs y bs))) t)) (\<lambda>s. bindr (brelse bs s) (\<lambda>s. brelse bt s)))
    (\<lambda>u. \<exists>z. mv {} s z u \<and> wrote p (b_blockno (bufs y bt)) (b_data (bufs y bs)) y z)"
proof -
  let ?d = "b_data (bufs y bs)" and ?n = "b_blockno (bufs y bt)"
  have b: "bs < NBUF" "bt < NBUF" using bcD(1) [OF assms(2)] by auto
  have ld: "length ?d = BSIZE" using bcD(4) [OF assms(2) b(1)] .
  let ?x1 = "set_data bt ?d y"
  have bc1: "bc p {bt, bs} ?x1" using assms(2) ld by (intro bc_set_data) auto
  let ?x2 = "written bt ?x1"
  obtain u where u: "bwrite bt (upd_sto (set_data bt ?d) t) = Inr u" "mv {} s ?x2 u"
    using bwrite_mv [OF mv_upd [OF assms(1), of "set_data bt ?d"] bc1 assms(3), of bt] by (auto simp: returns_iff)
  have h1: "bt \<in> {bt, bs}" "bs \<in> {bt, bs}" by simp_all
  note w = written_ok [OF bc1 h1(1)]
  have n: "?n \<noteq> b_blockno (bufs y bs)"
    using bcD(7) [OF assms(2) held_caches [OF assms(2) h1(1)], of bs] held_caches [OF assms(2) h1(2)] assms(4) by auto
  have f2: "b_data (bufs ?x2 bs) = ?d" "b_blockno (bufs ?x2 bs) = b_blockno (bufs y bs)" "b_data (bufs ?x2 bt) = ?d"
    "b_blockno (bufs ?x2 bt) = ?n"
    using assms(4) by (simp_all add: written_def disk_write_def)
  have c2: "bs \<in> dirtyb ?x2 \<or> b_data (bufs ?x2 bs) = memdisk ?x2 (b_blockno (bufs ?x2 bs))"
    using assms(4,5) n w(3,4) f2 by auto
  obtain v where v: "brelse bs u = Inr v" "mv {} s (released bs ?x2) v"
    using brelse_mv [OF u(2) w(1) assms(3), of bs] by (auto simp: returns_iff)
  note r = released_ok [OF w(1) h1(2) c2]
  have hs: "{bt, bs} - {bs} = {bt}" using assms(4) by auto
  have bc3: "bc p {bt} (released bs ?x2)" using r(1) unfolding hs .
  have f3: "b_data (bufs (released bs ?x2) bt) = ?d" "b_blockno (bufs (released bs ?x2) bt) = ?n" using r(5,6) f2 by simp_all
  have "memdisk (released bs ?x2) ?n = ?d" using same_viewD(2) [OF r(2)] w(4) by simp
  then have c3: "bt \<in> dirtyb (released bs ?x2) \<or> b_data (bufs (released bs ?x2) bt) = memdisk (released bs ?x2) (b_blockno (bufs (released bs ?x2) bt))"
    using f3 by simp
  obtain z where z: "brelse bt v = Inr z" "mv {} s (released bt (released bs ?x2)) z"
    using brelse_mv [OF v(2) bc3 assms(3), of bt] by (auto simp: returns_iff)
  note q = released_ok [OF bc3 _ c3, simplified]
  have sv: "same_view ?x2 (released bt (released bs ?x2))" using r(2) q(2) by (rule same_view_trans)
  have "fs_same y ?x2" using fs_same_trans [OF fs_same_set(1) fs_same_written] .
  then have fs: "fs_same y (released bt (released bs ?x2))" using same_viewD(4) [OF sv] by (rule fs_same_trans)
  have db: "dblocks (released bt (released bs ?x2)) = dblocks y - {?n}"
    using dblocks_released [OF bc3 _ c3] dblocks_released [OF w(1) h1(2) c2] dblocks_written [OF bc1 h1(1)] by simp
  have "wrote p ?n ?d y (released bt (released bs ?x2))"
    using q(1) same_viewD(1-3) [OF sv] w(2,4,5) view_set_data [OF assms(2) h1(1) ld] fs db by (simp add: wrote_def)
  then show ?thesis using z by (auto simp: u(1) v(1))
qed

text \<open>Reading two blocks.\<close>

lemma read_two:
  assumes "mv {} s x t" "bc p {} x" "p = mypid s" "m \<noteq> n" "can_read {} x m" "n < disksize x"
    "n \<in> dblocks x \<or> card (dirtyb x) + 1 < NBUF"
  shows "\<exists>a t1 x1 c t2 y. bread 1 m t = Inr (a, t1) \<and> mv {} s x1 t1 \<and> jlog x1 = jlog x \<and>
    bread 1 n t1 = Inr (c, t2) \<and> mv {} s y t2 \<and> a \<noteq> c \<and>
    bc p {a, c} y \<and> same_view x y \<and> dblocks y = dblocks x \<and> b_blockno (bufs y a) = m \<and> b_blockno (bufs y c) = n \<and>
    b_data (bufs y a) = view x m \<and> b_data (bufs y c) = view x n \<and>
    (a \<in> dirtyb y \<or> b_data (bufs y a) = memdisk y m) \<and> (c \<in> dirtyb y \<or> b_data (bufs y c) = memdisk y n)"
proof -
  obtain a t1 x1 where a: "bread 1 m t = Inr (a, t1)" "mv {} s x1 t1" "got p {} x m a x1"
    using bread_mv [OF assms(1-3,5)] by (auto simp: returns_iff)
  note g = gotD [OF a(3), simplified]
  have cr: "can_read {a} x1 n"
  proof (cases "n \<in> dblocks x")
    case True
    then show ?thesis using g assms(4,6) same_viewD(5) [OF g(5)] by (intro can_read_dirty) auto
  next
    case False
    then show ?thesis using g assms(4,6,7) same_viewD(5) [OF g(5)] by (intro can_readI) auto
  qed
  obtain c t2 y where c: "bread 1 n t1 = Inr (c, t2)" "mv {} s y t2" "got p {a} x1 n c y"
    using bread_mv [OF a(2) g(2) assms(3) cr] by (auto simp: returns_iff)
  note h = gotD [OF c(3), simplified]
  have ca: "core (bufs y a) = core (bufs x1 a)" using h(8) by simp
  note ce = core_eqs [OF ca]
  have sv: "same_view x y" using g(5) h(5) by (rule same_view_trans)
  have cl: "a \<in> dirtyb x1 \<or> b_data (bufs x1 a) = memdisk x1 m" using got_clean [OF a(3) assms(2)] by simp
  show ?thesis
  proof (intro exI conjI)
    show "bread 1 m t = Inr (a, t1)" "mv {} s x1 t1" "bread 1 n t1 = Inr (c, t2)" "mv {} s y t2" by fact+
    show "jlog x1 = jlog x" by (fact same_viewD(6) [OF g(5)])
    show "a \<noteq> c" using h(1) by simp
    show "bc p {a, c} y" using h(2) by (simp add: insert_commute)
    show "same_view x y" by (fact sv)
    show "dblocks y = dblocks x" "b_blockno (bufs y a) = m" "b_blockno (bufs y c) = n" "b_data (bufs y a) = view x m"
      "b_data (bufs y c) = view x n"
      using g h ce same_viewD(1) [OF g(5)] by simp_all
    show "a \<in> dirtyb y \<or> b_data (bufs y a) = memdisk y m"
      using cl h(6) ce same_viewD(2) [OF h(5)] by simp
    show "c \<in> dirtyb y \<or> b_data (bufs y c) = memdisk y n"
      using got_clean [OF c(3) g(2)] g assms(4) by simp
  qed
qed

end
