(* ===== verification/Crash.thy ===== *)
theory Crash
  imports Log
begin

text \<open>
  Crash safety of the log. A crash keeps a prefix of the block writes that have been issued. \<open>durable ls D\<close>
  is what a disk \<open>D\<close> with a log at block \<open>ls\<close> means after the next start: its contents with the
  committed blocks of the log installed. The lemmas on \<open>durable\<close> are about lists of writes only; the rest of the
  theory shows that commit and recovery issue such lists.
\<close>

declare One_nat_def [simp del]

section \<open>Lists of writes\<close>

definition writes :: "(nat \<times> char list) list \<Rightarrow> (nat \<Rightarrow> char list) \<Rightarrow> nat \<Rightarrow> char list" where
  "writes W D = fold (\<lambda>(n, d) D. D(n := d)) W D"

lemma writes_simps [simp]: "writes [] D = D" "writes ((n, d) # W) D = writes W (D(n := d))"
  "writes (V @ W) D = writes W (writes V D)"
  by (simp_all add: writes_def)

lemma writes_other: "n \<notin> fst ` set W \<Longrightarrow> writes W D n = D n"
  by (induction W arbitrary: D) (auto simp: writes_def)

lemma writes_zip:
  assumes "distinct ns" "length ds = length ns" "i < length ns"
  shows "writes (zip ns ds) D (ns ! i) = ds ! i"
  using assms
proof (induction ns arbitrary: ds i D)
  case (Cons n ns)
  obtain d es where ds: "ds = d # es" using Cons.prems(2) by (cases ds) auto
  show ?case
  proof (cases i)
    case 0
    have "n \<notin> fst ` set (zip ns es)" using Cons.prems(1) by (auto dest: set_zip_leftD)
    then show ?thesis using ds 0 by (simp add: writes_other)
  qed (use Cons ds in auto)
qed simp

lemma writes_cong: "D n = E n \<Longrightarrow> writes W D n = writes W E n"
proof (induction W arbitrary: D E)
  case (Cons w W)
  show ?case using Cons.prems by (cases w) (auto intro!: Cons.IH)
qed simp

lemma fst_zip_subset: "fst ` set (zip ns ds) \<subseteq> set ns" "fst ` set (take j (zip ns ds)) \<subseteq> set ns"
  by (auto dest: set_zip_leftD dest!: in_set_takeD)

text \<open>Writing some of a list of writes again, and then all of it, is writing it once.\<close>

lemma writes_again:
  assumes "distinct ns" "length ds = length ns"
  shows "writes (zip ns ds) (writes (take j (zip ns ds)) D) = writes (zip ns ds) D"
proof
  fix n
  show "writes (zip ns ds) (writes (take j (zip ns ds)) D) n = writes (zip ns ds) D n"
  proof (cases "n \<in> set ns")
    case True
    then obtain i where "i < length ns" "n = ns ! i" by (auto simp: in_set_conv_nth)
    then show ?thesis using assms by (simp add: writes_zip)
  next
    case False
    then have "n \<notin> fst ` set (zip ns ds)" "n \<notin> fst ` set (take j (zip ns ds))"
      using subsetD [OF fst_zip_subset(1)] subsetD [OF fst_zip_subset(2)] by metis+
    then show ?thesis by (simp add: writes_other)
  qed
qed

section \<open>What a disk means after a restart\<close>

definition log_blocks :: "nat \<Rightarrow> nat set" where
  "log_blocks ls = {ls..<ls + LOGSIZE}"

definition pending :: "nat \<Rightarrow> (nat \<Rightarrow> char list) \<Rightarrow> (nat \<times> char list) list" where
  "pending ls D = map (\<lambda>i. (get32 (D ls) (4 + 4 * i), D (ls + i + 1))) [0..<get32 (D ls) 0]"

definition durable :: "nat \<Rightarrow> (nat \<Rightarrow> char list) \<Rightarrow> nat \<Rightarrow> char list" where
  "durable ls D = writes (pending ls D) D"

text \<open>A header block that names the blocks \<open>ns\<close>.\<close>

definition header :: "nat list \<Rightarrow> char list \<Rightarrow> bool" where
  "header ns h \<longleftrightarrow> get32 h 0 = length ns \<and> (\<forall>i < length ns. get32 h (4 + 4 * i) = ns ! i)"

lemma durable_idle: "header [] (D ls) \<Longrightarrow> durable ls D = D"
  by (simp add: durable_def pending_def header_def)

lemma pending_header:
  assumes "header ns (D ls)"
  shows "pending ls D = zip ns (map (\<lambda>i. D (ls + i + 1)) [0..<length ns])"
  using assms by (intro nth_equalityI) (simp_all add: pending_def header_def)

lemma region_simps [simp]: "ls \<in> log_blocks ls" "i < 29 \<Longrightarrow> ls + i + 1 \<in> log_blocks ls"
  by (simp_all add: log_blocks_def LOGSIZE_def)

text \<open>The home locations while they are installed: the header and the log stay, so the meaning does.\<close>

lemma durable_installing:
  assumes "header ns (D ls)" "distinct ns" "set ns \<inter> log_blocks ls = {}" "length ns < LOGSIZE"
    "ds = map (\<lambda>i. D (ls + i + 1)) [0..<length ns]"
  shows "durable ls (writes (take j (zip ns ds)) D) = writes (zip ns ds) D"
proof -
  let ?E = "writes (take j (zip ns ds)) D"
  have o: "?E m = D m" if "m \<in> log_blocks ls" for m
  proof -
    have "m \<notin> fst ` set (take j (zip ns ds))"
      using that assms(3) fst_zip_subset(2) [of j ns ds] by blast
    then show ?thesis by (rule writes_other)
  qed
  have h: "?E ls = D ls" using o by simp
  have "pending ls ?E = zip ns (map (\<lambda>i. ?E (ls + i + 1)) [0..<length ns])"
    using assms(1) h by (intro pending_header) simp
  also have "map (\<lambda>i. ?E (ls + i + 1)) [0..<length ns] = ds"
    using assms(4,5) o by (auto simp: LOGSIZE_def)
  finally show ?thesis using assms(2,5) by (simp add: durable_def writes_again)
qed

text \<open>
  The writes of recovery and of a commit, with \<open>h\<close> the header block that is written for the
  blocks \<open>ns\<close> and \<open>h0\<close> the one that is written to clear the log.
\<close>

definition recovery_writes :: "nat \<Rightarrow> nat list \<Rightarrow> char list list \<Rightarrow> char list \<Rightarrow> (nat \<times> char list) list" where
  "recovery_writes ls ns ds h0 = zip ns ds @ [(ls, h0)]"

definition commit_writes :: "nat \<Rightarrow> nat list \<Rightarrow> char list list \<Rightarrow> char list \<Rightarrow> char list \<Rightarrow> (nat \<times> char list) list" where
  "commit_writes ls ns ds h h0 = zip [ls + 1..<ls + 1 + length ns] ds @ (ls, h) # recovery_writes ls ns ds h0"

lemma writes_cleared:
  assumes "header [] h0" "set ns \<inter> log_blocks ls = {}" "n \<notin> log_blocks ls"
  shows "durable ls (writes (recovery_writes ls ns ds h0) D) n = writes (zip ns ds) D n"
proof -
  have "durable ls (writes (recovery_writes ls ns ds h0) D) = writes (recovery_writes ls ns ds h0) D"
    using assms(1) by (intro durable_idle) (simp add: recovery_writes_def)
  then show ?thesis using assms(3) by (auto simp: recovery_writes_def)
qed

lemma recovery_atomic:
  assumes "header ns (D ls)" "distinct ns" "set ns \<inter> log_blocks ls = {}" "length ns < LOGSIZE"
    "ds = map (\<lambda>i. D (ls + i + 1)) [0..<length ns]" "header [] h0" "n \<notin> log_blocks ls"
  shows "durable ls (writes (take k (recovery_writes ls ns ds h0)) D) n = durable ls D n"
proof -
  have d: "durable ls D n = writes (zip ns ds) D n"
    using durable_installing [OF assms(1-5), of 0] by simp
  show ?thesis
  proof (cases "k \<le> length (zip ns ds)")
    case True
    then show ?thesis using durable_installing [OF assms(1-5), of k] d by (simp add: recovery_writes_def)
  next
    case False
    then have "take k (recovery_writes ls ns ds h0) = recovery_writes ls ns ds h0"
      using assms(5) by (intro take_all) (simp add: recovery_writes_def)
    then show ?thesis using writes_cleared [OF assms(6,3,7), of ds D] d by simp
  qed
qed

lemma commit_atomic:
  assumes "header [] (D ls)" "header ns h" "distinct ns" "set ns \<inter> log_blocks ls = {}" "length ns < LOGSIZE"
    "length ds = length ns" "header [] h0" "n \<notin> log_blocks ls"
  shows "durable ls (writes (take k (commit_writes ls ns ds h h0)) D) n =
    (if k \<le> length ns then D n else writes (zip ns ds) D n)"
proof (cases "k \<le> length ns")
  case True
  let ?V = "take k (zip [ls + 1..<ls + 1 + length ns] ds)"
  have V: "fst ` set ?V \<subseteq> {ls + 1..<ls + 1 + length ns}"
    using fst_zip_subset(2) [of k "[ls + 1..<ls + 1 + length ns]" ds] unfolding set_upt .
  then have "writes ?V D ls = D ls" by (intro writes_other) auto
  then have "durable ls (writes ?V D) = writes ?V D" using assms(1) by (intro durable_idle) simp
  moreover have "writes ?V D n = D n"
    using V assms(5,8) by (intro writes_other) (auto simp: log_blocks_def)
  ultimately show ?thesis using True assms(6) by (simp add: commit_writes_def)
next
  case False
  let ?L = "[ls + 1..<ls + 1 + length ns]"
  define E where "E = (writes (zip ?L ds) D)(ls := h)"
  have E: "header ns (E ls)" "E n = D n"
  proof -
    show "header ns (E ls)" using assms(2) by (simp add: E_def)
    have "n \<notin> fst ` set (zip ?L ds)"
    proof
      assume "n \<in> fst ` set (zip ?L ds)"
      then have "n \<in> set ?L" by (rule subsetD [OF fst_zip_subset(1)])
      then show False using assms(5,8) by (simp add: log_blocks_def)
    qed
    then show "E n = D n" using assms(8) by (auto simp: E_def writes_other)
  qed
  have ds: "ds = map (\<lambda>i. E (ls + i + 1)) [0..<length ns]"
  proof (rule nth_equalityI)
    fix i assume i: "i < length ds"
    then have "writes (zip ?L ds) D (?L ! i) = ds ! i" using assms(6) by (intro writes_zip) simp_all
    moreover have "?L ! i = ls + i + 1" using i assms(6) by (simp del: upt_Suc)
    ultimately show "ds ! i = map (\<lambda>i. E (ls + i + 1)) [0..<length ns] ! i" using i assms(6) by (simp add: E_def)
  qed (use assms(6) in simp)
  have "take k (commit_writes ls ns ds h h0) =
      zip ?L ds @ (ls, h) # take (k - Suc (length ns)) (recovery_writes ls ns ds h0)"
  proof -
    obtain j where j: "k = length ns + Suc j" using False by (metis add_Suc_right less_iff_Suc_add not_le)
    show ?thesis unfolding j using assms(6) by (simp add: commit_writes_def)
  qed
  then have "durable ls (writes (take k (commit_writes ls ns ds h h0)) D) n =
      durable ls (writes (take (k - Suc (length ns)) (recovery_writes ls ns ds h0)) E) n"
    by (simp add: E_def)
  also have "\<dots> = durable ls E n"
    using E(1) assms(3-5) ds assms(7,8) by (rule recovery_atomic)
  also have "\<dots> = writes (zip ns ds) E n"
    using durable_installing [OF E(1) assms(3-5) ds, of 0] by simp
  also have "\<dots> = writes (zip ns ds) D n" using E(2) by (rule writes_cong)
  finally show ?thesis using False by simp
qed

section \<open>The log in memory\<close>

definition logged :: "storage \<Rightarrow> nat list" where
  "logged x = map nat (take (nat (lh_n (jlog x))) (lh_block (jlog x)))"

text \<open>The header in memory names distinct blocks of the disk outside the log, and there is room for them in the log.\<close>

definition lg_ok :: "nat \<Rightarrow> storage \<Rightarrow> bool" where
  "lg_ok ls x \<longleftrightarrow> lg_dev (jlog x) = 1 \<and> lg_start (jlog x) = int ls \<and> 0 \<le> lh_n (jlog x) \<and> lh_n (jlog x) < int LOGSIZE \<and>
     length (lh_block (jlog x)) = LOGSIZE \<and> ls + LOGSIZE \<le> disksize x \<and> disksize x < 2 ^ 31 \<and>
     (\<forall>i < nat (lh_n (jlog x)). 0 \<le> lh_block (jlog x) ! i) \<and>
     distinct (logged x) \<and> (\<forall>n \<in> set (logged x). n < disksize x \<and> n \<notin> log_blocks ls)"

lemma lg_okD:
  assumes "lg_ok ls x"
  shows "lg_dev (jlog x) = 1" "lg_start (jlog x) = int ls" "0 \<le> lh_n (jlog x)" "lh_n (jlog x) < 30"
    "length (lh_block (jlog x)) = 30" "ls + 30 \<le> disksize x" "disksize x < 2147483648"
    "i < length (logged x) \<Longrightarrow> 0 \<le> lh_block (jlog x) ! i" "distinct (logged x)"
    "n \<in> set (logged x) \<Longrightarrow> n < disksize x" "n \<in> set (logged x) \<Longrightarrow> n \<notin> log_blocks ls"
    "length (logged x) = nat (lh_n (jlog x))" "i < length (logged x) \<Longrightarrow> logged x ! i = nat (lh_block (jlog x) ! i)"
    "length (logged x) < 30"
  using assms by (auto simp: lg_ok_def LOGSIZE_def logged_def)

lemma lg_ok_same: "fs_same x y \<Longrightarrow> lg_ok ls y = lg_ok ls x" "fs_same x y \<Longrightarrow> logged y = logged x"
  by (simp_all add: fs_same_def lg_ok_def logged_def)

lemma lg_entry:
  assumes "lg_ok ls x" "i < length (logged x)"
  shows "lh_at (lh_block (jlog x)) i = Inr (int (logged x ! i))" "u32 (int (logged x ! i)) = logged x ! i"
    "u32 (lg_start (jlog x) + int i + 1) = ls + i + 1" "u32 (lg_dev (jlog x)) = 1" "logged x ! i < disksize x"
    "logged x ! i \<notin> log_blocks ls" "ls + i + 1 < disksize x" "ls + i + 1 \<in> log_blocks ls"
proof -
  note l = lg_okD [OF assms(1)]
  have n: "logged x ! i \<in> set (logged x)" using assms(2) by simp
  have i: "i < 29" using assms(2) l(14) by simp
  show "lh_at (lh_block (jlog x)) i = Inr (int (logged x ! i))"
    using l(8,13) assms(2) i by (simp add: lh_at_def LOGSIZE_def)
  show d: "logged x ! i < disksize x" "logged x ! i \<notin> log_blocks ls" using l(10,11) n by auto
  show "u32 (int (logged x ! i)) = logged x ! i" using d(1) l(7) by simp
  show m: "ls + i + 1 < disksize x" using i l(6) by simp
  have "lg_start (jlog x) + int i + 1 = int (ls + i + 1)" using l(2) by simp
  then show "u32 (lg_start (jlog x) + int i + 1) = ls + i + 1" using m l(7) by (simp only: u32_int)
  show "u32 (lg_dev (jlog x)) = 1" using l(1) by simp
  show "ls + i + 1 \<in> log_blocks ls" using i by simp
qed

section \<open>Series of writes\<close>

definition wrotes :: "int \<Rightarrow> (nat \<times> char list) list \<Rightarrow> storage \<Rightarrow> storage \<Rightarrow> bool" where
  "wrotes p W x y \<longleftrightarrow> bc p {} y \<and> view y = writes W (view x) \<and> memdisk y = writes W (memdisk x) \<and>
     wtrace y = wtrace x @ W \<and> dblocks y = dblocks x - fst ` set W \<and> fs_same x y"

lemma wrotesD:
  assumes "wrotes p W x y"
  shows "bc p {} y" "view y = writes W (view x)" "memdisk y = writes W (memdisk x)" "wtrace y = wtrace x @ W"
    "dblocks y = dblocks x - fst ` set W" "fs_same x y"
  using assms by (simp_all add: wrotes_def)

lemma wrotes_Nil [simp]: "bc p {} x \<Longrightarrow> wrotes p [] x x"
  by (simp add: wrotes_def)

lemma wrotes_snoc: "wrotes p W x y \<Longrightarrow> wrote p n d y z \<Longrightarrow> wrotes p (W @ [(n, d)]) x z"
  by (auto simp: wrotes_def wrote_def intro: fs_same_trans)

lemma wrotes_append: "wrotes p V x y \<Longrightarrow> wrotes p W y z \<Longrightarrow> wrotes p (V @ W) x z"
  by (auto simp: wrotes_def intro: fs_same_trans)

lemma wrotes_dirty:
  assumes "wrotes p W x y" "bc p {} x"
  shows "card (dirtyb y) \<le> card (dirtyb x)"
proof -
  have "card (dblocks y) \<le> card (dblocks x)"
    unfolding wrotesD(5) [OF assms(1)] by (intro card_mono) (simp_all add: dblocks_def)
  then show ?thesis using card_dblocks [OF assms(2)] card_dblocks [OF wrotesD(1) [OF assms(1)]] by simp
qed

section \<open>The body of the loops\<close>

lemma wrote_after: "wrote p n d y z \<Longrightarrow> same_view x y \<Longrightarrow> dblocks y = dblocks x \<Longrightarrow> wrote p n d x z"
  by (auto simp: wrote_def dest: same_viewD intro: fs_same_trans)

text \<open>A log block and its home block are read and one of them is copied over the other.\<close>

lemma log_pair:
  assumes "mv {} s x t" "bc p {} x" "p = mypid s" "lg_ok ls x" "i < length (logged x)"
    "logged x ! i \<in> dblocks x \<or> card (dirtyb x) + 1 < NBUF" "card (dirtyb x) < NBUF"
  obtains a t1 c t2 y where
    "bread (u32 (lg_dev (jlog x))) (u32 (lg_start (jlog x) + int i + 1)) t = Inr (a, t1)"
    "lh_at (lh_block (jlog x)) i = Inr (int (logged x ! i))"
    "bread (u32 (lg_dev (jlog x))) (u32 (int (logged x ! i))) t1 = Inr (c, t2)" "sto t2 = y"
    "returns (bindr (bwrite a (upd_sto (set_data a (b_data (bufs y c))) t2)) (\<lambda>s. bindr (brelse c s) (\<lambda>s. brelse a s)))
       (\<lambda>u. \<exists>z. mv {} s z u \<and> wrote p (ls + i + 1) (view x (logged x ! i)) x z)"
    "returns (bindr (bwrite c (upd_sto (set_data c (b_data (bufs y a))) t2)) (\<lambda>s. bindr (brelse a s) (\<lambda>s. brelse c s)))
       (\<lambda>u. \<exists>z. mv {} s z u \<and> wrote p (logged x ! i) (view x (ls + i + 1)) x z)"
proof -
  note e = lg_entry [OF assms(4,5)]
  have ne: "ls + i + 1 \<noteq> logged x ! i" using e(6,8) by auto
  have cr: "can_read {} x (ls + i + 1)" using e(7) assms(7) by (intro can_readI) auto
  obtain a t1 x1 c t2 y where r: "bread 1 (ls + i + 1) t = Inr (a, t1)" "mv {} s x1 t1" "jlog x1 = jlog x"
    "bread 1 (logged x ! i) t1 = Inr (c, t2)" "mv {} s y t2" "a \<noteq> c"
    "bc p {a, c} y" "same_view x y" "dblocks y = dblocks x" "b_blockno (bufs y a) = ls + i + 1" "b_blockno (bufs y c) = logged x ! i"
    "b_data (bufs y a) = view x (ls + i + 1)" "b_data (bufs y c) = view x (logged x ! i)"
    "a \<in> dirtyb y \<or> b_data (bufs y a) = memdisk y (ls + i + 1)" "c \<in> dirtyb y \<or> b_data (bufs y c) = memdisk y (logged x ! i)"
    using read_two [OF assms(1-3) ne cr e(5) assms(6)] by metis
  have w: "wrote p n d x z" if "wrote p n d y z" for n d z using that r(8,9) by (rule wrote_after)
  have bc': "bc p {c, a} y" using r(7) by (simp add: insert_commute)
  have st: "sto t2 = y" using mv_facts(4) [OF r(5)] .
  note A = copy_tail [OF r(5,7) assms(3) r(6), unfolded r(10,11), OF r(15)]
  note C = copy_tail [OF r(5) bc' assms(3) r(6) [symmetric], unfolded r(10,11), OF r(14)]
  show ?thesis
  proof (rule that)
    show "bread (u32 (lg_dev (jlog x))) (u32 (lg_start (jlog x) + int i + 1)) t = Inr (a, t1)"
      "bread (u32 (lg_dev (jlog x))) (u32 (int (logged x ! i))) t1 = Inr (c, t2)"
      unfolding e(2-4) by (fact r)+
    show "returns (bindr (bwrite a (upd_sto (set_data a (b_data (bufs y c))) t2)) (\<lambda>s. bindr (brelse c s) (\<lambda>s. brelse a s)))
       (\<lambda>u. \<exists>z. mv {} s z u \<and> wrote p (ls + i + 1) (view x (logged x ! i)) x z)"
      using A by (rule returns_mono) (use w r(13) in auto)
    show "returns (bindr (bwrite c (upd_sto (set_data c (b_data (bufs y a))) t2)) (\<lambda>s. bindr (brelse a s) (\<lambda>s. brelse c s)))
       (\<lambda>u. \<exists>z. mv {} s z u \<and> wrote p (logged x ! i) (view x (ls + i + 1)) x z)"
      using C by (rule returns_mono) (use w r(12) in auto)
  qed (fact e(1) st)+
qed

lemma write_log_one_mv:
  assumes "mv {} s x t" "bc p {} x" "p = mypid s" "lg_ok ls x" "i < length (logged x)"
    "logged x ! i \<in> dblocks x" "card (dirtyb x) < NBUF"
  shows "returns (write_log_one i t) (\<lambda>u. \<exists>z. mv {} s z u \<and> wrote p (ls + i + 1) (view x (logged x ! i)) x z)"
proof -
  have st: "sto t = x" using mv_facts(4) [OF assms(1)] .
  show ?thesis
    by (rule log_pair [OF assms(1-5) disjI1 [OF assms(6)] assms(7)])
       (simp add: write_log_one_def Let_def st)
qed

lemma install_one_mv:
  assumes "mv {} s x t" "bc p {} x" "p = mypid s" "lg_ok ls x" "i < length (logged x)"
    "logged x ! i \<in> dblocks x \<or> card (dirtyb x) + 1 < NBUF" "card (dirtyb x) < NBUF"
  shows "returns (install_one i t) (\<lambda>u. \<exists>z. mv {} s z u \<and> wrote p (logged x ! i) (view x (ls + i + 1)) x z)"
proof -
  have st: "sto t = x" using mv_facts(4) [OF assms(1)] .
  show ?thesis
    by (rule log_pair [OF assms]) (simp add: install_one_def Let_def st)
qed

section \<open>The loops\<close>

lemma write_log_mv:
  assumes "mv {} s x t" "bc p {} x" "p = mypid s" "lg_ok ls x" "set (logged x) \<subseteq> dblocks x" "card (dirtyb x) < NBUF"
  shows "returns (write_log t) (\<lambda>u. \<exists>z. mv {} s z u \<and>
    wrotes p (zip [ls + 1..<ls + 1 + length (logged x)] (map (view x) (logged x))) x z)"
proof -
  let ?L = "logged x"
  define W where "W i = map (\<lambda>j. (ls + j + 1, view x (?L ! j))) [0..<i]" for i
  note l = lg_okD [OF assms(4)]
  have "returns (for_each [0..<length ?L] write_log_one t) (\<lambda>u. \<exists>z. mv {} s z u \<and> wrotes p (W (length ?L)) x z)"
  proof (rule for_upto_rule)
    show "\<exists>z. mv {} s z t \<and> wrotes p (W 0) x z" using assms(1,2) by (auto simp: W_def)
    fix i u assume i: "i < length ?L" and "\<exists>z. mv {} s z u \<and> wrotes p (W i) x z"
    then obtain z where z: "mv {} s z u" "wrotes p (W i) x z" by blast
    have L: "?L ! i \<notin> log_blocks ls" using lg_entry(6) [OF assms(4) i] .
    have "fst ` set (W i) \<subseteq> log_blocks ls" using i l(14) by (auto simp: W_def)
    then have o: "?L ! i \<notin> fst ` set (W i)" using L by blast
    have z': "lg_ok ls z" "logged z = ?L" "view z (?L ! i) = view x (?L ! i)" "?L ! i \<in> dblocks z" "card (dirtyb z) < NBUF"
      using wrotesD [OF z(2)] lg_ok_same assms(4-6) o i wrotes_dirty [OF z(2) assms(2)] by (auto simp: writes_other)
    have "returns (write_log_one i u) (\<lambda>v. \<exists>y. mv {} s y v \<and> wrote p (ls + i + 1) (view z (logged z ! i)) z y)"
      using z(1) wrotesD(1) [OF z(2)] assms(3) z' i by (intro write_log_one_mv) auto
    then show "returns (write_log_one i u) (\<lambda>u. \<exists>z. mv {} s z u \<and> wrotes p (W (Suc i)) x z)"
      by (rule returns_mono) (use z(2) z' in \<open>auto simp: W_def intro!: wrotes_snoc\<close>)
  qed
  moreover have "W (length ?L) = zip [ls + 1..<ls + 1 + length ?L] (map (view x) ?L)"
    by (intro nth_equalityI) (simp_all add: W_def del: upt_Suc)
  ultimately show ?thesis using l(12) by (simp add: write_log_def mv_facts(4) [OF assms(1)])
qed

lemma install_trans_mv:
  assumes "mv {} s x t" "bc p {} x" "p = mypid s" "lg_ok ls x"
    "set (logged x) \<subseteq> dblocks x \<or> card (dirtyb x) + 1 < NBUF" "card (dirtyb x) < NBUF"
  shows "returns (install_trans t) (\<lambda>u. \<exists>z. mv {} s z u \<and>
    wrotes p (zip (logged x) (map (\<lambda>i. view x (ls + i + 1)) [0..<length (logged x)])) x z)"
proof -
  let ?L = "logged x"
  define W where "W i = map (\<lambda>j. (?L ! j, view x (ls + j + 1))) [0..<i]" for i
  note l = lg_okD [OF assms(4)]
  have "returns (for_each [0..<length ?L] install_one t) (\<lambda>u. \<exists>z. mv {} s z u \<and> wrotes p (W (length ?L)) x z)"
  proof (rule for_upto_rule)
    show "\<exists>z. mv {} s z t \<and> wrotes p (W 0) x z" using assms(1,2) by (auto simp: W_def)
    fix i u assume i: "i < length ?L" and "\<exists>z. mv {} s z u \<and> wrotes p (W i) x z"
    then obtain z where z: "mv {} s z u" "wrotes p (W i) x z" by blast
    have "ls + i + 1 \<notin> fst ` set (W i)"
    proof
      assume "ls + i + 1 \<in> fst ` set (W i)"
      then obtain j where "j < i" "ls + i + 1 = ?L ! j" by (auto simp: W_def)
      then show False using lg_entry(6) [OF assms(4), of j] lg_entry(8) [OF assms(4) i] i by simp
    qed
    moreover have "?L ! i \<notin> fst ` set (W i)"
      using i l(9) by (auto simp: W_def nth_eq_iff_index_eq)
    moreover have "?L ! i \<in> set ?L" using i by simp
    ultimately have o: "view z (ls + i + 1) = view x (ls + i + 1)" "?L ! i \<in> dblocks x \<Longrightarrow> ?L ! i \<in> dblocks z"
      "?L ! i \<in> set ?L"
      using wrotesD(2,5) [OF z(2)] by (simp_all add: writes_other)
    have z': "lg_ok ls z" "logged z = ?L" "card (dirtyb z) < NBUF"
      using lg_ok_same [OF wrotesD(6) [OF z(2)]] assms(4,6) wrotes_dirty [OF z(2) assms(2)] by simp_all
    have c: "?L ! i \<in> dblocks z \<or> card (dirtyb z) + 1 < NBUF"
      using assms(5) o(2,3) wrotes_dirty [OF z(2) assms(2)] by auto
    have "returns (install_one i u) (\<lambda>v. \<exists>y. mv {} s y v \<and> wrote p (logged z ! i) (view z (ls + i + 1)) z y)"
      using z(1) wrotesD(1) [OF z(2)] assms(3) z' c i by (intro install_one_mv) simp_all
    then show "returns (install_one i u) (\<lambda>u. \<exists>z. mv {} s z u \<and> wrotes p (W (Suc i)) x z)"
      by (rule returns_mono) (use z(2) z' o in \<open>auto simp: W_def intro!: wrotes_snoc\<close>)
  qed
  moreover have "W (length ?L) = zip ?L (map (\<lambda>i. view x (ls + i + 1)) [0..<length ?L])"
    by (intro nth_equalityI) (simp_all add: W_def)
  ultimately show ?thesis using l(12) by (simp add: install_trans_def mv_facts(4) [OF assms(1)])
qed

section \<open>The header block\<close>

lemma set_data_twice [simp]: "set_data b d (set_data b e x) = set_data b d x"
  by (simp add: set_data_def upd_buf_def)

lemma set_data_same [simp]: "set_data b (b_data (bufs x b)) x = x"
  by (simp add: set_data_def upd_buf_def)

lemma write_tail:
  assumes "mv {} s (set_data b d y) t" "bc p {b} y" "p = mypid s" "length d = BSIZE"
  shows "returns (bindr (bwrite b t) (\<lambda>s. brelse b s)) (\<lambda>u. \<exists>z. mv {} s z u \<and> wrote p (b_blockno (bufs y b)) d y z)"
proof -
  let ?n = "b_blockno (bufs y b)" and ?x1 = "set_data b d y"
  have bc1: "bc p {b} ?x1" using assms(2,4) by (intro bc_set_data) auto
  have h: "b \<in> {b}" by simp
  obtain u where u: "bwrite b t = Inr u" "mv {} s (written b ?x1) u"
    using bwrite_mv [OF assms(1) bc1 assms(3) h] by (auto simp: returns_iff)
  note w = written_ok [OF bc1 h]
  have c: "b \<in> dirtyb (written b ?x1) \<or> b_data (bufs (written b ?x1) b) = memdisk (written b ?x1) (b_blockno (bufs (written b ?x1) b))"
    by (simp add: written_def disk_write_def)
  obtain v where v: "brelse b u = Inr v" "mv {} s (released b (written b ?x1)) v"
    using brelse_mv [OF u(2) w(1) assms(3) h] by (auto simp: returns_iff)
  note r = released_ok [OF w(1) h c, simplified]
  have "fs_same y (written b ?x1)" using fs_same_trans [OF fs_same_set(1) fs_same_written] .
  then have fs: "fs_same y (released b (written b ?x1))" using same_viewD(4) [OF r(2)] by (rule fs_same_trans)
  have "dblocks (released b (written b ?x1)) = dblocks y - {?n}"
    using dblocks_released [OF w(1) h c] dblocks_written [OF bc1 h] by simp
  then have "wrote p ?n d y (released b (written b ?x1))"
    using r(1) same_viewD(1-3) [OF r(2)] w(2,4,5) view_set_data [OF assms(2) h assms(4)] fs by (simp add: wrote_def)
  then show ?thesis using v by (auto simp: u(1))
qed

lemma write_head_mv:
  assumes "mv {} s x t" "bc p {} x" "p = mypid s" "lg_ok ls x" "card (dirtyb x) < NBUF"
  shows "returns (write_head t) (\<lambda>u. \<exists>z h. mv {} s z u \<and> header (logged x) h \<and> wrote p ls h x z)"
proof -
  note l = lg_okD [OF assms(4)]
  let ?n = "length (logged x)"
  have cr: "can_read {} x ls" using l(6) assms(5) by (intro can_readI) auto
  obtain b t1 y where b: "bread 1 ls t = Inr (b, t1)" "mv {} s y t1" "got p {} x ls b y"
    using bread_mv [OF assms(1-3) cr] by (auto simp: returns_iff)
  note g = gotD [OF b(3), simplified]
  have j: "jlog y = jlog x" using same_viewD(6) [OF g(5)] .
  have ln: "length (b_data (bufs y b)) = 512" using g(4) length_view [OF assms(2)] by (simp add: BSIZE_def)
  let ?d0 = "put32 (b_data (bufs y b)) 0 (u32 (lh_n (jlog x)))"
  define I where "I i u \<longleftrightarrow> (\<exists>d. mv {} s (set_data b d y) u \<and> length d = 512 \<and> get32 d 0 = ?n \<and>
    (\<forall>j < i. get32 d (4 + 4 * j) = logged x ! j))" for i u
  have "returns (for_each [0..<?n] (\<lambda>i s. bindr (lh_at (lh_block (jlog x)) i) (\<lambda>n.
      Inr (upd_sto (\<lambda>\<sigma>. set_data b (put32 (b_data (bufs \<sigma> b)) (4 + 4 * i) (u32 n)) \<sigma>) s)))
      (upd_sto (\<lambda>\<sigma>. set_data b (put32 (b_data (bufs \<sigma> b)) 0 (u32 (lh_n (jlog x)))) \<sigma>) t1)) (I ?n)"
  proof (rule for_upto_rule)
    have "mv {} s (set_data b ?d0 y) (upd_sto (\<lambda>\<sigma>. set_data b (put32 (b_data (bufs \<sigma> b)) 0 (u32 (lh_n (jlog x)))) \<sigma>) t1)"
      using mv_upd [OF b(2), of "\<lambda>\<sigma>. set_data b (put32 (b_data (bufs \<sigma> b)) 0 (u32 (lh_n (jlog x)))) \<sigma>"] by simp
    moreover have v: "u32 (lh_n (jlog x)) = ?n" "?n < 2 ^ 32" using l(3,4,12,14) by simp_all
    moreover have "get32 ?d0 0 = ?n" unfolding v(1) using ln v(2) by (intro get32_put32) simp_all
    ultimately show "I 0 (upd_sto (\<lambda>\<sigma>. set_data b (put32 (b_data (bufs \<sigma> b)) 0 (u32 (lh_n (jlog x)))) \<sigma>) t1)"
      using ln unfolding I_def by (intro exI [of _ ?d0]) simp
    fix i u assume i: "i < ?n" and "I i u"
    then obtain d where d: "mv {} s (set_data b d y) u" "length d = 512" "get32 d 0 = ?n" "\<forall>j < i. get32 d (4 + 4 * j) = logged x ! j"
      unfolding I_def by blast
    note e = lg_entry [OF assms(4) i]
    let ?d = "put32 d (4 + 4 * i) (u32 (int (logged x ! i)))"
    have m: "mv {} s (set_data b ?d y) (upd_sto (\<lambda>\<sigma>. set_data b (put32 (b_data (bufs \<sigma> b)) (4 + 4 * i) (u32 (int (logged x ! i)))) \<sigma>) u)"
      using mv_upd [OF d(1), of "\<lambda>\<sigma>. set_data b (put32 (b_data (bufs \<sigma> b)) (4 + 4 * i) (u32 (int (logged x ! i)))) \<sigma>"] by simp
    have i30: "i < 30" "logged x ! i < 2 ^ 32" using i l(7,14) e(5) by simp_all
    have "get32 ?d (4 + 4 * j) = logged x ! j" if "j < Suc i" for j
      using that d(2,4) i30 e(2) by (cases "j = i") auto
    moreover have "get32 ?d 0 = ?n" "length ?d = 512" using d(2,3) i30 by simp_all
    ultimately show "returns (bindr (lh_at (lh_block (jlog x)) i) (\<lambda>n.
      Inr (upd_sto (\<lambda>\<sigma>. set_data b (put32 (b_data (bufs \<sigma> b)) (4 + 4 * i) (u32 n)) \<sigma>) u))) (I (Suc i))"
      using m e(1) unfolding I_def by auto
  qed
  then obtain u where u: "for_each [0..<?n] (\<lambda>i s. bindr (lh_at (lh_block (jlog x)) i) (\<lambda>n.
      Inr (upd_sto (\<lambda>\<sigma>. set_data b (put32 (b_data (bufs \<sigma> b)) (4 + 4 * i) (u32 n)) \<sigma>) s)))
      (upd_sto (\<lambda>\<sigma>. set_data b (put32 (b_data (bufs \<sigma> b)) 0 (u32 (lh_n (jlog x)))) \<sigma>) t1) = Inr u" "I ?n u"
    by (auto simp: returns_iff)
  then obtain d where d: "mv {} s (set_data b d y) u" "length d = BSIZE" "header (logged x) d"
    unfolding I_def header_def by (auto simp: BSIZE_def)
  have "returns (bindr (bwrite b u) (\<lambda>s. brelse b s)) (\<lambda>u. \<exists>z. mv {} s z u \<and> wrote p (b_blockno (bufs y b)) d y z)"
    using d(1) g(2) assms(3) d(2) by (rule write_tail)
  then have "returns (bindr (bwrite b u) (\<lambda>s. brelse b s)) (\<lambda>u. \<exists>z h. mv {} s z u \<and> header (logged x) h \<and> wrote p ls h x z)"
    by (rule returns_mono) (use g(5,7,9) d(3) wrote_after in blast)
  moreover have "u32 (lg_start (jlog x)) = ls" "u32 (lg_dev (jlog x)) = 1" using l by simp_all
  ultimately show ?thesis
    using u(1) l(12) by (simp add: write_head_def Let_def b(1) j mv_facts(4) [OF assms(1)] mv_facts(4) [OF b(2)])
qed

text \<open>The log record is no part of the cache.\<close>

lemma upd_log_other [simp]:
  "sleeps (upd_log f \<sigma>) = sleeps \<sigma>" "memdisk (upd_log f \<sigma>) = memdisk \<sigma>" "disksize (upd_log f \<sigma>) = disksize \<sigma>"
  "wtrace (upd_log f \<sigma>) = wtrace \<sigma>" "bufs (upd_log f \<sigma>) = bufs \<sigma>" "sb (upd_log f \<sigma>) = sb \<sigma>"
  "icache (upd_log f \<sigma>) = icache \<sigma>" "files_t (upd_log f \<sigma>) = files_t \<sigma>" "pipes (upd_log f \<sigma>) = pipes \<sigma>"
  "jlog (upd_log f \<sigma>) = f (jlog \<sigma>)" "upd_log f (upd_log g \<sigma>) = upd_log (\<lambda>l. f (g l)) \<sigma>"
  by (simp_all add: upd_log_def)

lemma bc_upd_log [simp]: "bc p H (upd_log f \<sigma>) = bc p H \<sigma>"
  by (simp add: bc_def buf_held_def buf_rest_def caches_def has_sleep_def)

lemma view_upd_log [simp]: "view (upd_log f \<sigma>) = view \<sigma>" "dirtyb (upd_log f \<sigma>) = dirtyb \<sigma>" "dblocks (upd_log f \<sigma>) = dblocks \<sigma>"
  by (auto simp: fun_eq_iff view_def dirtyb_def dblocks_def split: option.split)

lemma released_upd_log: "released b (upd_log f \<sigma>) = upd_log f (released b \<sigma>)"
proof -
  have u: "upd_buf i g (upd_log f \<tau>) = upd_log f (upd_buf i g \<tau>)" for i g \<tau> by (simp add: upd_buf_def upd_log_def)
  have s: "unlock_sleep k (upd_log f \<tau>) = upd_log f (unlock_sleep k \<tau>)" for k \<tau>
    by (simp add: unlock_sleep_def upd_sleep_def upd_log_def)
  have l: "link_buf i (upd_log f \<tau>) = upd_log f (link_buf i \<tau>)" for i \<tau>
    unfolding link_buf_def Let_def by (simp only: u upd_log_other)
  show ?thesis unfolding released_def relink_def Let_def by (simp only: u s l upd_log_other)
qed

lemma read_head_mv:
  assumes "mv {} s x t" "bc p {} x" "p = mypid s" "card (dirtyb x) < NBUF"
    "lg_dev (jlog x) = 1" "lg_start (jlog x) = int ls" "ls < disksize x" "disksize x < 2 ^ 31"
    "length (lh_block (jlog x)) = LOGSIZE" "header ns (view x ls)" "length ns < LOGSIZE" "\<forall>n \<in> set ns. n < disksize x"
  shows "returns (read_head t) (\<lambda>u. \<exists>y bl. mv {} s (upd_log (\<lambda>l. l\<lparr>lh_n := int (length ns), lh_block := bl\<rparr>) y) u \<and>
    bc p {} y \<and> same_view x y \<and> dblocks y = dblocks x \<and> length bl = LOGSIZE \<and> (\<forall>i < length ns. bl ! i = int (ns ! i)))"
proof -
  let ?n = "length ns"
  have cr: "can_read {} x ls" using assms(4,7) by (intro can_readI) auto
  obtain b t1 y where b: "bread 1 ls t = Inr (b, t1)" "mv {} s y t1" "got p {} x ls b y"
    using bread_mv [OF assms(1-3) cr] by (auto simp: returns_iff)
  note g = gotD [OF b(3), simplified]
  have j: "jlog y = jlog x" using same_viewD(6) [OF g(5)] .
  let ?d = "b_data (bufs y b)"
  have d0: "i32 (get32 ?d 0) = int ?n" using assms(10,11) g(4) by (simp add: header_def i32_def LOGSIZE_def)
  have di: "i32 (get32 ?d (4 + 4 * i)) = int (ns ! i)" if i: "i < ?n" for i
  proof -
    have "ns ! i < disksize x" using assms(12) i by simp
    then show ?thesis using i assms(8,10) g(4) by (simp add: header_def i32_def)
  qed
  define y' where "y' bl = upd_log (\<lambda>l. l\<lparr>lh_n := int ?n, lh_block := bl\<rparr>) y" for bl
  define I where "I i u \<longleftrightarrow> (\<exists>bl. mv {} s (y' bl) u \<and> length bl = LOGSIZE \<and> (\<forall>j < i. bl ! j = int (ns ! j)))" for i u
  define f where "f i s = (if i < LOGSIZE
            then Inr (upd_sto (upd_log (\<lambda>l. l\<lparr>lh_block := (lh_block l)[i := i32 (get32 ?d (4 + 4 * i))]\<rparr>)) s)
            else Inl (Undef ''log.lh.block''))" for i and s :: "'a kst_scheme"
  have "returns (for_each [0..<?n] f (upd_sto (upd_log (\<lambda>l. l\<lparr>lh_n := int ?n\<rparr>)) t1)) (I ?n)"
  proof (rule for_upto_rule)
    have "y' (lh_block (jlog y)) = upd_log (\<lambda>l. l\<lparr>lh_n := int ?n\<rparr>) y"
      unfolding y'_def upd_log_def by (cases "jlog y") simp
    then show "I 0 (upd_sto (upd_log (\<lambda>l. l\<lparr>lh_n := int ?n\<rparr>)) t1)"
      using mv_upd [OF b(2), of "upd_log (\<lambda>l. l\<lparr>lh_n := int ?n\<rparr>)"] assms(9) j unfolding I_def
      by (intro exI [of _ "lh_block (jlog y)"]) simp
    fix i u assume i: "i < ?n" and "I i u"
    then obtain bl where bl: "mv {} s (y' bl) u" "length bl = LOGSIZE" "\<forall>j < i. bl ! j = int (ns ! j)"
      unfolding I_def by blast
    let ?bl = "bl[i := i32 (get32 ?d (4 + 4 * i))]"
    have "mv {} s (y' ?bl) (upd_sto (upd_log (\<lambda>l. l\<lparr>lh_block := (lh_block l)[i := i32 (get32 ?d (4 + 4 * i))]\<rparr>)) u)"
      using mv_upd [OF bl(1), of "upd_log (\<lambda>l. l\<lparr>lh_block := (lh_block l)[i := i32 (get32 ?d (4 + 4 * i))]\<rparr>)"]
      by (simp add: y'_def)
    moreover have "?bl ! j = int (ns ! j)" if "j < Suc i" for j
      using that bl(2,3) di [OF i] i assms(11) by (cases "j = i") auto
    ultimately show "returns (f i u) (I (Suc i))"
      using i assms(11) bl(2) unfolding I_def f_def by auto
  qed
  then obtain u bl where u: "for_each [0..<?n] f (upd_sto (upd_log (\<lambda>l. l\<lparr>lh_n := int ?n\<rparr>)) t1) = Inr u"
      "mv {} s (y' bl) u" "length bl = LOGSIZE" "\<forall>j < ?n. bl ! j = int (ns ! j)"
    unfolding I_def by (auto simp: returns_iff)
  have bc': "bc p {b} (y' bl)" using g(2) by (simp add: y'_def)
  have h: "b \<in> {b}" by simp
  obtain v where v: "brelse b u = Inr v" "mv {} s (released b (y' bl)) v"
    using brelse_mv [OF u(2) bc' assms(3) h] by (auto simp: returns_iff)
  have c: "b \<in> dirtyb y \<or> ?d = memdisk y (b_blockno (bufs y b))" using got_clean [OF b(3) assms(2)] g(9) by simp
  note r = released_ok [OF g(2) h c, simplified]
  have "mv {} s (upd_log (\<lambda>l. l\<lparr>lh_n := int ?n, lh_block := bl\<rparr>) (released b y)) v"
    using v(2) by (simp add: y'_def released_upd_log)
  moreover have "same_view x (released b y)" using g(5) r(2) by (rule same_view_trans)
  moreover have "dblocks (released b y) = dblocks x" using dblocks_released [OF g(2) h c] g(7) by simp
  moreover have w: "u32 (lg_dev (jlog x)) = 1" "u32 (lg_start (jlog x)) = ls" using assms(5-8) by simp_all
  moreover have "returns (read_head t) (\<lambda>w. w = v)"
    using u(1) v(1) w
    by (simp add: read_head_def Let_def b(1) d0 f_def [abs_def] j mv_facts(4) [OF assms(1)] mv_facts(4) [OF b(2)] cong: if_cong)
  ultimately show ?thesis using r(1) u(3,4) by (auto simp: returns_iff)
qed

section \<open>Commit and recovery\<close>

definition cleared :: "logst \<Rightarrow> logst" where
  "cleared l = l\<lparr>lh_n := 0\<rparr>"

lemma wrotes_upd_log: "wrotes p W x y \<Longrightarrow> wrotes p W (upd_log f x) (upd_log f y)"
  by (simp add: wrotes_def fs_same_def)

lemma wrotes_after: "wrotes p W (upd_log f y) z \<Longrightarrow> same_view x y \<Longrightarrow> dblocks y = dblocks x \<Longrightarrow> wrotes p W (upd_log f x) z"
  by (auto simp: wrotes_def same_view_def fs_same_def)

lemma lg_ok_cleared:
  assumes "lg_ok ls x"
  shows "lg_ok ls (upd_log cleared x)" "logged (upd_log cleared x) = []"
  using assms by (simp_all add: lg_ok_def logged_def cleared_def LOGSIZE_def)

lemma install_clear_mv:
  assumes "mv {} s x t" "bc p {} x" "p = mypid s" "lg_ok ls x"
    "set (logged x) \<subseteq> dblocks x \<or> card (dirtyb x) + 1 < NBUF" "card (dirtyb x) < NBUF"
    "ds = map (\<lambda>i. view x (ls + i + 1)) [0..<length (logged x)]"
  shows "returns (bindr (install_trans t) (\<lambda>s. write_head (upd_sto (upd_log cleared) s)))
    (\<lambda>u. \<exists>z h0. mv {} s z u \<and> header [] h0 \<and> wrotes p (recovery_writes ls (logged x) ds h0) (upd_log cleared x) z)"
proof -
  obtain u y where u: "install_trans t = Inr u" "mv {} s y u" "wrotes p (zip (logged x) ds) x y"
    using install_trans_mv [OF assms(1-6)] assms(7) by (auto simp: returns_iff)
  have y: "lg_ok ls y" "card (dirtyb y) < NBUF"
    using lg_ok_same(1) [OF wrotesD(6) [OF u(3)]] assms(4,6) wrotes_dirty [OF u(3) assms(2)] by simp_all
  obtain v z h0 where v: "write_head (upd_sto (upd_log cleared) u) = Inr v" "mv {} s z v" "header [] h0" "wrote p ls h0 (upd_log cleared y) z"
    using write_head_mv [OF mv_upd [OF u(2), of "upd_log cleared"], of p ls] wrotesD(1) [OF u(3)] assms(3) lg_ok_cleared [OF y(1)] y(2)
    by (auto simp: returns_iff)
  have "wrotes p (zip (logged x) ds @ [(ls, h0)]) (upd_log cleared x) z"
    using wrotes_snoc [OF wrotes_upd_log [OF u(3)] v(4)] .
  then show ?thesis using v(2,3) by (auto simp: u(1) v(1) recovery_writes_def)
qed

lemma commit_mv:
  assumes "mv {} s x t" "bc p {} x" "p = mypid s" "lg_ok ls x" "set (logged x) \<subseteq> dblocks x" "card (dirtyb x) < NBUF"
    "0 < lh_n (jlog x)"
  shows "returns (commit t) (\<lambda>u. \<exists>z h h0. mv {} s z u \<and> header (logged x) h \<and> header [] h0 \<and>
    wrotes p (commit_writes ls (logged x) (map (view x) (logged x)) h h0) (upd_log cleared x) z)"
proof -
  let ?L = "logged x" and ?ds = "map (view x) (logged x)"
  let ?B = "[ls + 1..<ls + 1 + length ?L]"
  note l = lg_okD [OF assms(4)]
  obtain u y where u: "write_log t = Inr u" "mv {} s y u" "wrotes p (zip ?B ?ds) x y"
    using write_log_mv [OF assms(1-6)] by (auto simp: returns_iff)
  have y: "lg_ok ls y" "card (dirtyb y) < NBUF" "logged y = ?L"
    using lg_ok_same [OF wrotesD(6) [OF u(3)]] assms(4,6) wrotes_dirty [OF u(3) assms(2)] by simp_all
  obtain v z h where v: "write_head u = Inr v" "mv {} s z v" "header ?L h" "wrote p ls h y z"
    using write_head_mv [OF u(2) wrotesD(1) [OF u(3)] assms(3) y(1,2)] y(3) by (auto simp: returns_iff)
  note w = wrotes_snoc [OF u(3) v(4)]
  have z: "lg_ok ls z" "card (dirtyb z) < NBUF" "logged z = ?L"
    using lg_ok_same [OF wrotesD(6) [OF w]] assms(4,6) wrotes_dirty [OF w assms(2)] by simp_all
  define F where "F = fst ` set (zip ?B ?ds @ [(ls, h)])"
  have "fst ` set (zip ?B ?ds) \<subseteq> log_blocks ls"
    using fst_zip_subset(1) [of ?B ?ds] by (rule subset_trans) (use l(14) in \<open>simp add: log_blocks_def LOGSIZE_def\<close>)
  then have "F \<subseteq> log_blocks ls" by (simp add: F_def)
  then have "set ?L \<inter> F = {}" using l(11) by blast
  then have d: "set (logged z) \<subseteq> dblocks z" unfolding z(3) wrotesD(5) [OF w, folded F_def] using assms(5) by blast
  have ds: "?ds = map (\<lambda>i. view z (ls + i + 1)) [0..<length (logged z)]"
  proof (rule nth_equalityI)
    fix i assume i: "i < length ?ds"
    have "writes (zip ?B ?ds) (view x) (?B ! i) = ?ds ! i" using i by (intro writes_zip) simp_all
    moreover have "?B ! i = ls + i + 1" using i by (simp del: upt_Suc)
    ultimately show "?ds ! i = map (\<lambda>i. view z (ls + i + 1)) [0..<length (logged z)] ! i"
      using i z(3) wrotesD(2) [OF w] by simp
  qed (use z(3) in simp)
  obtain r q h0 where r: "bindr (install_trans v) (\<lambda>s. write_head (upd_sto (upd_log cleared) s)) = Inr r" "mv {} s q r" "header [] h0"
    "wrotes p (recovery_writes ls ?L ?ds h0) (upd_log cleared z) q"
    using install_clear_mv [OF v(2) wrotesD(1) [OF w] assms(3) z(1) disjI1 [OF d] z(2) ds] z(3) by (auto simp: returns_iff)
  have "wrotes p (commit_writes ls ?L ?ds h h0) (upd_log cleared x) q"
    using wrotes_append [OF wrotes_upd_log [OF w] r(4)] by (simp add: commit_writes_def)
  moreover have "commit t = Inr r"
    using assms(7) r(1) by (simp add: commit_def u(1) v(1) mv_facts(4) [OF assms(1)] cleared_def [abs_def])
  ultimately show ?thesis using r(2,3) v(3) by auto
qed

text \<open>The start: the header on the disk names the committed blocks, nothing is dirty.\<close>

lemma recover_mv:
  assumes "mv {} s x t" "bc p {} x" "p = mypid s" "dirtyb x = {}"
    "lg_dev (jlog x) = 1" "lg_start (jlog x) = int ls" "ls + LOGSIZE \<le> disksize x" "disksize x < 2 ^ 31"
    "length (lh_block (jlog x)) = LOGSIZE" "header ns (memdisk x ls)" "length ns < LOGSIZE" "distinct ns"
    "\<forall>n \<in> set ns. n < disksize x \<and> n \<notin> log_blocks ls" "ds = map (\<lambda>i. memdisk x (ls + i + 1)) [0..<length ns]"
  shows "returns (recover_from_log t) (\<lambda>u. \<exists>z h0 bl. mv {} s z u \<and> header [] h0 \<and> length bl = LOGSIZE \<and>
    wrotes p (recovery_writes ls ns ds h0) (upd_log (\<lambda>l. l\<lparr>lh_n := 0, lh_block := bl\<rparr>) x) z)"
proof -
  have db: "dblocks x = {}" using assms(4) by (simp add: dblocks_def)
  have vw: "view x = memdisk x" using clean_view [OF assms(2)] db by auto
  obtain u y bl where u: "read_head t = Inr u" "mv {} s (upd_log (\<lambda>l. l\<lparr>lh_n := int (length ns), lh_block := bl\<rparr>) y) u"
    "bc p {} y" "same_view x y" "dblocks y = dblocks x" "length bl = LOGSIZE" "\<forall>i < length ns. bl ! i = int (ns ! i)"
    using read_head_mv [OF assms(1-3) _ assms(5,6) _ assms(8,9) _ assms(11)] assms(4,7,10,13) vw
    by (auto simp: returns_iff NBUF_def LOGSIZE_def)
  define f where "f l = l\<lparr>lh_n := int (length ns), lh_block := bl\<rparr>" for l :: logst
  let ?y = "upd_log f y"
  note sv = same_viewD [OF u(4)]
  have lg: "logged ?y = ns"
    using u(6,7) assms(11) by (intro nth_equalityI) (simp_all add: logged_def f_def)
  have ok: "lg_ok ls ?y"
    using lg assms(5-9,11-13) u(6,7) sv(5,6) by (auto simp: lg_ok_def f_def)
  have dy: "card (dirtyb ?y) = 0" using card_dblocks [OF u(3)] u(5) db by simp
  have ds: "ds = map (\<lambda>i. view ?y (ls + i + 1)) [0..<length (logged ?y)]" using assms(14) lg sv(1) vw by simp
  obtain v z h0 where v: "bindr (install_trans u) (\<lambda>s. write_head (upd_sto (upd_log cleared) s)) = Inr v" "mv {} s z v" "header [] h0"
    "wrotes p (recovery_writes ls ns ds h0) (upd_log cleared ?y) z"
    using install_clear_mv [OF u(2) [folded f_def] _ assms(3) ok _ _ ds] u(3) dy lg by (auto simp: returns_iff NBUF_def f_def)
  have e: "cleared (f l) = l\<lparr>lh_n := 0, lh_block := bl\<rparr>" for l by (simp add: cleared_def f_def)
  have "wrotes p (recovery_writes ls ns ds h0) (upd_log (\<lambda>l. l\<lparr>lh_n := 0, lh_block := bl\<rparr>) x) z"
    using wrotes_after [OF v(4) [unfolded upd_log_other e] u(4,5)] .
  moreover have "recover_from_log t = Inr v"
    using v(1) by (simp add: recover_from_log_def u(1) cleared_def [abs_def])
  ultimately show ?thesis using v(2,3) u(6) by auto
qed

end
