(* ===== verification/LogTx.thy ===== *)
theory LogTx
  imports Crash
begin

text \<open>
  Transactions: begin_op, updates of blocks through log_write, and end_op (log.c). \<open>log_inv\<close> holds between
  the calls. The main result is about every history of these calls by any number of
  interleaved operations: a crash at any point leaves a disk that means, after recovery, exactly what
  one of the commits so far wrote, or the initial contents.
\<close>

declare One_nat_def [simp del]

section \<open>The invariant\<close>

definition log_inv :: "nat \<Rightarrow> int \<Rightarrow> nat set \<Rightarrow> storage \<Rightarrow> bool" where
  "log_inv ls p H x \<longleftrightarrow> bc p H x \<and> lg_ok ls x \<and> lg_size (jlog x) = int LOGSIZE \<and> dblocks x = set (logged x) \<and>
     header [] (memdisk x ls)"

lemma log_invD:
  assumes "log_inv ls p H x"
  shows "bc p H x" "lg_ok ls x" "lg_size (jlog x) = 30" "dblocks x = set (logged x)" "header [] (memdisk x ls)"
    "card (dirtyb x) = length (logged x)" "card (dirtyb x) < 30"
proof -
  show b: "bc p H x" "lg_ok ls x" "lg_size (jlog x) = 30" "dblocks x = set (logged x)" "header [] (memdisk x ls)"
    using assms by (simp_all add: log_inv_def LOGSIZE_def)
  have "card (dirtyb x) = card (set (logged x))" using card_dblocks [OF b(1)] b(4) by simp
  also have "\<dots> = length (logged x)" using lg_okD(9) [OF b(2)] by (rule distinct_card)
  finally show "card (dirtyb x) = length (logged x)" .
  then show "card (dirtyb x) < 30" using lg_okD(14) [OF b(2)] by simp
qed

lemma inv_view:
  assumes "log_inv ls p {} x" "n \<notin> set (logged x)"
  shows "view x n = memdisk x n"
  using clean_view [OF log_invD(1) [OF assms(1)]] log_invD(4) [OF assms(1)] assms(2) by simp

lemma log_inv_same: "log_inv ls p {} x \<Longrightarrow> bc p {} y \<Longrightarrow> fs_same x y \<Longrightarrow> memdisk y = memdisk x \<Longrightarrow> dblocks y = dblocks x \<Longrightarrow> log_inv ls p {} y"
  by (simp add: log_inv_def lg_ok_same) (simp add: fs_same_def)

text \<open>Counters of the log that the invariant does not mention.\<close>

lemma log_inv_upd:
  assumes "log_inv ls p H x" "\<And>l. lg_dev (f l) = lg_dev l \<and> lg_start (f l) = lg_start l \<and> lg_size (f l) = lg_size l \<and>
    lh_n (f l) = lh_n l \<and> lh_block (f l) = lh_block l"
  shows "log_inv ls p H (upd_log f x)" "logged (upd_log f x) = logged x"
  using assms by (simp_all add: log_inv_def lg_ok_def logged_def)

section \<open>log_write\<close>

definition add_block :: "nat \<Rightarrow> logst \<Rightarrow> logst" where
  "add_block n l = (if int n \<in> set (take (nat (lh_n l)) (lh_block l)) then l
     else l\<lparr>lh_block := (lh_block l)[nat (lh_n l) := int n], lh_n := lh_n l + 1\<rparr>)"

definition log_written :: "nat \<Rightarrow> storage \<Rightarrow> storage" where
  "log_written b x = set_flags b 6 (upd_log (add_block (b_blockno (bufs x b))) x)"

lemma logged_mem:
  assumes "lg_ok ls x"
  shows "int n \<in> set (take (nat (lh_n (jlog x))) (lh_block (jlog x))) \<longleftrightarrow> n \<in> set (logged x)"
proof
  assume "int n \<in> set (take (nat (lh_n (jlog x))) (lh_block (jlog x)))"
  then have "nat (int n) \<in> set (logged x)" unfolding logged_def by (simp only: set_map image_eqI)
  then show "n \<in> set (logged x)" by simp
next
  assume "n \<in> set (logged x)"
  then obtain i where i: "i < length (logged x)" "n = logged x ! i" by (auto simp: in_set_conv_nth)
  have "lh_block (jlog x) ! i = int n" using lg_okD(8,13) [OF assms, of i] i by simp
  moreover have "i < length (take (nat (lh_n (jlog x))) (lh_block (jlog x)))" using i(1) by (simp add: logged_def)
  ultimately show "int n \<in> set (take (nat (lh_n (jlog x))) (lh_block (jlog x)))"
    using nth_mem [of i "take (nat (lh_n (jlog x))) (lh_block (jlog x))"] by simp
qed

lemma logged_added:
  assumes "lg_ok ls x"
  shows "logged (upd_log (add_block n) x) = (if n \<in> set (logged x) then logged x else logged x @ [n])"
proof (cases "n \<in> set (logged x)")
  case True
  then show ?thesis using logged_mem [OF assms, of n] by (simp add: logged_def add_block_def)
next
  case False
  note l = lg_okD [OF assms]
  have "nat (lh_n (jlog x) + 1) = Suc (nat (lh_n (jlog x)))" using l(3) by simp
  then show ?thesis
    using False logged_mem [OF assms, of n] l(3-5)
    by (simp add: logged_def add_block_def take_Suc_conv_app_nth)
qed

lemma lg_ok_added:
  assumes "lg_ok ls x" "lh_n (jlog x) < 29" "n < disksize x" "n \<notin> log_blocks ls"
  shows "lg_ok ls (upd_log (add_block n) x)"
proof (cases "n \<in> set (logged x)")
  case True
  then have "upd_log (add_block n) x = x" using logged_mem [OF assms(1), of n] by (simp add: add_block_def upd_log_def)
  then show ?thesis using assms(1) by simp
next
  case False
  note l = lg_okD [OF assms(1)]
  have L: "logged (upd_log (add_block n) x) = logged x @ [n]" using logged_added [OF assms(1)] False by simp
  have nn: "\<not> int n \<in> set (take (nat (lh_n (jlog x))) (lh_block (jlog x)))" using logged_mem [OF assms(1)] False by simp
  have "0 \<le> (lh_block (jlog x))[nat (lh_n (jlog x)) := int n] ! i" if "i < nat (lh_n (jlog x) + 1)" for i
    using that l(3-5,8,12) by (cases "i = nat (lh_n (jlog x))") auto
  then show ?thesis
    using assms l(1-7,9-11) False L nn unfolding lg_ok_def by (auto simp: add_block_def LOGSIZE_def)
qed

lemma find_logged:
  assumes "lg_ok ls x"
  shows "n \<notin> set (logged x) \<Longrightarrow> find (\<lambda>i. u32 (lh_block (jlog x) ! i) = n) [0..<nat (lh_n (jlog x))] = None"
    "n \<in> set (logged x) \<Longrightarrow> find (\<lambda>i. u32 (lh_block (jlog x) ! i) = n) [0..<nat (lh_n (jlog x))] \<noteq> None"
    "find (\<lambda>i. u32 (lh_block (jlog x) ! i) = n) [0..<nat (lh_n (jlog x))] = Some k \<Longrightarrow>
       k < length (logged x) \<and> logged x ! k = n \<and> lh_block (jlog x) ! k = int n"
proof -
  note l = lg_okD [OF assms]
  have e: "u32 (lh_block (jlog x) ! i) = logged x ! i" "lh_block (jlog x) ! i = int (logged x ! i)" if "i < length (logged x)" for i
  proof -
    show v: "lh_block (jlog x) ! i = int (logged x ! i)" using l(8,13) that by simp
    show "u32 (lh_block (jlog x) ! i) = logged x ! i" unfolding v using lg_entry(2) [OF assms that] .
  qed
  show "find (\<lambda>i. u32 (lh_block (jlog x) ! i) = n) [0..<nat (lh_n (jlog x))] = None" if "n \<notin> set (logged x)"
    using that e(1) l(12) by (auto simp: find_None_iff in_set_conv_nth)
  show "find (\<lambda>i. u32 (lh_block (jlog x) ! i) = n) [0..<nat (lh_n (jlog x))] \<noteq> None" if "n \<in> set (logged x)"
    using that e(1) l(12) by (auto simp: find_None_iff in_set_conv_nth)
  show "k < length (logged x) \<and> logged x ! k = n \<and> lh_block (jlog x) ! k = int n"
    if "find (\<lambda>i. u32 (lh_block (jlog x) ! i) = n) [0..<nat (lh_n (jlog x))] = Some k"
    using that e l(12) by (auto simp: find_Some_iff)
qed

lemma log_write_mv:
  assumes "mv {} s x t" "bc p H x" "b \<in> H" "lg_ok ls x" "lg_size (jlog x) = 30" "lh_n (jlog x) < 29" "1 \<le> lg_outstanding (jlog x)"
  shows "returns (log_write b t) (mv {} s (log_written b x))"
proof -
  let ?n = "b_blockno (bufs x b)" and ?l = "jlog x"
  note l = lg_okD [OF assms(4)]
  have st: "sto t = x" using mv_facts(4) [OF assms(1)] .
  obtain u where u: "acquire Log_lock t = Inr u" "mv {Log_lock} s x u"
    using acquire_mv [OF assms(1), of Log_lock] by (auto simp: returns_iff)
  have su: "sto u = x" using mv_facts(4) [OF u(2)] .
  have hb: "b_flags (bufs x b) \<in> {2, 6}" "?n < disksize x" using bcD(5) [OF assms(2,3)] by (auto simp: buf_held_def)
  have i32n: "i32 ?n = int ?n" using hb(2) l(7) by (simp add: i32_def)
  define i where "i = (case find (\<lambda>i. u32 (lh_block ?l ! i) = ?n) [0..<nat (lh_n ?l)] of Some i \<Rightarrow> i | None \<Rightarrow> nat (lh_n ?l))"
  define f where "f = (\<lambda>\<sigma>. upd_buf b (\<lambda>x. x\<lparr>b_flags := b_flags x OR B_DIRTY\<rparr>)
     ((if int i = lh_n ?l then upd_log (\<lambda>l. l\<lparr>lh_n := lh_n l + 1\<rparr>) else (\<lambda>\<sigma>. \<sigma>)) (upd_log (\<lambda>l. l\<lparr>lh_block := (lh_block l)[i := i32 ?n]\<rparr>) \<sigma>)))"
  have log: "(if int i = lh_n ?l then upd_log (\<lambda>l. l\<lparr>lh_n := lh_n l + 1\<rparr>) else (\<lambda>\<sigma>. \<sigma>)) (upd_log (\<lambda>l. l\<lparr>lh_block := (lh_block l)[i := i32 ?n]\<rparr>) x)
      = upd_log (add_block ?n) x"
  proof (cases "?n \<in> set (logged x)")
    case True
    then obtain k where k: "find (\<lambda>i. u32 (lh_block ?l ! i) = ?n) [0..<nat (lh_n ?l)] = Some k"
      using find_logged(2) [OF assms(4)] by auto
    note kk = find_logged(3) [OF assms(4) k]
    have "i = k" by (simp add: i_def k)
    moreover have "int k \<noteq> lh_n ?l" "(lh_block ?l)[k := int ?n] = lh_block ?l" using kk l(3,12) by (auto, metis list_update_id)
    ultimately show ?thesis using True logged_mem [OF assms(4)] kk i32n by (simp add: add_block_def upd_log_def)
  next
    case False
    then have "i = nat (lh_n ?l)" using find_logged(1) [OF assms(4)] by (simp add: i_def)
    then show ?thesis using False logged_mem [OF assms(4)] l(3) i32n by (simp add: add_block_def upd_log_def)
  qed
  have fx: "f x = log_written b x"
    unfolding f_def log log_written_def set_flags_def using hb(1) by (auto simp: upd_buf_def upd_log_def)
  have "mv {Log_lock} s (log_written b x) (upd_sto f u)" using mv_upd [OF u(2), of f] fx by simp
  then obtain v where v: "release Log_lock (upd_sto f u) = Inr v" "mv {} s (log_written b x) v"
    using release_mv [of "{Log_lock}" s _ _ Log_lock "{}"] by (auto simp: returns_iff)
  have "log_write b t = release Log_lock (upd_sto f u)"
    using assms(5-7) by (simp add: log_write_def Let_def st su u(1) LOGSIZE_def i_def f_def upd_sto_def cong: option.case_cong if_cong)
  then show ?thesis using v by simp
qed

lemma log_written_ok:
  assumes "log_inv ls p H x" "b \<in> H" "lh_n (jlog x) < 29" "b_blockno (bufs x b) \<notin> log_blocks ls"
  shows "log_inv ls p H (log_written b x)" "view (log_written b x) = view x" "memdisk (log_written b x) = memdisk x"
    "wtrace (log_written b x) = wtrace x" "disksize (log_written b x) = disksize x" "b \<in> dirtyb (log_written b x)"
    "logged (log_written b x) = (if b_blockno (bufs x b) \<in> set (logged x) then logged x else logged x @ [b_blockno (bufs x b)])"
    "jlog (log_written b x) = add_block (b_blockno (bufs x b)) (jlog x)"
    "bufs (log_written b x) = (bufs x)(b := (bufs x b)\<lparr>b_flags := 6\<rparr>)"
proof -
  let ?n = "b_blockno (bufs x b)" and ?z = "log_written b x"
  note i = log_invD [OF assms(1)]
  have b: "b < NBUF" "?n < disksize x" using bcD(1,5) [OF i(1)] assms(2) by (auto simp: buf_held_def)
  show B: "bufs ?z = (bufs x)(b := (bufs x b)\<lparr>b_flags := 6\<rparr>)" by (simp add: log_written_def)
  show "view ?z = view x" "memdisk ?z = memdisk x" "wtrace ?z = wtrace x" "disksize ?z = disksize x"
    "jlog ?z = add_block ?n (jlog x)"
    by (simp_all add: log_written_def)
  show D: "b \<in> dirtyb ?z" using b(1) by (simp add: dirtyb_def B)
  show L: "logged ?z = (if ?n \<in> set (logged x) then logged x else logged x @ [?n])"
    using logged_added [OF i(2), of ?n] by (simp add: log_written_def logged_def)
  have "dirtyb ?z = insert b (dirtyb x)" using b(1) by (auto simp: dirtyb_def B)
  then have "dblocks ?z = insert ?n (dblocks x)" by (auto simp: dblocks_def B)
  then have "dblocks ?z = set (logged ?z)" using i(4) L by auto
  moreover have "bc p H ?z" unfolding log_written_def using i(1) assms(2) by (intro bc_set_flags) auto
  moreover have "lg_ok ls ?z"
    using lg_ok_added [OF i(2) assms(3) b(2) assms(4)] by (simp add: log_written_def lg_ok_def logged_def)
  ultimately show "log_inv ls p H ?z"
    using assms(1) by (simp add: log_inv_def log_written_def add_block_def)
qed

text \<open>The use of log_write that its comment describes.\<close>

definition log_update :: "nat \<Rightarrow> char list \<Rightarrow> 'a kst_scheme \<Rightarrow> 'a kst_scheme res" where
  "log_update n d s =
     bindr (bread 1 n s) (\<lambda>(bp, s).
     bindr (log_write bp (upd_sto (set_data bp d) s)) (\<lambda>s.
       brelse bp s))"

lemma log_inv_set_data:
  assumes "log_inv ls p H x" "b \<in> H" "length d = BSIZE"
  shows "log_inv ls p H (set_data b d x)"
proof -
  have "bc p H (set_data b d x)" using bc_set_data [OF log_invD(1) [OF assms(1)] assms(2,3)] .
  then show ?thesis using assms(1) by (simp add: log_inv_def lg_ok_def logged_def)
qed

lemma log_inv_got:
  assumes "log_inv ls p H x" "got p H x n b y"
  shows "log_inv ls p (insert b H) y"
  using gotD [OF assms(2)] assms(1) lg_ok_same [OF same_viewD(4) [OF gotD(5) [OF assms(2)]]]
  by (auto simp: log_inv_def dest: same_viewD)

lemma log_inv_released:
  assumes "log_inv ls p H x" "b \<in> H" "b \<in> dirtyb x \<or> b_data (bufs x b) = memdisk x (b_blockno (bufs x b))"
  shows "log_inv ls p (H - {b}) (released b x)"
proof -
  note r = released_ok [OF log_invD(1) [OF assms(1)] assms(2,3)]
  note sv = same_viewD [OF r(2)]
  have "dblocks (released b x) = dblocks x" using dblocks_released [OF log_invD(1) [OF assms(1)] assms(2,3)] .
  then show ?thesis using assms(1) r(1) sv lg_ok_same [OF sv(4)] by (simp add: log_inv_def)
qed

lemma log_update_mv:
  assumes "mv {} s x t" "log_inv ls p {} x" "p = mypid s" "n < disksize x" "n \<notin> log_blocks ls" "length d = BSIZE"
    "lh_n (jlog x) < 29" "1 \<le> lg_outstanding (jlog x)"
  shows "returns (log_update n d t) (\<lambda>u. \<exists>z. mv {} s z u \<and> log_inv ls p {} z \<and> view z = (view x)(n := d) \<and> memdisk z = memdisk x \<and>
    wtrace z = wtrace x \<and> disksize z = disksize x \<and> jlog z = add_block n (jlog x))"
proof -
  note i = log_invD [OF assms(2)]
  have cr: "can_read {} x n" using assms(4) i(7) by (intro can_readI) (auto simp: NBUF_def)
  obtain b t1 y where b: "bread 1 n t = Inr (b, t1)" "mv {} s y t1" "got p {} x n b y"
    using bread_mv [OF assms(1) i(1) assms(3) cr] by (auto simp: returns_iff)
  note g = gotD [OF b(3), simplified]
  have h: "b \<in> {b}" by simp
  let ?y = "set_data b d y"
  have iy: "log_inv ls p {b} ?y"
    using log_inv_got [OF assms(2) b(3)] assms(6) by (intro log_inv_set_data) auto
  have j: "jlog ?y = jlog x" "b_blockno (bufs ?y b) = n" using same_viewD(6) [OF g(5)] g(9) by simp_all
  note sv = same_viewD [OF g(5)]
  note k = log_invD [OF iy]
  obtain u where u: "log_write b (upd_sto (set_data b d) t1) = Inr u" "mv {} s (log_written b ?y) u"
    using log_write_mv [OF mv_upd [OF b(2), of "set_data b d"] k(1) h k(2,3)] assms(7,8) j by (auto simp: returns_iff)
  have nb: "lh_n (jlog ?y) < 29" "b_blockno (bufs ?y b) \<notin> log_blocks ls" using assms(5,7) j by simp_all
  note w = log_written_ok [OF iy h nb]
  obtain v where v: "brelse b u = Inr v" "mv {} s (released b (log_written b ?y)) v"
    using brelse_mv [OF u(2) log_invD(1) [OF w(1)] assms(3) h] by (auto simp: returns_iff)
  note r = released_ok [OF log_invD(1) [OF w(1)] h disjI1 [OF w(6)]]
  note rv = same_viewD [OF r(2)]
  have "log_inv ls p {} (released b (log_written b ?y))" using log_inv_released [OF w(1) h disjI1 [OF w(6)]] by simp
  moreover have "view (released b (log_written b ?y)) = (view x)(n := d)"
    using rv(1) w(2) view_set_data [OF g(2) h assms(6)] g(9) sv(1) by simp
  moreover have "log_update n d t = Inr v" by (simp add: log_update_def b(1) u(1) v(1))
  ultimately show ?thesis using v(2) rv w(3-5,8) sv j by auto
qed

text \<open>The header block only ever names blocks that can be installed.\<close>

definition log_valid :: "nat \<Rightarrow> nat \<Rightarrow> (nat \<Rightarrow> char list) \<Rightarrow> bool" where
  "log_valid ls m D \<longleftrightarrow> (\<exists>ns. header ns (D ls) \<and> length ns < LOGSIZE \<and> distinct ns \<and> (\<forall>n \<in> set ns. n < m \<and> n \<notin> log_blocks ls))"

lemma writes_last: "writes W D n = D n \<or> (n, writes W D n) \<in> set W"
proof (induction W arbitrary: D)
  case (Cons w W)
  obtain m d where w: "w = (m, d)" by (cases w)
  define E where "E = D(m := d)"
  have "E n = D n \<or> n = m \<and> E n = d" by (simp add: E_def)
  then show ?case using Cons.IH [of E] by (auto simp: w E_def [symmetric])
qed simp

lemma log_valid_idle: "header [] (D ls) \<Longrightarrow> log_valid ls m D"
  by (auto simp: log_valid_def LOGSIZE_def intro: exI [of _ "[]"])

lemma commit_valid:
  assumes "header [] (D ls)" "header ns h" "distinct ns" "\<forall>n \<in> set ns. n < m \<and> n \<notin> log_blocks ls" "length ns < LOGSIZE" "header [] h0"
  shows "log_valid ls m (writes (take k (commit_writes ls ns ds h h0)) D)"
proof -
  let ?E = "writes (take k (commit_writes ls ns ds h h0)) D"
  have "?E ls = D ls \<or> (ls, ?E ls) \<in> set (commit_writes ls ns ds h h0)"
    using writes_last [of "take k (commit_writes ls ns ds h h0)" D ls] in_set_takeD by fast
  moreover have "d = h \<or> d = h0" if "(ls, d) \<in> set (commit_writes ls ns ds h h0)" for d
  proof -
    have "ls \<notin> set ns" using assms(4) region_simps(1) by blast
    then show ?thesis
      using that set_zip_leftD [of ls d "[ls + 1..<ls + 1 + length ns]" ds] set_zip_leftD [of ls d ns ds]
      by (auto simp: commit_writes_def recovery_writes_def)
  qed
  ultimately have "header [] (?E ls) \<or> header ns (?E ls)" using assms(1,2,6) by metis
  then show ?thesis using assms(3-5) log_valid_idle by (auto simp: log_valid_def)
qed

section \<open>Commits\<close>

text \<open>\<open>committed x z W\<close>: a commit has taken \<open>x\<close> to \<open>z\<close> with the writes \<open>W\<close>.\<close>

definition committed :: "nat \<Rightarrow> int \<Rightarrow> storage \<Rightarrow> storage \<Rightarrow> (nat \<times> char list) list \<Rightarrow> bool" where
  "committed ls p x z W \<longleftrightarrow> log_inv ls p {} z \<and> logged z = [] \<and> wtrace z = wtrace x @ W \<and> memdisk z = writes W (memdisk x) \<and>
     disksize z = disksize x \<and> (\<forall>k. log_valid ls (disksize x) (writes (take k W) (memdisk x))) \<and>
     (\<forall>n. n \<notin> log_blocks ls \<longrightarrow> view z n = view x n \<and> memdisk z n = view x n \<and>
        (\<forall>k. durable ls (writes (take k W) (memdisk x)) n = (if k \<le> length (logged x) then memdisk x n else view x n)))"

lemma new_contents:
  assumes "log_inv ls p {} x"
  shows "writes (zip (logged x) (map (view x) (logged x))) (memdisk x) n = view x n"
proof (cases "n \<in> set (logged x)")
  case True
  then obtain i where i: "i < length (logged x)" "n = logged x ! i" by (auto simp: in_set_conv_nth)
  show ?thesis
    unfolding i(2) using i(1) lg_okD(9) [OF log_invD(2) [OF assms]] by (simp add: writes_zip)
next
  case False
  then have "n \<notin> fst ` set (zip (logged x) (map (view x) (logged x)))"
    using subsetD [OF fst_zip_subset(1)] by metis
  then show ?thesis using inv_view [OF assms False] by (simp add: writes_other)
qed

lemma commit_inv:
  assumes "mv {} s x t" "log_inv ls p {} x" "p = mypid s"
  shows "returns (commit t) (\<lambda>u. \<exists>z W. mv {} s z u \<and> committed ls p x z W \<and> jlog z = cleared (jlog x))"
proof (cases "0 < lh_n (jlog x)")
  case False
  note i = log_invD [OF assms(2)] and l = lg_okD [OF log_invD(2) [OF assms(2)]]
  have "lh_n (jlog x) = 0" using False l(3) by simp
  then have "logged x = []" and c: "cleared (jlog x) = jlog x" by (simp_all add: logged_def cleared_def)
  then have "committed ls p x x []"
    using assms(2) inv_view [OF assms(2)] durable_idle [where D = "memdisk x", OF i(5)]
      log_valid_idle [where D = "memdisk x", OF i(5)] by (simp add: committed_def)
  moreover have "commit t = Inr t" using False by (simp add: commit_def mv_facts(4) [OF assms(1)])
  ultimately show ?thesis using assms(1) c by auto
next
  case True
  note i = log_invD [OF assms(2)]
  note l = lg_okD [OF i(2)]
  let ?L = "logged x" and ?ds = "map (view x) (logged x)"
  obtain u z h h0 where u: "commit t = Inr u" "mv {} s z u" "header ?L h" "header [] h0"
    "wrotes p (commit_writes ls ?L ?ds h h0) (upd_log cleared x) z"
    using commit_mv [OF assms(1) i(1) assms(3) i(2) _ _ True] i(4,7) by (auto simp: returns_iff NBUF_def)
  let ?W = "commit_writes ls ?L ?ds h h0"
  note w = wrotesD [OF u(5), simplified]
  have ne: "set ?L \<inter> log_blocks ls = {}" "length ?L < LOGSIZE" using l(11,14) by (auto simp: LOGSIZE_def)
  have jz: "jlog z = cleared (jlog x)" "disksize z = disksize x" using w(6) by (simp_all add: fs_same_def)
  have lz: "lg_ok ls z" "logged z = []"
    using lg_ok_same [OF w(6)] lg_ok_cleared [OF i(2)] by simp_all
  have "fst ` set (zip ?L ?ds) = set ?L" by (simp flip: set_map)
  then have dz: "dblocks z = {}" using w(5) i(4) by (auto simp: commit_writes_def recovery_writes_def)
  have at: "durable ls (writes (take k ?W) (memdisk x)) n = (if k \<le> length ?L then memdisk x n else view x n)"
    if "n \<notin> log_blocks ls" for n k
    using commit_atomic [where D = "memdisk x" and ds = ?ds, OF i(5) u(3) l(9) ne _ u(4) that, of k] new_contents [OF assms(2)] by simp
  have hz: "header [] (memdisk z ls)" using w(3) u(4) by (simp add: commit_writes_def recovery_writes_def)
  have mz: "memdisk z n = view x n" if "n \<notin> log_blocks ls" for n
  proof -
    have "length ?L < length ?W" by (simp add: commit_writes_def recovery_writes_def)
    then have "durable ls (memdisk z) n = view x n" using at [OF that, of "length ?W"] w(3) by simp
    then show ?thesis using durable_idle [where D = "memdisk z", OF hz] by simp
  qed
  have iz: "log_inv ls p {} z"
    using w(1) lz dz hz i(3) jz by (simp add: log_inv_def cleared_def LOGSIZE_def)
  have "view z n = memdisk z n" for n using inv_view [OF iz] lz(2) by simp
  moreover have "log_valid ls (disksize x) (writes (take k ?W) (memdisk x))" for k
    using i(5) u(3) l(9) _ ne(2) u(4) by (rule commit_valid) (use l(10,11) in blast)
  ultimately have "committed ls p x z ?W"
    using iz lz(2) w(3,4) jz at mz by (simp add: committed_def)
  then show ?thesis using u(1,2) jz(1) by auto
qed

lemma committed_upd:
  assumes "\<And>l. lg_dev (f l) = lg_dev l \<and> lg_start (f l) = lg_start l \<and> lg_size (f l) = lg_size l \<and>
    lh_n (f l) = lh_n l \<and> lh_block (f l) = lh_block l"
  shows "committed ls p (upd_log f x) z W \<Longrightarrow> committed ls p x z W" "committed ls p x z W \<Longrightarrow> committed ls p x (upd_log f z) W"
proof -
  have L: "logged (upd_log f x) = logged x" "logged (upd_log f z) = logged z" using assms by (simp_all add: logged_def)
  show "committed ls p x z W" if "committed ls p (upd_log f x) z W"
    using that unfolding committed_def upd_log_other view_upd_log L .
  show "committed ls p x (upd_log f z) W" if "committed ls p x z W"
    using that log_inv_upd(1) [of ls p "{}" z f] assms unfolding committed_def upd_log_other view_upd_log L by blast
qed

section \<open>begin_op and end_op\<close>

lemma begin_op_mv:
  assumes "mv {} s x t" "\<not> lg_committing (jlog x)" "lh_n (jlog x) + (lg_outstanding (jlog x) + 1) * 10 \<le> 30"
  shows "returns (begin_op t) (mv {} s (upd_log (\<lambda>l. l\<lparr>lg_outstanding := lg_outstanding l + 1\<rparr>) x))"
proof -
  let ?f = "upd_log (\<lambda>l. l\<lparr>lg_outstanding := lg_outstanding l + 1\<rparr>)"
  obtain u where u: "acquire Log_lock t = Inr u" "mv {Log_lock} s x u"
    using acquire_mv [OF assms(1), of Log_lock] by (auto simp: returns_iff)
  have "returns (release Log_lock (upd_sto ?f u)) (mv {} s (?f x))"
    using mv_upd [OF u(2), of ?f] by (rule release_mv) auto
  then show ?thesis
    using assms(2,3) by (simp add: begin_op_def Let_def u(1) mv_facts(4) [OF u(2)] MAXOPBLOCKS_def LOGSIZE_def)
qed

lemma begin_op_Inr:
  assumes "begin_op t = Inr u" "mv {} s x t"
  shows "mv {} s (upd_log (\<lambda>l. l\<lparr>lg_outstanding := lg_outstanding l + 1\<rparr>) x) u"
    "lh_n (jlog x) + (lg_outstanding (jlog x) + 1) * 10 \<le> 30" "\<not> lg_committing (jlog x)"
proof -
  obtain v where v: "acquire Log_lock t = Inr v" "mv {Log_lock} s x v"
    using acquire_mv [OF assms(2), of Log_lock] by (auto simp: returns_iff)
  show c: "lh_n (jlog x) + (lg_outstanding (jlog x) + 1) * 10 \<le> 30" "\<not> lg_committing (jlog x)"
    using assms(1) by (auto simp: begin_op_def Let_def v(1) mv_facts(4) [OF v(2)] MAXOPBLOCKS_def LOGSIZE_def split: if_splits)
  show "mv {} s (upd_log (\<lambda>l. l\<lparr>lg_outstanding := lg_outstanding l + 1\<rparr>) x) u"
    using begin_op_mv [OF assms(2) c(2,1)] assms(1) by simp
qed

lemma end_op_not_last:
  assumes "mv {} s x t" "\<not> lg_committing (jlog x)" "lg_outstanding (jlog x) \<noteq> 1"
  shows "returns (end_op t) (mv {} s (upd_log (\<lambda>l. l\<lparr>lg_outstanding := lg_outstanding l - 1\<rparr>) x))"
proof -
  let ?f = "upd_log (\<lambda>l. l\<lparr>lg_outstanding := lg_outstanding l - 1\<rparr>)"
  obtain u where u: "acquire Log_lock t = Inr u" "mv {Log_lock} s x u"
    using acquire_mv [OF assms(1), of Log_lock] by (auto simp: returns_iff)
  obtain v where v: "wakeup Chan_log (upd_sto ?f u) = Inr v" "mv {Log_lock} s (?f x) v"
    using wakeup_mv [OF mv_upd [OF u(2), of ?f], of Chan_log] by (auto simp: returns_iff)
  have "returns (release Log_lock v) (mv {} s (?f x))" using v(2) by (rule release_mv) auto
  then show ?thesis
    using assms(2,3) by (simp add: end_op_def Let_def u(1) v(1) mv_facts(4) [OF u(2)])
qed

lemma end_op_last:
  assumes "mv {} s x t" "\<not> lg_committing (jlog x)" "lg_outstanding (jlog x) = 1" "log_inv ls p {} x" "p = mypid s"
  shows "returns (end_op t) (\<lambda>u. \<exists>z W. mv {} s z u \<and> committed ls p x z W \<and>
    lg_outstanding (jlog z) = 0 \<and> \<not> lg_committing (jlog z))"
proof -
  define f where "f = (\<lambda>l :: logst. l\<lparr>lg_outstanding := lg_outstanding l - 1\<rparr>)"
  define g where "g = (\<lambda>l :: logst. l\<lparr>lg_committing := True\<rparr>)"
  define h where "h = (\<lambda>l :: logst. l\<lparr>lg_committing := False\<rparr>)"
  define gf where "gf l = g (f l)" for l
  obtain u where u: "acquire Log_lock t = Inr u" "mv {Log_lock} s x u"
    using acquire_mv [OF assms(1), of Log_lock] by (auto simp: returns_iff)
  let ?x = "upd_log gf x"
  have "upd_log g (upd_log f x) = ?x" by (simp add: gf_def [abs_def])
  then have m: "mv {Log_lock} s ?x (upd_sto (upd_log g) (upd_sto (upd_log f) u))"
    using mv_upd [OF mv_upd [OF u(2), of "upd_log f"], of "upd_log g"] by simp
  obtain v where v: "release Log_lock (upd_sto (upd_log g) (upd_sto (upd_log f) u)) = Inr v" "mv {} s ?x v"
    using release_mv [OF m, of Log_lock "{}"] by (auto simp: returns_iff)
  have gf: "lg_dev (gf l) = lg_dev l \<and> lg_start (gf l) = lg_start l \<and> lg_size (gf l) = lg_size l \<and>
    lh_n (gf l) = lh_n l \<and> lh_block (gf l) = lh_block l" for l by (simp add: gf_def f_def g_def)
  obtain w z W where w: "commit v = Inr w" "mv {} s z w" "committed ls p ?x z W" "jlog z = cleared (jlog ?x)"
    using commit_inv [OF v(2) log_inv_upd(1) [OF assms(4) gf] assms(5)] by (auto simp: returns_iff)
  obtain a where a: "acquire Log_lock w = Inr a" "mv {Log_lock} s z a"
    using acquire_mv [OF w(2), of Log_lock] by (auto simp: returns_iff)
  obtain c where c: "wakeup Chan_log (upd_sto (upd_log h) a) = Inr c" "mv {Log_lock} s (upd_log h z) c"
    using wakeup_mv [OF mv_upd [OF a(2), of "upd_log h"], of Chan_log] by (auto simp: returns_iff)
  obtain e where e: "release Log_lock c = Inr e" "mv {} s (upd_log h z) e"
    using release_mv [OF c(2), of Log_lock "{}"] by (auto simp: returns_iff)
  have "end_op t = Inr e"
    using assms(2,3) u(1) v(1) w(1) a(1) c(1) e(1)
    by (simp add: end_op_def Let_def mv_facts(4) [OF u(2)] f_def g_def h_def)
  moreover have "committed ls p x (upd_log h z) W"
    using committed_upd(2) [OF _ committed_upd(1) [OF gf w(3)], of h] by (simp add: h_def)
  moreover have "lg_outstanding (jlog (upd_log h z)) = 0" "\<not> lg_committing (jlog (upd_log h z))"
    using w(4) assms(3) by (simp_all add: h_def cleared_def gf_def f_def g_def)
  ultimately show ?thesis using e(2) by auto
qed

lemma end_op_Inr:
  assumes "end_op t = Inr u" "mv {} s x t"
  shows "\<not> lg_committing (jlog x)"
proof -
  obtain v where v: "acquire Log_lock t = Inr v" "mv {Log_lock} s x v"
    using acquire_mv [OF assms(2), of Log_lock] by (auto simp: returns_iff)
  show ?thesis
    using assms(1) by (auto simp: end_op_def Let_def v(1) mv_facts(4) [OF v(2)] split: if_splits)
qed

lemma log_update_Inr:
  assumes "log_update n d t = Inr u" "mv {} s x t" "log_inv ls p {} x" "p = mypid s" "n < disksize x"
  shows "lh_n (jlog x) < 29" "1 \<le> lg_outstanding (jlog x)"
proof -
  note i = log_invD [OF assms(3)]
  have cr: "can_read {} x n" using assms(5) i(7) by (intro can_readI) (auto simp: NBUF_def)
  obtain b t1 y where b: "bread 1 n t = Inr (b, t1)" "mv {} s y t1" "got p {} x n b y"
    using bread_mv [OF assms(2) i(1) assms(4) cr] by (auto simp: returns_iff)
  have "jlog y = jlog x" using same_viewD(6) [OF gotD(5) [OF b(3)]] .
  then show "lh_n (jlog x) < 29" "1 \<le> lg_outstanding (jlog x)"
    using assms(1) i(3) mv_facts(4) [OF b(2)]
    by (auto simp: log_update_def b(1) log_write_def Let_def split: if_splits)
qed

section \<open>Histories\<close>

text \<open>
  \<open>log_run ls s t cs\<close>: calls of begin_op, log_update and end_op lead from \<open>s\<close> to \<open>t\<close>, and \<open>cs\<close> are the contents
  of the disk as seen by the operations at the commits, the last one first.
\<close>

inductive log_run :: "nat \<Rightarrow> 'a kst_scheme \<Rightarrow> 'a kst_scheme \<Rightarrow> (nat \<Rightarrow> char list) list \<Rightarrow> bool" for ls s where
  start: "log_run ls s s []"
| begins: "log_run ls s t cs \<Longrightarrow> begin_op t = Inr u \<Longrightarrow> log_run ls s u cs"
| updates: "log_run ls s t cs \<Longrightarrow> n < disksize (sto t) \<Longrightarrow> n \<notin> log_blocks ls \<Longrightarrow> length d = BSIZE \<Longrightarrow>
    log_update n d t = Inr u \<Longrightarrow> log_run ls s u cs"
| ends: "log_run ls s t cs \<Longrightarrow> lg_outstanding (jlog (sto t)) \<noteq> 1 \<Longrightarrow> end_op t = Inr u \<Longrightarrow> log_run ls s u cs"
| commits: "log_run ls s t cs \<Longrightarrow> lg_outstanding (jlog (sto t)) = 1 \<Longrightarrow> end_op t = Inr u \<Longrightarrow>
    log_run ls s u (view (sto t) # cs)"

text \<open>What is known of the state and of the writes since the start.\<close>

definition log_hist :: "nat \<Rightarrow> 'a kst_scheme \<Rightarrow> 'a kst_scheme \<Rightarrow> (nat \<Rightarrow> char list) list \<Rightarrow> (nat \<times> char list) list \<Rightarrow> bool" where
  "log_hist ls s t cs V \<longleftrightarrow> mv {} s (sto t) t \<and> log_inv ls (mypid s) {} (sto t) \<and> disksize (sto t) = disksize (sto s) \<and>
     wtrace (sto t) = wtrace (sto s) @ V \<and> memdisk (sto t) = writes V (memdisk (sto s)) \<and>
     (\<forall>k. log_valid ls (disksize (sto s)) (writes (take k V) (memdisk (sto s))) \<and>
        (\<exists>c \<in> set (cs @ [memdisk (sto s)]). \<forall>n. n \<notin> log_blocks ls \<longrightarrow> durable ls (writes (take k V) (memdisk (sto s))) n = c n)) \<and>
     (\<forall>n. n \<notin> log_blocks ls \<longrightarrow> memdisk (sto t) n = hd (cs @ [memdisk (sto s)]) n)"

lemma log_hist_step:
  assumes "log_hist ls s t cs V" "mv {} s z u" "log_inv ls (mypid s) {} z" "wtrace z = wtrace (sto t)" "memdisk z = memdisk (sto t)"
    "disksize z = disksize (sto t)"
  shows "log_hist ls s u cs V"
proof -
  have u: "sto u = z" using mv_facts(4) [OF assms(2)] .
  show ?thesis using assms unfolding log_hist_def u assms(4-6) by blast
qed

lemma log_hist_commit:
  assumes "log_hist ls s t cs V" "mv {} s z u" "committed ls (mypid s) (sto t) z W"
  shows "log_hist ls s u (view (sto t) # cs) (V @ W)"
proof -
  note h = assms(1) [unfolded log_hist_def] and c = assms(3) [unfolded committed_def]
  let ?D = "memdisk (sto s)" and ?x = "sto t"
  have u: "sto u = z" using mv_facts(4) [OF assms(2)] .
  have m: "memdisk ?x = writes V ?D" using h by simp
  have "log_valid ls (disksize (sto s)) (writes (take k (V @ W)) ?D) \<and>
     (\<exists>c \<in> set ((view ?x # cs) @ [?D]). \<forall>n. n \<notin> log_blocks ls \<longrightarrow> durable ls (writes (take k (V @ W)) ?D) n = c n)" for k
  proof (cases "k \<le> length V")
    case True
    then show ?thesis using h by auto
  next
    case False
    let ?j = "k - length V"
    have e: "writes (take k (V @ W)) ?D = writes (take ?j W) (memdisk ?x)" using False m by simp
    have v: "log_valid ls (disksize (sto s)) (writes (take ?j W) (memdisk ?x))" using c h by simp
    have "\<exists>c \<in> set ((view ?x # cs) @ [?D]). \<forall>n. n \<notin> log_blocks ls \<longrightarrow> durable ls (writes (take ?j W) (memdisk ?x)) n = c n"
    proof (cases "?j \<le> length (logged ?x)")
      case True
      moreover have "hd (cs @ [?D]) \<in> set ((view ?x # cs) @ [?D])" using hd_in_set [of "cs @ [?D]"] by auto
      ultimately show ?thesis using c h by (intro bexI [of _ "hd (cs @ [?D])"]) auto
    qed (use c in auto)
    then show ?thesis unfolding e using v by blast
  qed
  then show ?thesis
    using h c assms(2) unfolding log_hist_def u by auto
qed

lemma log_run_hist:
  assumes "log_run ls s t cs" "held {} s" "log_inv ls (mypid s) {} (sto s)" "logged (sto s) = []"
  shows "\<exists>V. log_hist ls s t cs V"
  using assms(1)
proof (induction rule: log_run.induct)
  case start
  have h: "header [] (memdisk (sto s) ls)" using log_invD(5) [OF assms(3)] .
  show ?case
    using assms(2,3) durable_idle [where D = "memdisk (sto s)", OF h] log_valid_idle [where D = "memdisk (sto s)", OF h]
    by (intro exI [of _ "[]"]) (simp add: log_hist_def)
next
  case (begins t cs u)
  obtain V where V: "log_hist ls s t cs V" using begins.IH ..
  then have h: "mv {} s (sto t) t" "log_inv ls (mypid s) {} (sto t)" by (simp_all add: log_hist_def)
  have "log_inv ls (mypid s) {} (upd_log (\<lambda>l. l\<lparr>lg_outstanding := lg_outstanding l + 1\<rparr>) (sto t))"
    using h(2) by (rule log_inv_upd(1)) simp
  then show ?case using log_hist_step [OF V begin_op_Inr(1) [OF begins.hyps(2) h(1)]] by auto
next
  case (updates t cs n d u)
  obtain V where V: "log_hist ls s t cs V" using updates.IH ..
  then have h: "mv {} s (sto t) t" "log_inv ls (mypid s) {} (sto t)" by (simp_all add: log_hist_def)
  note p = log_update_Inr [OF updates.hyps(5) h refl updates.hyps(2)]
  obtain z where "mv {} s z u" "log_inv ls (mypid s) {} z" "memdisk z = memdisk (sto t)" "wtrace z = wtrace (sto t)" "disksize z = disksize (sto t)"
    using log_update_mv [OF h refl updates.hyps(2-4) p] unfolding updates.hyps(5) returns_Inr by blast
  then show ?case using log_hist_step [OF V] by blast
next
  case (ends t cs u)
  obtain V where V: "log_hist ls s t cs V" using ends.IH ..
  then have h: "mv {} s (sto t) t" "log_inv ls (mypid s) {} (sto t)" by (simp_all add: log_hist_def)
  have m: "mv {} s (upd_log (\<lambda>l. l\<lparr>lg_outstanding := lg_outstanding l - 1\<rparr>) (sto t)) u"
    using end_op_not_last [OF h(1) end_op_Inr [OF ends.hyps(3) h(1)] ends.hyps(2)] ends.hyps(3) by simp
  have "log_inv ls (mypid s) {} (upd_log (\<lambda>l. l\<lparr>lg_outstanding := lg_outstanding l - 1\<rparr>) (sto t))"
    using h(2) by (rule log_inv_upd(1)) simp
  then show ?case using log_hist_step [OF V m] by auto
next
  case (commits t cs u)
  obtain V where V: "log_hist ls s t cs V" using commits.IH ..
  then have h: "mv {} s (sto t) t" "log_inv ls (mypid s) {} (sto t)" by (simp_all add: log_hist_def)
  obtain z W where "mv {} s z u" "committed ls (mypid s) (sto t) z W"
    using end_op_last [OF h(1) end_op_Inr [OF commits.hyps(3) h(1)] commits.hyps(2) h(2) refl] unfolding commits.hyps(3) returns_Inr by blast
  then show ?case using log_hist_commit [OF V] by blast
qed

end
