(* ===== verification/Blocks.thy ===== *)
theory Blocks
  imports Prelude
begin

text \<open>
  The interface of a store of blocks: reading returns what the store holds and changes nothing, writing
  changes one block. A series of requests to such a store gives the answers that an array of blocks gives.
\<close>

datatype request = Read nat | Write nat "char list"

fun serve :: "(nat \<Rightarrow> 's \<Rightarrow> (char list \<times> 's) res) \<Rightarrow> (nat \<Rightarrow> char list \<Rightarrow> 's \<Rightarrow> 's res) \<Rightarrow> request list \<Rightarrow> 's \<Rightarrow> (char list list \<times> 's) res" where
  "serve rd wr [] s = Inr ([], s)"
| "serve rd wr (Read n # rs) s = bindr (rd n s) (\<lambda>(d, s). bindr (serve rd wr rs s) (\<lambda>(ds, s). Inr (d # ds, s)))"
| "serve rd wr (Write n d # rs) s = bindr (wr n d s) (serve rd wr rs)"

fun array_serve :: "request list \<Rightarrow> (nat \<Rightarrow> char list) \<Rightarrow> char list list \<times> (nat \<Rightarrow> char list)" where
  "array_serve [] a = ([], a)"
| "array_serve (Read n # rs) a = (let (ds, b) = array_serve rs a in (a n # ds, b))"
| "array_serve (Write n d # rs) a = array_serve rs (a(n := d))"

fun fits :: "nat \<Rightarrow> request \<Rightarrow> bool" where
  "fits k (Read n) \<longleftrightarrow> n < k"
| "fits k (Write n d) \<longleftrightarrow> n < k \<and> length d = 512"

locale block_store =
  fixes ok :: "'s \<Rightarrow> bool" and blocks :: "'s \<Rightarrow> nat" and look :: "'s \<Rightarrow> nat \<Rightarrow> char list"
    and rd :: "nat \<Rightarrow> 's \<Rightarrow> (char list \<times> 's) res" and wr :: "nat \<Rightarrow> char list \<Rightarrow> 's \<Rightarrow> 's res"
  assumes rd_law: "ok s \<Longrightarrow> n < blocks s \<Longrightarrow> returns (rd n s) (\<lambda>(d, t). d = look s n \<and> ok t \<and> look t = look s \<and> blocks t = blocks s)"
    and wr_law: "ok s \<Longrightarrow> n < blocks s \<Longrightarrow> length d = 512 \<Longrightarrow>
      returns (wr n d s) (\<lambda>t. ok t \<and> look t = (look s)(n := d) \<and> blocks t = blocks s)"
begin

lemma serve_array:
  assumes "ok s" "\<forall>r \<in> set rs. fits (blocks s) r"
  shows "returns (serve rd wr rs s) (\<lambda>(ds, t). ok t \<and> blocks t = blocks s \<and> array_serve rs (look s) = (ds, look t))"
  using assms
proof (induction rs arbitrary: s)
  case (Cons r rs)
  show ?case
  proof (cases r)
    case (Read n)
    obtain t where t: "rd n s = Inr (look s n, t)" "ok t" "look t = look s" "blocks t = blocks s"
      using rd_law [of s n] Cons.prems Read by (auto simp: returns_iff)
    show ?thesis using Cons.IH [of t] Cons.prems(2) t by (auto simp: Read returns_iff)
  next
    case (Write n d)
    obtain t where t: "wr n d s = Inr t" "ok t" "look t = (look s)(n := d)" "blocks t = blocks s"
      using wr_law [of s n d] Cons.prems Write by (auto simp: returns_iff)
    show ?thesis using Cons.IH [of t] Cons.prems(2) t(2,4) unfolding t(3) by (auto simp: Write t(1) returns_iff simp del: fun_upd_apply)
  qed
qed simp

end

end
