(* ===== verification/Boot.thy ===== *)
theory Boot
  imports LogTx Blocks
begin

text \<open>
  The start of the storage stack: binit (bio.c) builds a good cache from zeroed tables, and initlog (log.c)
  recovers whatever a crash left. Together with the histories of the log this gives the crash
  safety of the file system blocks.
\<close>

declare One_nat_def [simp del]

section \<open>binit\<close>

lemma initlock_mv:
  assumes "mv L s x t" "l \<notin> L"
  shows "mv L s x (initlock l name t)"
proof -
  note h = mvD [OF assms(1)]
  have e: "this_cpu (initlock l name t) = this_cpu t" "cur (initlock l name t) = cur t"
    by (simp_all add: initlock_def upd_lock_def this_cpu_def cur_def split: option.split)
  have "held L (initlock l name t)"
    using h(1) e assms(2) unfolding held_def
    by (auto simp: initlock_def upd_lock_def mach_ok_def holds_def free_def readeflags_if_def split: option.splits)
  moreover have "kframe t (initlock l name t)" by (auto simp: kframe_def others_def initlock_def upd_lock_def)
  moreover have "sto (initlock l name t) = x" using h(3) by (simp add: initlock_def upd_lock_def)
  ultimately show ?thesis using h(2) by (auto intro: kframe_trans)
qed

definition new_lock :: "nat \<Rightarrow> storage \<Rightarrow> storage" where
  "new_lock b = upd_sleep (Buf_lock b) (\<lambda>_. \<lparr>sl_locked = 0, sl_name = ''buffer'', sl_pid = 0\<rparr>)"

definition linked :: "storage \<Rightarrow> storage" where
  "linked x = fold (\<lambda>b x. new_lock b (link_buf b x)) [0..<NBUF]
     (upd_buf bc_head (\<lambda>x. x\<lparr>b_next := bc_head\<rparr>) (upd_buf bc_head (\<lambda>x. x\<lparr>b_prev := bc_head\<rparr>) x))"

lemma binit_mv:
  assumes "mv {} s x t"
  shows "mv {} s (linked x) (binit t)"
proof -
  have step: "mv {} s (fold (\<lambda>b x. new_lock b (link_buf b x)) bs y)
      (fold (\<lambda>b s. initsleeplock (Buf_lock b) ''buffer'' (upd_sto (link_buf b) s)) bs u)" if "mv {} s y u" for bs y u
    using that
  proof (induction bs arbitrary: y u)
    case (Cons b bs)
    have "mv {} s (link_buf b y) (initlock (Sleep_lk (Buf_lock b)) ''sleep lock'' (upd_sto (link_buf b) u))"
      using mv_upd [OF Cons.prems, of "link_buf b"] by (rule initlock_mv) simp
    from mv_upd [OF this, of "new_lock b"]
    have "mv {} s (new_lock b (link_buf b y)) (initsleeplock (Buf_lock b) ''buffer'' (upd_sto (link_buf b) u))"
      by (simp add: initsleeplock_def new_lock_def)
    then show ?case using Cons.IH by simp
  qed simp
  have "mv {} s x (initlock Bcache_lock ''bcache'' t)" using assms by (rule initlock_mv) simp
  then have "mv {} s (upd_buf bc_head (\<lambda>x. x\<lparr>b_next := bc_head\<rparr>) (upd_buf bc_head (\<lambda>x. x\<lparr>b_prev := bc_head\<rparr>) x))
     (upd_sto (upd_buf bc_head (\<lambda>x. x\<lparr>b_next := bc_head\<rparr>)) (upd_sto (upd_buf bc_head (\<lambda>x. x\<lparr>b_prev := bc_head\<rparr>)) (initlock Bcache_lock ''bcache'' t)))"
    by (intro mv_upd)
  then show ?thesis unfolding binit_def linked_def Let_def by (rule step)
qed

lemma new_lock_other [simp]: "bufs (new_lock b x) = bufs x" "memdisk (new_lock b x) = memdisk x" "disksize (new_lock b x) = disksize x"
  "wtrace (new_lock b x) = wtrace x" "jlog (new_lock b x) = jlog x"
  "sleeps (new_lock b x) = (sleeps x)(Buf_lock b := \<lparr>sl_locked = 0, sl_name = ''buffer'', sl_pid = 0\<rparr>)"
  by (simp_all add: new_lock_def upd_sleep_def)

lemma link_buf_other [simp]: "sleeps (link_buf b x) = sleeps x" "memdisk (link_buf b x) = memdisk x" "disksize (link_buf b x) = disksize x"
  "wtrace (link_buf b x) = wtrace x" "jlog (link_buf b x) = jlog x"
  by (simp_all add: link_buf_def Let_def)

lemma linking:
  assumes "n \<le> NBUF" "b_next (bufs x bc_head) = bc_head" "b_prev (bufs x bc_head) = bc_head"
  defines "y \<equiv> fold (\<lambda>b x. new_lock b (link_buf b x)) [0..<n] x"
  shows "chain (\<lambda>i. b_next (bufs y i)) (\<lambda>i. b_prev (bufs y i)) bc_head (rev [0..<n]) bc_head" (is ?C)
    "core (bufs y i) = core (bufs x i)" (is ?K) "memdisk y = memdisk x" "disksize y = disksize x" "jlog y = jlog x"
    "wtrace y = wtrace x" "j < n \<Longrightarrow> sl_locked (sleeps y (Buf_lock j)) = 0"
proof -
  have "?C \<and> ?K \<and> memdisk y = memdisk x \<and> disksize y = disksize x \<and> jlog y = jlog x \<and> wtrace y = wtrace x \<and>
      (\<forall>j < n. sl_locked (sleeps y (Buf_lock j)) = 0)"
    using assms(1) unfolding y_def
  proof (induction n)
    case 0
    then show ?case using assms(2,3) by simp
  next
    case (Suc n)
    define z where "z = fold (\<lambda>b x. new_lock b (link_buf b x)) [0..<n] x"
    have IH: "chain (\<lambda>i. b_next (bufs z i)) (\<lambda>i. b_prev (bufs z i)) bc_head (rev [0..<n]) bc_head"
      "core (bufs z i) = core (bufs x i)" "memdisk z = memdisk x" "disksize z = disksize x" "jlog z = jlog x" "wtrace z = wtrace x"
      "\<forall>j < n. sl_locked (sleeps z (Buf_lock j)) = 0"
      using Suc z_def by auto
    have n: "n \<noteq> bc_head" using Suc.prems by (simp add: bc_head_def)
    have "chain ((\<lambda>i. b_next (bufs z i))(n := b_next (bufs z bc_head), bc_head := n))
        ((\<lambda>i. b_prev (bufs z i))(n := bc_head, b_next (bufs z bc_head) := n)) bc_head (n # rev [0..<n]) bc_head"
      using IH(1) Suc.prems by (intro chain_insert) (auto simp: bc_head_def)
    then have "chain (\<lambda>i. b_next (bufs (link_buf n z) i)) (\<lambda>i. b_prev (bufs (link_buf n z) i)) bc_head (n # rev [0..<n]) bc_head"
      unfolding link_buf_links [OF n] .
    then show ?case using IH(2-7) by (auto simp: z_def [symmetric] less_Suc_eq)
  qed
  then show ?C ?K "memdisk y = memdisk x" "disksize y = disksize x" "jlog y = jlog x"
    "wtrace y = wtrace x" "j < n \<Longrightarrow> sl_locked (sleeps y (Buf_lock j)) = 0" by simp_all
qed

lemma linked_ok:
  shows "lru (bufs (linked x)) (rev [0..<NBUF])" "core (bufs (linked x) i) = core (bufs x i)" "memdisk (linked x) = memdisk x"
    "disksize (linked x) = disksize x" "jlog (linked x) = jlog x" "wtrace (linked x) = wtrace x"
    "j < NBUF \<Longrightarrow> sl_locked (sleeps (linked x) (Buf_lock j)) = 0"
proof -
  define y where "y = upd_buf bc_head (\<lambda>x. x\<lparr>b_next := bc_head\<rparr>) (upd_buf bc_head (\<lambda>x. x\<lparr>b_prev := bc_head\<rparr>) x)"
  have h: "b_next (bufs y bc_head) = bc_head" "b_prev (bufs y bc_head) = bc_head" by (simp_all add: y_def)
  have l: "linked x = fold (\<lambda>b x. new_lock b (link_buf b x)) [0..<NBUF] y" by (simp add: linked_def y_def)
  note k = linking [OF order_refl h, folded l]
  show "lru (bufs (linked x)) (rev [0..<NBUF])" using k(1) by (auto simp: lru_def)
  have "core (bufs y i) = core (bufs x i)" by (simp add: y_def)
  then show "core (bufs (linked x) i) = core (bufs x i)" using k(2) by simp
  show "memdisk (linked x) = memdisk x" "disksize (linked x) = disksize x" "jlog (linked x) = jlog x" "wtrace (linked x) = wtrace x"
    "j < NBUF \<Longrightarrow> sl_locked (sleeps (linked x) (Buf_lock j)) = 0"
    using k(3-7) by (simp_all add: y_def)
qed

text \<open>Buffers that have never been used.\<close>

definition fresh :: "storage \<Rightarrow> bool" where
  "fresh x \<longleftrightarrow> (\<forall>i < NBUF. b_flags (bufs x i) = 0 \<and> b_dev (bufs x i) = 0 \<and> b_refcnt (bufs x i) = 0 \<and> length (b_data (bufs x i)) = BSIZE) \<and>
     (\<forall>n. length (memdisk x n) = BSIZE)"

lemma linked_bc:
  assumes "fresh x"
  shows "bc p {} (linked x)" "dirtyb (linked x) = {}"
proof -
  have c: "b_flags (bufs (linked x) i) = 0" "b_dev (bufs (linked x) i) = 0" "b_refcnt (bufs (linked x) i) = 0"
    "length (b_data (bufs (linked x) i)) = BSIZE" if "i < NBUF" for i
    using assms that core_eqs [OF linked_ok(2) [where x = x and i = i]] by (auto simp: fresh_def)
  have "length (memdisk (linked x) n) = BSIZE" for n using assms by (simp add: fresh_def linked_ok(3))
  then show "bc p {} (linked x)"
    using c linked_ok(1,7) [where x = x] unfolding bc_def buf_rest_def caches_def by auto
  show "dirtyb (linked x) = {}" using c by (auto simp: dirtyb_def)
qed

section \<open>initlog\<close>

text \<open>Reading a block and giving it back.\<close>

lemma bread_brelse:
  assumes "mv {} s x t" "bc p H x" "p = mypid s" "can_read H x n"
  obtains b t1 y u z where "bread 1 n t = Inr (b, t1)" "mv {} s y t1" "b_data (bufs y b) = view x n" "same_view x y"
    "brelse b t1 = Inr u" "mv {} s z u" "bc p H z" "same_view x z" "dblocks z = dblocks x" "dirtyb z = dirtyb x"
    "\<forall>h \<in> H. core (bufs z h) = core (bufs x h)"
proof -
  obtain b t1 y where b: "bread 1 n t = Inr (b, t1)" "mv {} s y t1" "got p H x n b y"
    using bread_mv [OF assms] by (auto simp: returns_iff)
  note g = gotD [OF b(3)]
  have h: "b \<in> insert b H" by simp
  have c: "b \<in> dirtyb y \<or> b_data (bufs y b) = memdisk y (b_blockno (bufs y b))"
    using got_clean [OF b(3) assms(2)] g(9) assms(4) by (auto simp: can_read_def)
  obtain u where u: "brelse b t1 = Inr u" "mv {} s (released b y) u"
    using brelse_mv [OF b(2) g(2) assms(3) h] by (auto simp: returns_iff)
  note r = released_ok [OF g(2) h c]
  have hh: "insert b H - {b} = H" using g(1) by simp
  have "\<forall>k \<in> H. core (bufs (released b y) k) = core (bufs x k)" using r(4) g(1,8) by metis
  moreover have "same_view x (released b y)" using g(5) r(2) by (rule same_view_trans)
  ultimately show ?thesis
    using that [OF b(1,2) g(4,5) u] r(1,3) g(6,7) dblocks_released [OF g(2) h c] unfolding hh by auto
qed

lemma readsb_mv:
  assumes "mv {} s x t" "bc p {} x" "p = mypid s" "can_read {} x 1"
  shows "returns (readsb 1 t) (\<lambda>(r, u). r = sb_of (view x 1) \<and> (\<exists>z. mv {} s z u \<and> bc p {} z \<and> same_view x z \<and> dirtyb z = dirtyb x \<and> dblocks z = dblocks x))"
proof -
  obtain b t1 y u z where b: "bread 1 1 t = Inr (b, t1)" "mv {} s y t1" "b_data (bufs y b) = view x 1" "same_view x y"
    "brelse b t1 = Inr u" "mv {} s z u" "bc p {} z" "same_view x z" "dblocks z = dblocks x" "dirtyb z = dirtyb x"
    by (rule bread_brelse [OF assms]) auto
  show ?thesis using b by (auto simp: readsb_def Let_def mv_facts(4) [OF b(2)])
qed

text \<open>A kernel that has built its cache and not touched the disk, over a disk with a log at \<open>ls\<close>.\<close>

definition booted :: "nat \<Rightarrow> int \<Rightarrow> storage \<Rightarrow> bool" where
  "booted ls p x \<longleftrightarrow> bc p {} x \<and> dirtyb x = {} \<and> length (lh_block (jlog x)) = LOGSIZE \<and> 1 < disksize x \<and>
     ls + LOGSIZE \<le> disksize x \<and> disksize x < 2 ^ 31 \<and>
     sb_logstart (sb_of (memdisk x 1)) = ls \<and> sb_nlog (sb_of (memdisk x 1)) = LOGSIZE"

lemma initlog_mv:
  assumes "mv {} s x t" "p = mypid s" "booted ls p x" "header ns (memdisk x ls)" "length ns < LOGSIZE" "distinct ns"
    "\<forall>n \<in> set ns. n < disksize x \<and> n \<notin> log_blocks ls" "ds = map (\<lambda>i. memdisk x (ls + i + 1)) [0..<length ns]"
  shows "returns (initlog 1 t) (\<lambda>u. \<exists>z h0. mv {} s z u \<and> header [] h0 \<and> log_inv ls p {} z \<and> logged z = [] \<and> disksize z = disksize x \<and>
    memdisk z = writes (recovery_writes ls ns ds h0) (memdisk x) \<and> wtrace z = wtrace x @ recovery_writes ls ns ds h0)"
proof -
  note k = assms(3) [unfolded booted_def]
  have bc: "bc p {} x" using k by simp
  have db: "dblocks x = {}" using k by (simp add: dblocks_def)
  have vw: "view x = memdisk x" using clean_view [OF bc] db by auto
  have cr: "can_read {} x 1" using k by (intro can_readI) (auto simp: NBUF_def)
  have "mv {} s x (initlock Log_lock ''log'' t)" using assms(1) by (rule initlock_mv) simp
  then obtain u y where u: "readsb 1 (initlock Log_lock ''log'' t) = Inr (sb_of (memdisk x 1), u)" "mv {} s y u" "bc p {} y" "same_view x y"
    "dirtyb y = dirtyb x" "dblocks y = dblocks x"
    using readsb_mv [OF _ bc assms(2) cr] vw by (fastforce simp: returns_iff)
  note sv = same_viewD [OF u(4)]
  define f where "f = (\<lambda>l :: logst. l\<lparr>lg_start := i32 (sb_logstart (sb_of (memdisk x 1))), lg_size := i32 (sb_nlog (sb_of (memdisk x 1))), lg_dev := i32 1\<rparr>)"
  have fl: "lg_start (f l) = int ls" "lg_size (f l) = 30" "lg_dev (f l) = 1" "lh_block (f l) = lh_block l" for l
    using k by (simp_all add: f_def i32_def LOGSIZE_def)
  have m: "mv {} s (upd_log f y) (upd_sto (upd_log f) u)" using u(2) by (rule mv_upd)
  obtain v z h0 bl where v: "recover_from_log (upd_sto (upd_log f) u) = Inr v" "mv {} s z v" "header [] h0" "length bl = LOGSIZE"
    "wrotes p (recovery_writes ls ns ds h0) (upd_log (\<lambda>l. l\<lparr>lh_n := 0, lh_block := bl\<rparr>) (upd_log f y)) z"
    using recover_mv [OF m _ assms(2), of ls ns ds] u(3,5) fl k sv(2,5,6) assms(4-8) by (fastforce simp: returns_iff)
  note w = wrotesD [OF v(5), simplified]
  have jz: "jlog z = (f (jlog y))\<lparr>lh_n := 0, lh_block := bl\<rparr>" "disksize z = disksize x" using w(6) sv(5) by (simp_all add: fs_same_def)
  have lz: "lg_ok ls z" "logged z = []"
    using jz fl v(4) k by (simp_all add: lg_ok_def logged_def LOGSIZE_def)
  have "header [] (memdisk z ls)" using w(3) v(3) by (simp add: recovery_writes_def)
  then have "log_inv ls p {} z"
    using w(1,5) lz jz fl u(6) db by (simp add: log_inv_def LOGSIZE_def)
  moreover have "initlog 1 t = Inr v"
    using u(1) v(1) by (simp add: initlog_def Let_def LOGSIZE_def BSIZE_def f_def)
  ultimately show ?thesis using v(2,3) lz(2) jz(2) w(3,4) sv(2,3) by auto
qed

section \<open>Properties\<close>

text \<open>
  C13. Recovery. On a kernel that has just built its cache, over any disk whose log header names
  distinct blocks outside the log, initlog returns, clears the log, and leaves every other block with the contents that the
  log committed. It may be interrupted as well: after any prefix of its writes the disk still means the same.
\<close>
theorem initlog_recovers:
  assumes "held {} s" "booted ls (mypid s) (sto s)" "log_valid ls (disksize (sto s)) (memdisk (sto s))"
  shows "\<exists>t W. initlog 1 s = Inr t \<and> log_inv ls (mypid s) {} (sto t) \<and> logged (sto t) = [] \<and>
    memdisk (sto t) = writes W (memdisk (sto s)) \<and>
    (\<forall>n. n \<notin> log_blocks ls \<longrightarrow> view (sto t) n = durable ls (memdisk (sto s)) n \<and>
       (\<forall>k. durable ls (writes (take k W) (memdisk (sto s))) n = durable ls (memdisk (sto s)) n))"
proof -
  let ?D = "memdisk (sto s)"
  obtain ns where ns: "header ns (?D ls)" "length ns < LOGSIZE" "distinct ns" "\<forall>n \<in> set ns. n < disksize (sto s) \<and> n \<notin> log_blocks ls"
    using assms(3) by (auto simp: log_valid_def)
  define ds where "ds = map (\<lambda>i. ?D (ls + i + 1)) [0..<length ns]"
  have m: "mv {} s (sto s) s" using assms(1) by simp
  obtain t z h0 where t: "initlog 1 s = Inr t" "mv {} s z t" "header [] h0" "log_inv ls (mypid s) {} z" "logged z = []"
    "memdisk z = writes (recovery_writes ls ns ds h0) ?D"
    using initlog_mv [OF m refl assms(2) ns ds_def] by (auto simp: returns_iff)
  let ?W = "recovery_writes ls ns ds h0"
  have ne: "set ns \<inter> log_blocks ls = {}" using ns(4) by blast
  have at: "durable ls (writes (take k ?W) ?D) n = durable ls ?D n" if "n \<notin> log_blocks ls" for k n
    using recovery_atomic [where D = ?D, OF ns(1,3) ne ns(2) ds_def t(3) that] .
  have "view z n = durable ls ?D n" if "n \<notin> log_blocks ls" for n
    using inv_view [OF t(4)] t(5,6) at [OF that, of "length ?W"] durable_idle [where D = "memdisk z", OF log_invD(5) [OF t(4)]] by simp
  then show ?thesis
    using t at mv_facts(4) [OF t(2)] by (intro exI [of _ t] exI [of _ ?W]) auto
qed

text \<open>
  C2. Crash safety. Take any history of begin_op, block updates through log_write, and end_op, by any number of
  operations, that starts with an empty log, and cut its disk writes off at any point, also inside a
  commit. A kernel that boots from that disk and runs initlog finds, outside the log, exactly the blocks as they were seen
  at one of the commits of the history, or at its start: never a part of a transaction.
\<close>
theorem log_crash_safe:
  assumes "log_run ls s t cs" "held {} s" "log_inv ls (mypid s) {} (sto s)" "logged (sto s) = []"
    "wtrace (sto t) = wtrace (sto s) @ V"
    "held {} r" "booted ls (mypid r) (sto r)" "memdisk (sto r) = writes (take k V) (memdisk (sto s))" "disksize (sto r) = disksize (sto s)"
  shows "\<exists>u. initlog 1 r = Inr u \<and>
    (\<exists>c \<in> set (cs @ [memdisk (sto s)]). \<forall>n. n \<notin> log_blocks ls \<longrightarrow> view (sto u) n = c n \<and> memdisk (sto u) n = c n)"
proof -
  let ?D = "memdisk (sto r)"
  obtain V' where "log_hist ls s t cs V'" using log_run_hist [OF assms(1-4)] by blast
  moreover from this have "V' = V" using assms(5) by (simp add: log_hist_def)
  ultimately obtain c where c: "c \<in> set (cs @ [memdisk (sto s)])" "\<forall>n. n \<notin> log_blocks ls \<longrightarrow> durable ls ?D n = c n"
    and v: "log_valid ls (disksize (sto r)) ?D"
    unfolding log_hist_def assms(8,9) by blast
  obtain ns where ns: "header ns (?D ls)" "length ns < LOGSIZE" "distinct ns" "\<forall>n \<in> set ns. n < disksize (sto r) \<and> n \<notin> log_blocks ls"
    using v by (auto simp: log_valid_def)
  define ds where "ds = map (\<lambda>i. ?D (ls + i + 1)) [0..<length ns]"
  have m: "mv {} r (sto r) r" using assms(6) by simp
  obtain u z h0 where u: "initlog 1 r = Inr u" "mv {} r z u" "header [] h0" "log_inv ls (mypid r) {} z" "logged z = []"
    "memdisk z = writes (recovery_writes ls ns ds h0) ?D"
    using initlog_mv [OF m refl assms(7) ns ds_def] by (auto simp: returns_iff)
  have ne: "set ns \<inter> log_blocks ls = {}" using ns(4) by blast
  have "memdisk z n = c n" if "n \<notin> log_blocks ls" for n
    using recovery_atomic [where D = ?D, OF ns(1,3) ne ns(2) ds_def u(3) that, of "length (recovery_writes ls ns ds h0)"]
      u(6) durable_idle [where D = "memdisk z", OF log_invD(5) [OF u(4)]] c(2) that by simp
  moreover have "view z n = memdisk z n" for n using inv_view [OF u(4)] u(5) by simp
  ultimately show ?thesis using u(1) c(1) mv_facts(4) [OF u(2)] by (intro exI [of _ u]) auto
qed

section \<open>A small disk\<close>

text \<open>1000 blocks, all zero but the superblock, which puts a log of 30 blocks at block 2.\<close>

definition super1 :: "char list" where
  "super1 = put32 (put32 (replicate 512 nul) 12 30) 16 2"

definition disk1 :: "nat \<Rightarrow> char list" where
  "disk1 n = (if n = 1 then super1 else replicate 512 nul)"

definition boot1 :: "(nat \<Rightarrow> char list) \<Rightarrow> storage" where
  "boot1 D = linked (sto0\<lparr>memdisk := D\<rparr>)"

definition idle1 :: storage where
  "idle1 = linked (sto0\<lparr>memdisk := disk1, jlog := \<lparr>lg_start = 2, lg_size = 30, lg_outstanding = 0, lg_committing = False,
     lg_dev = 1, lh_n = 0, lh_block = replicate LOGSIZE 0\<rparr>\<rparr>)"

lemma blank: "get32 (replicate 512 nul) 0 = 0" "header [] (replicate 512 nul)"
proof -
  show "get32 (replicate 512 nul) 0 = 0" by (simp add: get32_def slice_def numeral_eq_Suc)
  then show "header [] (replicate 512 nul)" by (simp add: header_def)
qed

lemma super1: "sb_logstart (sb_of super1) = 2" "sb_nlog (sb_of super1) = 30" "length super1 = 512"
  by (simp_all add: super1_def sb_of_def)

lemma length_disk1 [simp]: "length (disk1 n) = 512"
  by (simp add: disk1_def super1)

lemma fresh_sto0: "(\<And>n. length (D n) = 512) \<Longrightarrow> fresh (sto0\<lparr>memdisk := D\<rparr>)" "(\<And>n. length (D n) = 512) \<Longrightarrow> fresh (sto0\<lparr>memdisk := D, jlog := l\<rparr>)"
  by (simp_all add: fresh_def sto0_def BSIZE_def)

lemma booted1:
  assumes "\<And>n. length (D n) = 512" "D 1 = super1"
  shows "booted 2 p (boot1 D)" "memdisk (boot1 D) = D" "disksize (boot1 D) = 1000"
  using linked_bc [OF fresh_sto0(1) [OF assms(1)]] assms(2) super1
  by (simp_all add: booted_def boot1_def linked_ok sto0_def LOGSIZE_def)

lemma idle1: "log_inv 2 p {} idle1" "logged idle1 = []" "memdisk idle1 = disk1" "disksize idle1 = 1000"
    "lg_outstanding (jlog idle1) = 0" "\<not> lg_committing (jlog idle1)" "lh_n (jlog idle1) = 0" "wtrace idle1 = []"
proof -
  let ?x = "sto0\<lparr>memdisk := disk1, jlog := \<lparr>lg_start = 2, lg_size = 30, lg_outstanding = 0, lg_committing = False,
     lg_dev = 1, lh_n = 0, lh_block = replicate LOGSIZE 0\<rparr>\<rparr>"
  show f: "memdisk idle1 = disk1" "disksize idle1 = 1000" "lg_outstanding (jlog idle1) = 0" "\<not> lg_committing (jlog idle1)"
    "lh_n (jlog idle1) = 0" "wtrace idle1 = []"
    by (simp_all add: idle1_def linked_ok sto0_def)
  then show l: "logged idle1 = []" by (simp add: logged_def)
  have "fresh ?x" by (rule fresh_sto0(2)) simp
  note b = linked_bc [OF this]
  have "lg_ok 2 idle1" using f l by (simp add: lg_ok_def idle1_def linked_ok LOGSIZE_def)
  then show "log_inv 2 p {} idle1"
    using b l blank by (simp add: log_inv_def idle1_def linked_ok dblocks_def LOGSIZE_def disk1_def)
qed

lemma boot_disk1: "log_valid 2 1000 disk1" "header [] (disk1 2)"
proof -
  show h: "header [] (disk1 2)" using blank(2) by (simp add: disk1_def)
  show "log_valid 2 1000 disk1" using h by (rule log_valid_idle)
qed

theorem initlog_recovers_witness:
  "\<exists>t W. initlog 1 (kst_of (boot1 disk1)) = Inr t \<and> logged (sto t) = [] \<and> memdisk (sto t) = writes W disk1 \<and> view (sto t) 1 = super1"
proof -
  have D: "disk1 1 = super1" by (simp add: disk1_def)
  note b = booted1 [of disk1, OF length_disk1 D]
  have e: "durable 2 disk1 1 = super1" using durable_idle [where D = disk1, OF boot_disk1(2)] D by simp
  have n: "(1 :: nat) \<notin> log_blocks 2" by (simp add: log_blocks_def)
  have "held {} (kst_of (boot1 disk1))" "booted 2 (mypid (kst_of (boot1 disk1))) (sto (kst_of (boot1 disk1)))"
    "log_valid 2 (disksize (sto (kst_of (boot1 disk1)))) (memdisk (sto (kst_of (boot1 disk1))))"
    using b boot_disk1 by simp_all
  from initlog_recovers [OF this] show ?thesis using b(2) e n by fastforce
qed

theorem log_crash_safe_witness:
  "\<exists>(s :: kst) t V (r :: kst) u cs c. log_run 2 s t cs \<and> length cs = 1 \<and> memdisk (sto r) = writes V (memdisk (sto s)) \<and> held {} r \<and>
    initlog 1 r = Inr u \<and> c \<in> set (cs @ [disk1]) \<and> (\<forall>n. n \<notin> log_blocks 2 \<longrightarrow> view (sto u) n = c n)"
proof -
  let ?s = "kst_of idle1" and ?d = "replicate 512 (CHR ''x'')"
  note i = idle1
  have m: "mv {} ?s idle1 ?s" by simp
  let ?x = "upd_log (\<lambda>l. l\<lparr>lg_outstanding := lg_outstanding l + 1\<rparr>) idle1"
  obtain t1 where t1: "begin_op ?s = Inr t1" "mv {} ?s ?x t1"
    using begin_op_mv [OF m] i by (auto simp: returns_iff)
  have x: "log_inv 2 (mypid ?s) {} ?x" by (rule log_inv_upd(1) [OF i(1)]) simp
  obtain t2 y where t2: "log_update 100 ?d t1 = Inr t2" "mv {} ?s y t2" "log_inv 2 (mypid ?s) {} y" "disksize y = 1000"
      "jlog y = add_block 100 (jlog ?x)" "view y = (view ?x)(100 := ?d)"
    using log_update_mv [OF t1(2) x refl, of 100 ?d] i by (auto simp: returns_iff log_blocks_def LOGSIZE_def BSIZE_def)
  have y: "lg_outstanding (jlog y) = 1" "\<not> lg_committing (jlog y)" using t2(5) i by (simp_all add: add_block_def)
  obtain t3 z W where t3: "end_op t2 = Inr t3" "mv {} ?s z t3" "committed 2 (mypid ?s) y z W"
    using end_op_last [OF t2(2) y(2,1) t2(3) refl] by (auto simp: returns_iff)
  note f = mv_facts(4) [OF t1(2)] mv_facts(4) [OF t2(2)] mv_facts(4) [OF t3(2)]
  have run: "log_run 2 ?s t3 [view (sto t2)]"
  proof -
    have "log_run 2 ?s t1 []" using log_run.begins [OF log_run.start t1(1)] .
    then have "log_run 2 ?s t2 []"
      by (rule log_run.updates [OF _ _ _ _ t2(1)]) (use i f in \<open>simp_all add: log_blocks_def LOGSIZE_def BSIZE_def\<close>)
    then show ?thesis by (rule log_run.commits [OF _ _ t3(1)]) (use f y in simp)
  qed
  have h: "held {} ?s" "log_inv 2 (mypid ?s) {} (sto ?s)" "logged (sto ?s) = []" using i by simp_all
  obtain V where V: "log_hist 2 ?s t3 [view (sto t2)] V" using log_run_hist [OF run h] by blast
  have D: "memdisk (sto t3) = writes V (memdisk (sto ?s))" "wtrace (sto t3) = wtrace (sto ?s) @ V" using V by (simp_all add: log_hist_def)
  let ?D = "memdisk (sto t3)"
  have len: "length (?D n) = 512" for n
    using bcD(3) [OF log_invD(1), of 2 "mypid ?s" "{}" z] t3(3) unfolding committed_def f(3) by (simp add: BSIZE_def)
  define r where "r = kst_of (boot1 ?D)"
  have n1: "(1 :: nat) \<notin> log_blocks 2" by (simp add: log_blocks_def)
  have "?D 1 = view y 1" using t3(3) n1 unfolding committed_def f(3) by blast
  also have "\<dots> = super1" using t2(6) inv_view [OF i(1)] i(2,3) by (simp add: disk1_def)
  finally have "?D 1 = super1" .
  then have r: "held {} r" "booted 2 (mypid r) (sto r)" "memdisk (sto r) = writes (take (length V) V) (memdisk (sto ?s))"
    "disksize (sto r) = disksize (sto ?s)"
    using booted1 [of ?D, OF len] D(1) i(4) by (simp_all add: r_def)
  from log_crash_safe [OF run h D(2) r] obtain u c where "initlog 1 r = Inr u" "c \<in> set ([view (sto t2)] @ [disk1])"
    "\<forall>n. n \<notin> log_blocks 2 \<longrightarrow> view (sto u) n = c n" using i(3) by auto
  then show ?thesis
    using run r(1,3) by (intro exI [of _ ?s] exI [of _ t3] exI [of _ V] exI [of _ r] exI [of _ u] exI [of _ "[view (sto t2)]"] exI [of _ c]) simp
qed

section \<open>Limits of the log and of the cache\<close>

lemma updates_mv:
  assumes "mv {} s x t" "log_inv ls p {} x" "p = mypid s" "distinct ns" "set ns \<inter> set (logged x) = {}"
    "\<forall>n \<in> set ns. n < disksize x \<and> n \<notin> log_blocks ls" "length d = BSIZE" "lh_n (jlog x) + int (length ns) \<le> 29" "1 \<le> lg_outstanding (jlog x)"
  shows "returns (for_each ns (\<lambda>n. log_update n d) t) (\<lambda>u. \<exists>z. mv {} s z u \<and> log_inv ls p {} z \<and> disksize z = disksize x \<and>
    logged z = logged x @ ns \<and> lh_n (jlog z) = lh_n (jlog x) + int (length ns) \<and> lg_outstanding (jlog z) = lg_outstanding (jlog x))"
  using assms
proof (induction ns arbitrary: x t)
  case (Cons n ns)
  obtain u z where u: "log_update n d t = Inr u" "mv {} s z u" "log_inv ls p {} z" "disksize z = disksize x" "jlog z = add_block n (jlog x)"
    using log_update_mv [OF Cons.prems(1-3), of n d] Cons.prems(6-9) by (auto simp: returns_iff)
  have ok: "lg_ok ls x" using log_invD(2) [OF Cons.prems(2)] .
  have L: "logged z = logged x @ [n]"
    using logged_added [OF ok, of n] Cons.prems(5) u(5) by (auto simp: logged_def)
  have j: "lh_n (jlog z) = lh_n (jlog x) + 1" "lg_outstanding (jlog z) = lg_outstanding (jlog x)"
    using u(5) logged_mem [OF ok, of n] Cons.prems(5) by (auto simp: add_block_def)
  show ?case
    using Cons.IH [OF u(2,3) Cons.prems(3)] Cons.prems(4-9) L j u(4) by (auto simp: u(1) elim!: returns_mono)
qed auto

lemma log_update_full:
  assumes "mv {} s x t" "log_inv ls p {} x" "p = mypid s" "n < disksize x" "29 \<le> lh_n (jlog x)"
  shows "log_update n d t = Inl (Panic ''too big a transaction'')"
proof -
  note i = log_invD [OF assms(2)]
  have cr: "can_read {} x n" using assms(4) i(7) by (intro can_readI) (auto simp: NBUF_def)
  obtain b t1 y where b: "bread 1 n t = Inr (b, t1)" "mv {} s y t1" "got p {} x n b y"
    using bread_mv [OF assms(1) i(1) assms(3) cr] by (auto simp: returns_iff)
  have "jlog y = jlog x" using same_viewD(6) [OF gotD(5) [OF b(3)]] .
  then show ?thesis
    using i(3) assms(5) mv_facts(4) [OF b(2)] by (simp add: log_update_def b(1) log_write_def Let_def)
qed

text \<open>
  C14. begin_op admits three operations at once, and so promises them LOGSIZE = 3 * MAXOPBLOCKS blocks,
  but the log has room for one block less, because its first block is the header: three operations that
  together update LOGSIZE distinct blocks, as many as were reserved, make log_write panic.
\<close>
theorem reservation_exceeds_log:
  assumes "held {} s" "log_inv ls (mypid s) {} (sto s)" "lh_n (jlog (sto s)) = 0" "lg_outstanding (jlog (sto s)) = 0"
    "\<not> lg_committing (jlog (sto s))" "length ns = 3 * MAXOPBLOCKS" "distinct ns"
    "\<forall>n \<in> set ns. n < disksize (sto s) \<and> n \<notin> log_blocks ls" "length d = BSIZE"
  shows "\<exists>t. for_each [(), (), ()] (\<lambda>_. begin_op) s = Inr t \<and>
    for_each ns (\<lambda>n. log_update n d) t = Inl (Panic ''too big a transaction'')"
proof -
  define f where "f = (\<lambda>l :: logst. l\<lparr>lg_outstanding := lg_outstanding l + 1\<rparr>)"
  let ?x = "sto s"
  have m: "mv {} s ?x s" using assms(1) by simp
  obtain a where a: "begin_op s = Inr a" "mv {} s (upd_log f ?x) a"
    using begin_op_mv [OF m assms(5)] assms(3,4) by (auto simp: returns_iff f_def)
  obtain b where b: "begin_op a = Inr b" "mv {} s (upd_log f (upd_log f ?x)) b"
    using begin_op_mv [OF a(2)] assms(3-5) by (auto simp: returns_iff f_def)
  let ?y = "upd_log f (upd_log f (upd_log f ?x))"
  obtain c where c: "begin_op b = Inr c" "mv {} s ?y c"
    using begin_op_mv [OF b(2)] assms(3-5) by (auto simp: returns_iff f_def)
  have y: "log_inv ls (mypid s) {} ?y" using assms(2) by (intro log_inv_upd(1)) (simp_all add: f_def)
  have j: "lh_n (jlog ?y) = 0" "1 \<le> lg_outstanding (jlog ?y)" "logged ?y = []" using assms(3,4) by (simp_all add: f_def logged_def)
  obtain ms n where ms: "ns = ms @ [n]" using assms(6) by (cases ns rule: rev_cases) (auto simp: MAXOPBLOCKS_def)
  then have lm: "length ms = 29" using assms(6) by (simp add: MAXOPBLOCKS_def)
  obtain u z where u: "for_each ms (\<lambda>n. log_update n d) c = Inr u" "mv {} s z u" "log_inv ls (mypid s) {} z" "disksize z = disksize ?x"
    "lh_n (jlog z) = 29"
    using updates_mv [OF c(2) y refl, of ms d] assms(7-9) j ms lm by (auto simp: returns_iff)
  have "log_update n d u = Inl (Panic ''too big a transaction'')"
    using log_update_full [OF u(2,3) refl] assms(8) ms u(4,5) by simp
  then show ?thesis using ms by (simp add: a(1) b(1) c(1) u(1))
qed

lemma bget_no_buffers:
  assumes "mv {} s x t" "bc p H x" "\<And>i. \<not> caches x i n" "\<And>i. i < NBUF \<Longrightarrow> i \<in> H \<or> i \<in> dirtyb x"
  shows "bget 1 n t = Inl (Panic ''bget: no buffers'')"
proof -
  obtain bs where bs: "lru (bufs x) bs" using bcD(2) [OF assms(2)] by blast
  obtain u where u: "acquire Bcache_lock t = Inr u" "mv {Bcache_lock} s x u"
    using acquire_mv [OF assms(1), of Bcache_lock] by (auto simp: returns_iff)
  have "\<not> (b_refcnt (bufs x i) = 0 \<and> b_flags (bufs x i) AND B_DIRTY = 0)" if "i < NBUF" for i
  proof (cases "i \<in> H")
    case True
    then show ?thesis using bcD(5) [OF assms(2)] by (simp add: buf_held_def)
  next
    case False
    then show ?thesis using assms(4) [OF that] by (simp add: dirtyb_def)
  qed
  then have "find (\<lambda>b. b_refcnt (bufs x b) = 0 \<and> b_flags (bufs x b) AND B_DIRTY = 0) (rev bs) = None"
    using bs by (auto simp: find_None_iff lru_def)
  then show ?thesis
    using lru_find_cached(2) [OF assms(2) bs assms(3)]
    by (simp add: bget_def Let_def u(1) mv_facts(4) [OF u(2)] lru_walks [OF bs] del: walk.simps)
qed

text \<open>
  C15. The cache has NBUF = 30 buffers and a full log pins 29 of them. If any process holds one more buffer
  while the last operation commits, for instance one that reads a file, which takes no part in
  transactions, then write_log finds no buffer for its first log block and the kernel panics.
\<close>
theorem commit_out_of_buffers:
  assumes "held {} s" "log_inv ls p {b} (sto s)" "lh_n (jlog (sto s)) = 29" "b \<notin> dirtyb (sto s)" "b_blockno (bufs (sto s) b) \<notin> log_blocks ls"
  shows "commit s = Inl (Panic ''bget: no buffers'')"
proof -
  let ?x = "sto s"
  note i = log_invD [OF assms(2)]
  note l = lg_okD [OF i(2)]
  have m: "mv {} s ?x s" using assms(1) by simp
  have n: "length (logged ?x) = 29" using l(12) assms(3) by simp
  have b: "b < NBUF" using bcD(1) [OF i(1)] by simp
  have "insert b (dirtyb ?x) \<subseteq> {..<NBUF}" using b by (auto simp: dirtyb_def)
  moreover have "card (insert b (dirtyb ?x)) = card {..<NBUF}" using assms(4) i(6) n by (simp add: NBUF_def)
  ultimately have all: "insert b (dirtyb ?x) = {..<NBUF}" by (intro card_subset_eq) simp_all
  have nc: "\<not> caches ?x k (ls + 0 + 1)" for k
  proof
    assume c: "caches ?x k (ls + 0 + 1)"
    have r: "ls + 0 + 1 \<in> log_blocks ls" by (rule region_simps(2)) simp
    show False
    proof (cases "k = b")
      case True
      then show False using c r assms(5) by (simp add: caches_def)
    next
      case False
      then have "k \<in> dirtyb ?x" using c all by (auto simp: caches_def)
      then have "ls + 0 + 1 \<in> set (logged ?x)" using dblocks_iff [OF i(1)] c i(4) by blast
      then show False using l(11) r by blast
    qed
  qed
  have "bget 1 (ls + 0 + 1) s = Inl (Panic ''bget: no buffers'')"
    using m i(1) nc by (rule bget_no_buffers) (use all in blast)
  moreover have "u32 (lg_start (jlog ?x) + int 0 + 1) = ls + 0 + 1" "u32 (lg_dev (jlog ?x)) = 1"
    using lg_entry(3,4) [OF i(2), of 0] n by simp_all
  ultimately have "write_log_one 0 s = Inl (Panic ''bget: no buffers'')" by (simp add: write_log_one_def Let_def bread_def)
  then show ?thesis using assms(3) by (simp add: commit_def write_log_def upt_rec [of 0])
qed

theorem reservation_exceeds_log_witness:
  "\<exists>t. for_each [(), (), ()] (\<lambda>_. begin_op) (kst_of idle1) = Inr t \<and>
    for_each [100..<130] (\<lambda>n. log_update n (replicate 512 nul)) t = Inl (Panic ''too big a transaction'')"
  using reservation_exceeds_log [of "kst_of idle1" 2 "[100..<130]" "replicate 512 nul"] idle1
  by (auto simp: MAXOPBLOCKS_def log_blocks_def LOGSIZE_def BSIZE_def simp del: for_each.simps upt_rec_numeral)

theorem commit_out_of_buffers_witness:
  "\<exists>(s :: kst) b. held {} s \<and> b_blockno (bufs (sto s) b) = 200 \<and> lh_n (jlog (sto s)) = 29 \<and> commit s = Inl (Panic ''bget: no buffers'')"
proof -
  let ?s = "kst_of idle1"
  have m: "mv {} ?s idle1 ?s" by simp
  let ?x = "upd_log (\<lambda>l. l\<lparr>lg_outstanding := lg_outstanding l + 1\<rparr>) idle1"
  obtain t1 where t1: "mv {} ?s ?x t1" using begin_op_mv [OF m] idle1 by (auto simp: returns_iff)
  have x: "log_inv 2 (mypid ?s) {} ?x" "logged ?x = []" using log_inv_upd [OF idle1(1)] idle1(2) by simp_all
  have "\<forall>n \<in> set [100..<129]. n < disksize ?x \<and> n \<notin> log_blocks 2" using idle1(4) by (auto simp: log_blocks_def LOGSIZE_def)
  then obtain t2 y where t2: "mv {} ?s y t2" "log_inv 2 (mypid ?s) {} y" "disksize y = 1000" "logged y = [100..<129]" "lh_n (jlog y) = 29"
    using updates_mv [OF t1 x(1) refl, of "[100..<129]" "replicate 512 nul"] x(2) idle1
    by (auto simp: returns_iff BSIZE_def simp del: for_each.simps upt_rec_numeral)
  note i = log_invD [OF t2(2)]
  have cr: "can_read {} y 200" using t2(3) i(7) by (intro can_readI) (auto simp: NBUF_def)
  obtain b u z where b: "mv {} ?s z u" "got (mypid ?s) {} y 200 b z"
    using bread_mv [OF t2(1) i(1) refl cr] by (auto simp: returns_iff)
  note g = gotD [OF b(2), simplified]
  have z: "log_inv 2 (mypid ?s) {b} z" using log_inv_got [OF t2(2) b(2)] .
  have "200 \<notin> dblocks z" using g(7) i(4) t2(4) by (simp del: upt_rec_numeral)
  then have nb: "b \<notin> dirtyb z" using dblocks_at [OF g(2,3)] by simp
  have st: "sto u = z" using mv_facts(4) [OF b(1)] .
  have c: "held {} u" "log_inv 2 (mypid ?s) {b} (sto u)" "lh_n (jlog (sto u)) = 29" "b \<notin> dirtyb (sto u)" "b_blockno (bufs (sto u) b) \<notin> log_blocks 2"
    using mvD(1) [OF b(1)] z nb t2(5) same_viewD(6) [OF g(5)] g(9) st by (simp_all add: log_blocks_def LOGSIZE_def)
  show ?thesis using commit_out_of_buffers [OF c] c(1,3) g(9) st by auto
qed

section \<open>The cache as a store of blocks\<close>

text \<open>The uses of the interface that the head of bio.c describes: read a block, or change it and write it, and let it go.\<close>

definition cached_read :: "nat \<Rightarrow> 'a kst_scheme \<Rightarrow> (char list \<times> 'a kst_scheme) res" where
  "cached_read n s = bindr (bread 1 n s) (\<lambda>(b, s). bindr (brelse b s) (\<lambda>t. Inr (b_data (bufs (sto s) b), t)))"

definition cached_write :: "nat \<Rightarrow> char list \<Rightarrow> 'a kst_scheme \<Rightarrow> 'a kst_scheme res" where
  "cached_write n d s =
     bindr (bread 1 n s) (\<lambda>(b, s). bindr (bwrite b (upd_sto (set_data b d) s)) (\<lambda>s. brelse b s))"

definition cache_ok :: "'a kst_scheme \<Rightarrow> bool" where
  "cache_ok s \<longleftrightarrow> held {} s \<and> bc (mypid s) {} (sto s) \<and> card (dirtyb (sto s)) < NBUF"

lemma cached_read_ok:
  assumes "cache_ok s" "n < disksize (sto s)"
  shows "returns (cached_read n s) (\<lambda>(d, t). d = view (sto s) n \<and> cache_ok t \<and> view (sto t) = view (sto s) \<and>
    disksize (sto t) = disksize (sto s))"
proof -
  note k = assms(1) [unfolded cache_ok_def]
  have m: "mv {} s (sto s) s" using k by simp
  have cr: "can_read {} (sto s) n" using k assms(2) by (intro can_readI) auto
  obtain b t1 y u z where b: "bread 1 n s = Inr (b, t1)" "mv {} s y t1" "b_data (bufs y b) = view (sto s) n"
    "brelse b t1 = Inr u" "mv {} s z u" "bc (mypid s) {} z" "same_view (sto s) z" "dirtyb z = dirtyb (sto s)"
    using k by (auto intro: bread_brelse [OF m _ refl cr])
  show ?thesis
    using b k same_viewD [OF b(7)] mv_facts [OF b(5)] mvD(1) [OF b(5)]
    by (simp add: cached_read_def cache_ok_def mv_facts(4) [OF b(2)])
qed

lemma cached_write_ok:
  assumes "cache_ok s" "n < disksize (sto s)" "length d = BSIZE"
  shows "returns (cached_write n d s) (\<lambda>t. cache_ok t \<and> view (sto t) = (view (sto s))(n := d) \<and>
    disksize (sto t) = disksize (sto s) \<and> memdisk (sto t) n = d)"
proof -
  note k = assms(1) [unfolded cache_ok_def]
  have m: "mv {} s (sto s) s" using k by simp
  have cr: "can_read {} (sto s) n" using k assms(2) by (intro can_readI) auto
  have bc: "bc (mypid s) {} (sto s)" using k by simp
  obtain b t1 y where b: "bread 1 n s = Inr (b, t1)" "mv {} s y t1" "got (mypid s) {} (sto s) n b y"
    using bread_mv [OF m bc refl cr] by (auto simp: returns_iff)
  note g = gotD [OF b(3), simplified]
  obtain u z where u: "bindr (bwrite b (upd_sto (set_data b d) t1)) (\<lambda>s. brelse b s) = Inr u" "mv {} s z u" "wrote (mypid s) n d y z"
    using write_tail [OF mv_upd [OF b(2), of "set_data b d"] g(2) refl assms(3)] g(9) by (auto simp: returns_iff)
  have w: "wrote (mypid s) n d (sto s) z" using u(3) g(5,7) by (rule wrote_after)
  note ww = wroteD [OF w]
  have "card (dirtyb z) \<le> card (dirtyb (sto s))"
    using card_dblocks [OF ww(1)] card_dblocks [OF bc] ww(5) card_mono [of "dblocks (sto s)" "dblocks z"] by (auto simp: dblocks_def)
  then show ?thesis
    using u(1) ww k mv_facts [OF u(2)] mvD(1) [OF u(2)] by (simp add: cached_write_def cache_ok_def b(1))
qed

interpretation cache: block_store cache_ok "\<lambda>s. disksize (sto s)" "\<lambda>s. view (sto s)" cached_read cached_write
proof unfold_locales
  fix s :: "'a kst_scheme" and n
  assume "cache_ok s" "n < disksize (sto s)"
  then show "returns (cached_read n s) (\<lambda>(d, t). d = view (sto s) n \<and> cache_ok t \<and> view (sto t) = view (sto s) \<and> disksize (sto t) = disksize (sto s))"
    by (rule cached_read_ok)
next
  fix s :: "'a kst_scheme" and n d
  assume "cache_ok s" "n < disksize (sto s)" "length (d :: char list) = 512"
  then show "returns (cached_write n d s) (\<lambda>t. cache_ok t \<and> view (sto t) = (view (sto s))(n := d) \<and> disksize (sto t) = disksize (sto s))"
    using cached_write_ok [of s n d] by (auto simp: BSIZE_def elim!: returns_mono)
qed

text \<open>
  C5. The buffer cache is transparent: any series of reads and writes of blocks through bread, bwrite and brelse
  returns, with every buffer given back, and answers exactly as an array of blocks with the same
  initial contents would, whatever is cached, evicted and read again on the way.
\<close>
theorem cache_refines_array:
  assumes "cache_ok s" "\<forall>r \<in> set rs. fits (disksize (sto s)) r"
  shows "\<exists>ds t. serve cached_read cached_write rs s = Inr (ds, t) \<and> cache_ok t \<and>
    array_serve rs (view (sto s)) = (ds, view (sto t))"
  using cache.serve_array [OF assms] by (auto simp: returns_iff)

theorem cache_refines_array_witness:
  "\<exists>ds t. serve cached_read cached_write [Write 7 (replicate 512 (CHR ''x'')), Read 8, Read 7] (kst_of (boot1 disk1)) = Inr (ds, t) \<and>
    ds = [replicate 512 nul, replicate 512 (CHR ''x'')]"
proof -
  let ?s = "kst_of (boot1 disk1)"
  have D: "disk1 1 = super1" by (simp add: disk1_def)
  note b = booted1 [of disk1, OF length_disk1 D]
  have bc: "bc 1 {} (boot1 disk1)" "dirtyb (boot1 disk1) = {}" using b(1) [of 1] by (simp_all add: booted_def)
  then have ok: "cache_ok ?s" by (simp add: cache_ok_def NBUF_def)
  have "view (boot1 disk1) 8 = disk1 8" using clean_view [OF bc(1), of 8] bc(2) b(2) by (simp add: dblocks_def)
  then have "array_serve [Write 7 (replicate 512 (CHR ''x'')), Read 8, Read 7] (view (sto ?s)) =
      ([replicate 512 nul, replicate 512 (CHR ''x'')], (view (sto ?s))(7 := replicate 512 (CHR ''x'')))"
    by (simp add: disk1_def)
  then show ?thesis
    using cache_refines_array [OF ok, of "[Write 7 (replicate 512 (CHR ''x'')), Read 8, Read 7]"] b(3) by auto
qed

end
