(* ===== verification/Fifo.thy ===== *)
theory Fifo
  imports Prelude
begin

text \<open>
  A queue that its clients fill and drain one element at a time: an element put in comes after those that
  are there, and the one taken out is the first. The pipe (pipe.c) provides it.
\<close>

locale fifo =
  fixes ok :: "'s \<Rightarrow> bool" and contents :: "'s \<Rightarrow> 'a list" and cap :: nat
    and put :: "'a \<Rightarrow> 's \<Rightarrow> 's" and get :: "'s \<Rightarrow> 'a \<times> 's"
  assumes put_ok: "ok s \<Longrightarrow> length (contents s) < cap \<Longrightarrow> ok (put x s) \<and> contents (put x s) = contents s @ [x]"
    and get_ok: "ok s \<Longrightarrow> contents s \<noteq> [] \<Longrightarrow>
      ok (snd (get s)) \<and> contents s = fst (get s) # contents (snd (get s))"
begin

lemma puts_ok:
  assumes "ok s" "length (contents s) + length xs \<le> cap"
  shows "ok (fold put xs s) \<and> contents (fold put xs s) = contents s @ xs"
  using assms
proof (induction xs arbitrary: s)
  case (Cons x xs)
  then show ?case using put_ok [of s x] by simp
qed simp

lemma get_put:
  assumes "ok s" "length (contents s) < cap"
  shows "fst (get (put x s)) = hd (contents s @ [x])"
  using put_ok [OF assms, of x] get_ok [of "put x s"] by (metis append_is_Nil_conv list.distinct(1) list.sel(1))

end

end
