(* ===== verification/Pipe.thy ===== *)
theory Pipe
  imports Kstate Fifo
begin

text \<open>
  Pipes (pipe.c). A pipe is a ring of bytes between two counters that grow for ever and wrap around
  at \<open>2 ^ 32\<close>. A writer that finds the ring full and a reader that finds it empty sleep with the lock of the
  pipe; the functions are cut there: \<open>PWait bs\<close> is a writer that is about to call sleep with the bytes
  \<open>bs\<close> still to write, and it goes on with \<open>pipewrite_from\<close> on these bytes when it has been woken.
  pipealloc is with the file table.
\<close>

section \<open>Definitions\<close>

definition PIPESIZE :: nat where "PIPESIZE = 512"

datatype pwrite_end = PRet int | PWait string
datatype pread_end = RRet int string | RWait

definition upd_pipe :: "nat \<Rightarrow> (pipe \<Rightarrow> pipe) \<Rightarrow> storage \<Rightarrow> storage" where
  "upd_pipe p f \<sigma> = \<sigma>\<lparr>pipes := (pipes \<sigma>)(p := f (pipes \<sigma> p))\<rparr>"

definition pipe_put :: "char \<Rightarrow> pipe \<Rightarrow> pipe" where
  "pipe_put c q = q\<lparr>p_data := (p_data q)[p_nwrite q mod PIPESIZE := c], p_nwrite := u32 (int (p_nwrite q) + 1)\<rparr>"

definition pipe_get :: "pipe \<Rightarrow> char \<times> pipe" where
  "pipe_get q = (p_data q ! (p_nread q mod PIPESIZE), q\<lparr>p_nread := u32 (int (p_nread q) + 1)\<rparr>)"

definition pipe_full :: "pipe \<Rightarrow> bool" where
  "pipe_full q \<longleftrightarrow> p_nwrite q = u32 (int (p_nread q) + int PIPESIZE)"

definition pipe_empty :: "pipe \<Rightarrow> bool" where
  "pipe_empty q \<longleftrightarrow> p_nread q = p_nwrite q"

definition is_killed :: "'a kst_scheme \<Rightarrow> (bool \<times> 'a kst_scheme) res" where
  "is_killed s = bindr (myproc s) (\<lambda>(p, s).
     case p of None \<Rightarrow> Inl (Undef ''null pointer'') | Some i \<Rightarrow> Inr (killed (ptable s i), s))"

fun pipewrite_from :: "nat \<Rightarrow> int \<Rightarrow> string \<Rightarrow> 'a kst_scheme \<Rightarrow> (pwrite_end \<times> 'a kst_scheme) res" where
  "pipewrite_from p n [] s =
     bindr (wakeup (Chan_pipe_nread p) s) (\<lambda>s.
     bindr (release (Pipe_lock p) s) (\<lambda>s. Inr (PRet n, s)))"
| "pipewrite_from p n (c # cs) s =
     (if pipe_full (pipes (sto s) p) then
        bindr (if \<not> p_readopen (pipes (sto s) p) then Inr (True, s) else is_killed s) (\<lambda>(k, s).
          if k then bindr (release (Pipe_lock p) s) (\<lambda>s. Inr (PRet (-1), s))
          else bindr (wakeup (Chan_pipe_nread p) s) (\<lambda>s. Inr (PWait (c # cs), s)))
      else pipewrite_from p n cs (upd_sto (upd_pipe p (pipe_put c)) s))"

definition pipewrite :: "nat \<Rightarrow> string \<Rightarrow> 'a kst_scheme \<Rightarrow> (pwrite_end \<times> 'a kst_scheme) res" where
  "pipewrite p bs s = bindr (acquire (Pipe_lock p) s) (pipewrite_from p (int (length bs)) bs)"

text \<open>The copying loop of piperead: at most \<open>n\<close> bytes, as long as there are any.\<close>

fun pipe_copy :: "nat \<Rightarrow> pipe \<Rightarrow> string \<times> pipe" where
  "pipe_copy 0 q = ([], q)"
| "pipe_copy (Suc n) q =
     (if pipe_empty q then ([], q)
      else let (c, q) = pipe_get q; (cs, q) = pipe_copy n q in (c # cs, q))"

definition piperead_from :: "nat \<Rightarrow> int \<Rightarrow> 'a kst_scheme \<Rightarrow> (pread_end \<times> 'a kst_scheme) res" where
  "piperead_from p n s =
     (if pipe_empty (pipes (sto s) p) \<and> p_writeopen (pipes (sto s) p) then
        bindr (is_killed s) (\<lambda>(k, s).
          if k then bindr (release (Pipe_lock p) s) (\<lambda>s. Inr (RRet (-1) [], s)) else Inr (RWait, s))
      else
        let (cs, q) = pipe_copy (nat n) (pipes (sto s) p)
        in bindr (wakeup (Chan_pipe_nwrite p) (upd_sto (upd_pipe p (\<lambda>_. q)) s)) (\<lambda>s.
           bindr (release (Pipe_lock p) s) (\<lambda>s. Inr (RRet (int (length cs)) cs, s))))"

definition piperead :: "nat \<Rightarrow> int \<Rightarrow> 'a kst_scheme \<Rightarrow> (pread_end \<times> 'a kst_scheme) res" where
  "piperead p n s = bindr (acquire (Pipe_lock p) s) (piperead_from p n)"

definition pipeclose :: "nat \<Rightarrow> bool \<Rightarrow> 'a kst_scheme \<Rightarrow> 'a kst_scheme res" where
  "pipeclose p writable s =
     bindr (acquire (Pipe_lock p) s) (\<lambda>s.
     bindr (if writable
            then wakeup (Chan_pipe_nread p) (upd_sto (upd_pipe p (\<lambda>q. q\<lparr>p_writeopen := False\<rparr>)) s)
            else wakeup (Chan_pipe_nwrite p) (upd_sto (upd_pipe p (\<lambda>q. q\<lparr>p_readopen := False\<rparr>)) s)) (\<lambda>s.
       if \<not> p_readopen (pipes (sto s) p) \<and> \<not> p_writeopen (pipes (sto s) p)
       then bindr (release (Pipe_lock p) s) (\<lambda>s. kfree p s)
       else release (Pipe_lock p) s))"

section \<open>The ring as a queue\<close>

definition pipe_used :: "pipe \<Rightarrow> nat" where
  "pipe_used q = nat ((int (p_nwrite q) - int (p_nread q)) mod 2 ^ 32)"

definition pipe_contents :: "pipe \<Rightarrow> string" where
  "pipe_contents q = map (\<lambda>i. p_data q ! ((p_nread q + i) mod PIPESIZE)) [0..<pipe_used q]"

definition pipe_ok :: "pipe \<Rightarrow> bool" where
  "pipe_ok q \<longleftrightarrow> length (p_data q) = PIPESIZE \<and> p_nread q < 2 ^ 32 \<and> p_nwrite q < 2 ^ 32 \<and> pipe_used q \<le> PIPESIZE"

lemma pipe_nwrite: "pipe_ok q \<Longrightarrow> p_nwrite q = (p_nread q + pipe_used q) mod 2 ^ 32"
proof -
  assume ok: "pipe_ok q"
  have "int ((p_nread q + pipe_used q) mod 2 ^ 32) = (int (p_nread q) + (int (p_nwrite q) - int (p_nread q)) mod 2 ^ 32) mod 2 ^ 32"
    by (simp add: pipe_used_def zmod_int)
  also have "\<dots> = int (p_nwrite q) mod 2 ^ 32" by (simp add: mod_simps)
  also have "\<dots> = int (p_nwrite q)" using ok by (simp add: pipe_ok_def)
  finally show ?thesis by linarith
qed

lemma mod_mod_512: "(n mod 2 ^ 32) mod 512 = n mod (512 :: nat)"
  by (rule mod_mod_cancel) simp

lemma pipe_slot: "pipe_ok q \<Longrightarrow> p_nwrite q mod PIPESIZE = (p_nread q + pipe_used q) mod PIPESIZE"
  using pipe_nwrite [of q] mod_mod_512 [of "p_nread q + pipe_used q"] by (simp add: PIPESIZE_def)

lemma pipe_full_iff: "pipe_ok q \<Longrightarrow> pipe_full q \<longleftrightarrow> pipe_used q = PIPESIZE"
proof -
  assume ok: "pipe_ok q"
  have r: "p_nread q < 4294967296" and u: "pipe_used q \<le> 512" using ok by (simp_all add: pipe_ok_def PIPESIZE_def)
  have "u32 (int (p_nread q) + 512) = (p_nread q + 512) mod 2 ^ 32"
    by (simp add: u32_def nat_mod_distrib nat_add_distrib)
  then have "pipe_full q \<longleftrightarrow> (p_nread q + pipe_used q) mod 2 ^ 32 = (p_nread q + 512) mod 2 ^ 32"
    using pipe_nwrite [OF ok] by (simp add: pipe_full_def PIPESIZE_def)
  also have "\<dots> \<longleftrightarrow> pipe_used q = 512"
    using r u by (cases "p_nread q + 512 < 4294967296"; cases "p_nread q + pipe_used q < 4294967296")
      (auto simp: mod_if)
  finally show ?thesis by (simp add: PIPESIZE_def)
qed

lemma pipe_empty_iff: "pipe_ok q \<Longrightarrow> pipe_empty q \<longleftrightarrow> pipe_used q = 0"
proof -
  assume ok: "pipe_ok q"
  define d where "d = int (p_nwrite q) - int (p_nread q)"
  have d: "- 4294967296 < d" "d < 4294967296" using ok by (auto simp: pipe_ok_def d_def)
  have "0 \<le> d mod 4294967296" by (rule pos_mod_sign) simp
  moreover have "(2 :: int) ^ 32 = 4294967296" by simp
  then have "pipe_used q = nat (d mod 4294967296)" by (simp only: pipe_used_def d_def)
  ultimately have "pipe_used q = 0 \<longleftrightarrow> d mod 4294967296 = 0" by linarith
  also have "\<dots> \<longleftrightarrow> d = 0"
  proof (cases "0 \<le> d")
    case True
    then show ?thesis using d by (simp add: mod_pos_pos_trivial)
  next
    case False
    have "d mod 4294967296 = (d + 4294967296) mod 4294967296" by (rule mod_add_self2 [symmetric])
    also have "\<dots> = d + 4294967296" using False d by (intro mod_pos_pos_trivial) linarith+
    finally show ?thesis using d False by linarith
  qed
  also have "\<dots> \<longleftrightarrow> pipe_empty q" unfolding pipe_empty_def d_def by linarith
  finally show ?thesis by blast
qed

lemma pipe_put_ok:
  assumes "pipe_ok q" "pipe_used q < PIPESIZE"
  shows "pipe_ok (pipe_put c q)" "pipe_contents (pipe_put c q) = pipe_contents q @ [c]"
proof -
  let ?q = "pipe_put c q"
  have len: "length (p_data q) = PIPESIZE" and pos: "0 < PIPESIZE" using assms by (simp_all add: pipe_ok_def)
  have "(int (u32 (int (p_nwrite q) + 1)) - int (p_nread q)) mod 2 ^ 32 =
      ((int (p_nwrite q) - int (p_nread q)) mod 2 ^ 32 + 1) mod 2 ^ 32"
    by (simp add: u32_def mod_simps algebra_simps)
  also have "\<dots> = (int (pipe_used q) + 1) mod 2 ^ 32" by (simp add: pipe_used_def)
  also have "\<dots> = int (pipe_used q) + 1" using assms by (intro mod_pos_pos_trivial) (auto simp: PIPESIZE_def)
  finally have u: "pipe_used ?q = Suc (pipe_used q)" by (simp add: pipe_used_def pipe_put_def)
  show "pipe_ok ?q" using assms u by (auto simp: pipe_ok_def pipe_put_def)
  have ne: "(p_nread q + i) mod PIPESIZE \<noteq> (p_nread q + pipe_used q) mod PIPESIZE" if "i < pipe_used q" for i
  proof
    assume "(p_nread q + i) mod PIPESIZE = (p_nread q + pipe_used q) mod PIPESIZE"
    then have "PIPESIZE dvd (p_nread q + pipe_used q) - (p_nread q + i)" using that by (intro mod_eq_dvd_iff_nat [THEN iffD1]) auto
    then have "PIPESIZE dvd pipe_used q - i" by simp
    then show False using that assms(2) by (auto dest!: dvd_imp_le)
  qed
  have "(p_data q)[(p_nread q + pipe_used q) mod PIPESIZE := c] ! ((p_nread q + i) mod PIPESIZE) =
      p_data q ! ((p_nread q + i) mod PIPESIZE)" if "i < pipe_used q" for i
    using ne [OF that] by (simp add: nth_list_update_neq)
  then show "pipe_contents ?q = pipe_contents q @ [c]"
    unfolding pipe_contents_def u
    using len pos pipe_slot [OF assms(1)] by (simp add: pipe_put_def)
qed

lemma pipe_get_ok:
  assumes "pipe_ok q" "pipe_used q \<noteq> 0"
  shows "pipe_ok (snd (pipe_get q))" "pipe_contents q = fst (pipe_get q) # pipe_contents (snd (pipe_get q))"
    "p_writeopen (snd (pipe_get q)) = p_writeopen q" "p_readopen (snd (pipe_get q)) = p_readopen q"
proof -
  let ?q = "snd (pipe_get q)"
  have r: "p_nread ?q = (p_nread q + 1) mod 2 ^ 32"
    by (simp add: pipe_get_def u32_def nat_mod_distrib nat_add_distrib)
  have "(int (p_nwrite q) - int (u32 (int (p_nread q) + 1))) mod 2 ^ 32 =
      ((int (p_nwrite q) - int (p_nread q)) mod 2 ^ 32 - 1) mod 2 ^ 32"
    by (simp add: u32_def mod_simps algebra_simps)
  also have "\<dots> = (int (pipe_used q) - 1) mod 2 ^ 32" by (simp add: pipe_used_def)
  also have "\<dots> = int (pipe_used q) - 1" using assms by (intro mod_pos_pos_trivial) (auto simp: PIPESIZE_def pipe_ok_def)
  finally have "pipe_used ?q = nat (int (pipe_used q) - 1)" by (simp add: pipe_used_def pipe_get_def)
  then have u: "pipe_used q = Suc (pipe_used ?q)" using assms(2) by simp
  show "pipe_ok ?q" using assms u r by (auto simp: pipe_ok_def pipe_get_def)
  have s: "(p_nread ?q + i) mod PIPESIZE = (p_nread q + Suc i) mod PIPESIZE" for i
  proof -
    have "((p_nread q + 1) mod 2 ^ 32 + i) mod 512 = ((p_nread q + 1) mod 2 ^ 32 mod 512 + i) mod 512" by presburger
    also have "\<dots> = (p_nread q + Suc i) mod 512" unfolding mod_mod_512 by (simp add: mod_simps)
    finally show ?thesis unfolding r PIPESIZE_def .
  qed
  have d: "p_data ?q = p_data q" by (simp add: pipe_get_def)
  show "pipe_contents q = fst (pipe_get q) # pipe_contents ?q"
    unfolding pipe_contents_def u s d by (simp add: upt_rec [of 0] map_Suc_upt [symmetric] pipe_get_def del: upt_Suc)
  show "p_writeopen ?q = p_writeopen q" "p_readopen ?q = p_readopen q" by (simp_all add: pipe_get_def)
qed

lemma length_pipe_contents [simp]: "length (pipe_contents q) = pipe_used q"
  by (simp add: pipe_contents_def)

interpretation pipe_queue: fifo pipe_ok pipe_contents PIPESIZE pipe_put pipe_get
proof
  fix q c assume "pipe_ok q" "length (pipe_contents q) < PIPESIZE"
  then show "pipe_ok (pipe_put c q) \<and> pipe_contents (pipe_put c q) = pipe_contents q @ [c]"
    using pipe_put_ok by simp
next
  fix q assume "pipe_ok q" "pipe_contents q \<noteq> []"
  then show "pipe_ok (snd (pipe_get q)) \<and> pipe_contents q = fst (pipe_get q) # pipe_contents (snd (pipe_get q))"
    using pipe_get_ok [of q] by (metis length_0_conv length_pipe_contents)
qed

section \<open>What the calls do to the pipe\<close>

lemma pushcli_more: "pushcli s = Inr t \<Longrightarrow> mach.more t = mach.more s"
  by (auto simp: pushcli_def bindr_eq_Inr Let_def mach_defs split: if_splits)

lemma popcli_more: "popcli s = Inr t \<Longrightarrow> mach.more t = mach.more s"
  by (auto simp: popcli_def bindr_eq_Inr Let_def mach_defs split: if_splits)

lemma holding_more: "holding l s = Inr (h, t) \<Longrightarrow> mach.more t = mach.more s"
  by (auto simp: holding_def bindr_eq_Inr Let_def dest!: pushcli_more popcli_more)

lemma release_more: "release l s = Inr t \<Longrightarrow> mach.more t = mach.more s"
  by (auto simp: release_def bindr_eq_Inr Let_def mach_defs split: if_splits prod.splits dest!: popcli_more holding_more)

lemma acquire_more: "acquire l s = Inr t \<Longrightarrow> mach.more t = mach.more s"
  by (auto simp: acquire_def bindr_eq_Inr Let_def mach_defs split: if_splits prod.splits dest!: pushcli_more holding_more)

lemma more_sto: "mach.more t = mach.more s \<Longrightarrow> sto t = sto s"
  by (cases s, cases t) simp

lemma release_sto: "release l s = Inr t \<Longrightarrow> sto t = sto s"
  using release_more more_sto by blast

lemma wakeup_sto: "wakeup ch s = Inr t \<Longrightarrow> sto t = sto s"
  by (auto simp: wakeup_def wakeup1_eq bindr_eq_Inr dest!: acquire_more release_more more_sto)

lemma is_killed_sto: "is_killed s = Inr (k, t) \<Longrightarrow> sto t = sto s"
proof -
  assume "is_killed s = Inr (k, t)"
  then obtain p where "myproc s = Inr (p, t)" by (auto simp: is_killed_def bindr_eq_Inr split: option.splits)
  then have "mach.more t = mach.more s"
    by (auto simp: myproc_def bindr_eq_Inr Let_def dest!: pushcli_more popcli_more)
  then show ?thesis by (rule more_sto)
qed

lemma pipes_upd [simp]: "pipes (upd_pipe p f \<sigma>) = (pipes \<sigma>)(p := f (pipes \<sigma> p))"
  by (simp add: upd_pipe_def)

text \<open>The bytes of a write that fit before the writer has to wait.\<close>

definition pipe_room :: "pipe \<Rightarrow> nat" where
  "pipe_room q = PIPESIZE - length (pipe_contents q)"

lemma pipewrite_from_eq:
  assumes "pipewrite_from p n bs s = Inr (r, t)" "pipe_ok (pipes (sto s) p)"
  shows "pipe_ok (pipes (sto t) p) \<and>
    pipe_contents (pipes (sto t) p) = pipe_contents (pipes (sto s) p) @ take (pipe_room (pipes (sto s) p)) bs \<and>
    (r = PRet n \<and> length bs \<le> pipe_room (pipes (sto s) p) \<or>
     pipe_room (pipes (sto s) p) < length bs \<and> (r = PRet (-1) \<or> r = PWait (drop (pipe_room (pipes (sto s) p)) bs)))"
  using assms
proof (induction p n bs s rule: pipewrite_from.induct)
  case (1 p n s)
  then obtain s1 where "wakeup (Chan_pipe_nread p) s = Inr s1" "release (Pipe_lock p) s1 = Inr t" "r = PRet n"
    by (auto simp: bindr_eq_Inr)
  then have "sto t = sto s" using wakeup_sto release_sto by metis
  then show ?case using 1 \<open>r = PRet n\<close> by simp
next
  case (2 p n c cs s)
  let ?q = "pipes (sto s) p"
  show ?case
  proof (cases "pipe_full ?q")
    case True
    then have room: "pipe_room ?q = 0" using pipe_full_iff [OF 2(3)] by (simp add: pipe_room_def)
    from 2(2) True have "sto t = sto s \<and> (r = PRet (-1) \<or> r = PWait (c # cs))"
      by (auto simp: bindr_eq_Inr split: if_splits prod.splits dest!: is_killed_sto release_sto wakeup_sto)
    then show ?thesis using 2(3) room by simp
  next
    case False
    then have u: "pipe_used ?q < PIPESIZE" using 2(3) pipe_full_iff [OF 2(3)] by (simp add: pipe_ok_def)
    note ok = pipe_put_ok [OF 2(3) u, of c]
    let ?s = "upd_sto (upd_pipe p (pipe_put c)) s"
    have q: "pipes (sto ?s) p = pipe_put c ?q" by simp
    have r: "pipe_room ?q = Suc (pipe_room (pipe_put c ?q))"
      using u arg_cong [OF ok(2), of length] by (simp add: pipe_room_def)
    have "pipewrite_from p n cs ?s = Inr (r, t)" using 2(2) False by simp
    from 2(1) [OF False this] ok show ?thesis unfolding q r by simp
  qed
qed

lemma pipe_copy_eq:
  assumes "pipe_ok q"
  shows "fst (pipe_copy n q) = take n (pipe_contents q) \<and> pipe_ok (snd (pipe_copy n q)) \<and>
    pipe_contents (snd (pipe_copy n q)) = drop n (pipe_contents q)"
  using assms
proof (induction n arbitrary: q)
  case (Suc n)
  show ?case
  proof (cases "pipe_empty q")
    case True
    then have "pipe_contents q = []" using pipe_empty_iff [OF Suc.prems] by (simp add: pipe_contents_def)
    then show ?thesis using True Suc.prems by simp
  next
    case False
    then have "pipe_used q \<noteq> 0" using pipe_empty_iff [OF Suc.prems] by simp
    note ok = pipe_get_ok [OF Suc.prems this]
    from Suc.IH [OF ok(1)] ok(2) False show ?thesis by (simp add: Let_def split_def)
  qed
qed simp

lemma piperead_from_eq:
  assumes "piperead_from p n s = Inr (RRet k cs, t)" "pipe_ok (pipes (sto s) p)"
  shows "pipe_ok (pipes (sto t) p) \<and> pipe_contents (pipes (sto s) p) = cs @ pipe_contents (pipes (sto t) p) \<and>
    (k = int (length cs) \<and> cs = take (nat n) (pipe_contents (pipes (sto s) p)) \<or> k = -1 \<and> cs = [])"
proof (cases "pipe_empty (pipes (sto s) p) \<and> p_writeopen (pipes (sto s) p)")
  case True
  with assms(1) have "sto t = sto s \<and> k = -1 \<and> cs = []"
    by (auto simp: piperead_from_def bindr_eq_Inr split: if_splits prod.splits dest!: is_killed_sto release_sto)
  then show ?thesis using assms(2) by simp
next
  case False
  let ?q = "pipe_copy (nat n) (pipes (sto s) p)"
  from False assms(1) have "sto t = upd_pipe p (\<lambda>_. snd ?q) (sto s) \<and> k = int (length cs) \<and> cs = fst ?q"
    by (auto simp: piperead_from_def bindr_eq_Inr Let_def split_def dest!: release_sto wakeup_sto)
  then show ?thesis using pipe_copy_eq [OF assms(2), of "nat n"] by simp
qed

text \<open>A write for which there is room returns.\<close>

lemma pipewrite_from_mv:
  assumes "mv {Pipe_lock p} s x t" "pipe_ok (pipes x p)" "length bs \<le> pipe_room (pipes x p)"
  shows "returns (pipewrite_from p n bs t) (\<lambda>(r, u). r = PRet n \<and> mv {} s (upd_pipe p (fold pipe_put bs) x) u)"
  using assms
proof (induction bs arbitrary: t x)
  case Nil
  have x: "upd_pipe p (fold pipe_put []) x = x" by (simp add: upd_pipe_def)
  obtain u where u: "wakeup (Chan_pipe_nread p) t = Inr u" "mv {Pipe_lock p} s x u"
    using wakeup_mv [OF Nil.prems(1), of "Chan_pipe_nread p"] by (auto simp: returns_iff)
  obtain v where v: "release (Pipe_lock p) u = Inr v" "mv {} s x v"
    using release_mv [OF u(2), of "Pipe_lock p" "{}"] by (auto simp: returns_iff)
  show ?case unfolding x using v(2) by (simp add: u(1) v(1))
next
  case (Cons c bs)
  let ?q = "pipes x p" and ?y = "upd_pipe p (pipe_put c) x"
  have s: "sto t = x" using mv_facts(4) [OF Cons.prems(1)] .
  have u: "pipe_used ?q < PIPESIZE" using Cons.prems(3) by (simp add: pipe_room_def)
  then have nf: "\<not> pipe_full (pipes (sto t) p)" using pipe_full_iff [OF Cons.prems(2)] s by simp
  note ok = pipe_put_ok [OF Cons.prems(2) u, of c]
  have "length bs \<le> pipe_room (pipes ?y p)"
    using Cons.prems(3) u arg_cong [OF ok(2), of length] by (simp add: pipe_room_def)
  from Cons.IH [of ?y, OF mv_upd [OF Cons.prems(1), of "upd_pipe p (pipe_put c)"] _ this] ok(1)
  have "returns (pipewrite_from p n bs (upd_sto (upd_pipe p (pipe_put c)) t))
      (\<lambda>(r, u). r = PRet n \<and> mv {} s (upd_pipe p (fold pipe_put bs) ?y) u)" by simp
  moreover have "upd_pipe p (fold pipe_put bs) ?y = upd_pipe p (fold pipe_put (c # bs)) x"
    by (simp add: upd_pipe_def)
  ultimately show ?case using nf by (simp add: comp_def)
qed

section \<open>Properties\<close>

text \<open>
  The history of a pipe: \<open>w\<close> are the bytes that writers have put into it and \<open>r\<close> those that readers have got. Between two sections of code that
  hold the lock of the pipe, the rest of the kernel may change in any way.
\<close>

inductive pipe_run :: "nat \<Rightarrow> 'a kst_scheme \<Rightarrow> string \<Rightarrow> string \<Rightarrow> bool" for p where
  created: "pipe_ok (pipes (sto s) p) \<Longrightarrow> pipe_contents (pipes (sto s) p) = [] \<Longrightarrow> pipe_run p s [] []"
| elsewhere: "pipe_run p s w r \<Longrightarrow> pipes (sto t) p = pipes (sto s) p \<Longrightarrow> pipe_run p t w r"
| all_written: "pipe_run p s w r \<Longrightarrow> 0 \<le> n \<Longrightarrow> pipewrite_from p n bs s = Inr (PRet n, t) \<Longrightarrow> pipe_run p t (w @ bs) r"
| part_written: "pipe_run p s w r \<Longrightarrow> pipewrite_from p n (bs @ cs) s = Inr (PWait cs, t) \<Longrightarrow> pipe_run p t (w @ bs) r"
| was_read: "pipe_run p s w r \<Longrightarrow> piperead_from p n s = Inr (RRet k cs, t) \<Longrightarrow> pipe_run p t w (r @ cs)"

text \<open>
  C11. A pipe is first in, first out, for any number of writers and readers that run in any order and wait
  for each other, and also when the counters wrap around at \<open>2 ^ 32\<close>: what has been read, followed by what
  the pipe holds, is exactly what has been written, and it never holds more than PIPESIZE bytes.
\<close>
theorem pipe_fifo:
  assumes "pipe_run p s w r"
  shows "w = r @ pipe_contents (pipes (sto s) p) \<and> length (pipe_contents (pipes (sto s) p)) \<le> PIPESIZE"
proof -
  have "pipe_ok (pipes (sto s) p) \<and> w = r @ pipe_contents (pipes (sto s) p)"
    using assms
  proof (induction rule: pipe_run.induct)
    case (all_written s w r n bs t)
    then show ?case using pipewrite_from_eq [OF all_written.hyps(3)] by auto
  next
    case (part_written s w r n bs cs t)
    let ?k = "pipe_room (pipes (sto s) p)"
    have e: "pipe_ok (pipes (sto t) p)" "pipe_contents (pipes (sto t) p) = pipe_contents (pipes (sto s) p) @ take ?k (bs @ cs)"
      "?k < length (bs @ cs)" "cs = drop ?k (bs @ cs)"
      using pipewrite_from_eq [OF part_written.hyps(2)] part_written.IH by auto
    then have "take ?k (bs @ cs) = bs" by (metis append_same_eq append_take_drop_id)
    then show ?case using e part_written.IH by simp
  next
    case (was_read s w r n k cs t)
    then show ?case using piperead_from_eq [OF was_read.hyps(2)] by auto
  qed auto
  then show ?thesis by (simp add: pipe_ok_def)
qed

theorem pipe_fifo_witness:
  "\<exists>(s :: kst) t. pipes (sto s) 5 = \<lparr>p_data = replicate 512 nul, p_nread = 4294967295, p_nwrite = 4294967295, p_readopen = True, p_writeopen = True\<rparr> \<and>
     pipewrite_from 5 2 ''ab'' s = Inr (PRet 2, t) \<and> p_nwrite (pipes (sto t) 5) = 1 \<and> ''ab'' = pipe_contents (pipes (sto t) 5)"
proof -
  define q where "q = \<lparr>p_data = replicate 512 nul, p_nread = 4294967295, p_nwrite = 4294967295, p_readopen = True, p_writeopen = True\<rparr>"
  define x where "x = upd_pipe 5 (\<lambda>_. q) sto0"
  have ok: "pipe_ok (pipes x 5)" "pipe_contents (pipes x 5) = []"
    by (simp_all add: x_def q_def pipe_ok_def pipe_contents_def pipe_used_def PIPESIZE_def)
  obtain s where s: "mv {Pipe_lock 5} (kst_of x) x s"
    using acquire_mv [of "{}" "kst_of x" x "kst_of x" "Pipe_lock 5"] by (auto simp: returns_iff)
  obtain t where t: "pipewrite_from 5 2 ''ab'' s = Inr (PRet 2, t)" "mv {} (kst_of x) (upd_pipe 5 (fold pipe_put ''ab'') x) t"
    using pipewrite_from_mv [OF s ok(1), of "''ab''" 2] ok(2) by (auto simp: returns_iff pipe_room_def PIPESIZE_def)
  have "pipe_run 5 s [] []" using ok mv_facts(4) [OF s] by (simp add: pipe_run.created)
  from pipe_run.all_written [OF this _ t(1)] have run: "pipe_run 5 t ''ab'' []" by simp
  have w: "p_nwrite (pipes (sto t) 5) = 1"
    using mv_facts(4) [OF t(2)] by (simp add: x_def q_def pipe_put_def u32_def)
  show ?thesis using pipe_fifo [OF run] t(1) w mv_facts(4) [OF s] by - (intro exI [of _ s] exI [of _ t], simp add: x_def q_def del: pipewrite_from.simps)
qed

end
