(* ===== verification/Vm.thy ===== *)
theory Vm
  imports Kstate
begin

text \<open>
  Page tables (vm.c, with the macros of mmu.h and memlayout.h). A page directory and the page tables under it lie in the byte
  memory of the kernel, at kernel virtual addresses; an address 0 is the null pointer. The linker symbol
  \<open>data\<close> of kernel.ld is an argument. A loop over addresses runs on fuel: mappages has one unit for
  each page of its range, and for sizes up to KERNBASE the lemmas \<open>dealloc_fuel\<close>, \<open>alloc_fuel\<close> and \<open>copy_fuel\<close> show that more
  fuel than the others are given changes nothing. seginit and loaduvm are not modelled.
\<close>

section \<open>Definitions\<close>

definition PTE_P :: nat where "PTE_P = 1"
definition PTE_W :: nat where "PTE_W = 2"
definition PTE_U :: nat where "PTE_U = 4"
definition NPDENTRIES :: nat where "NPDENTRIES = 1024"
definition EXTMEM :: nat where "EXTMEM = 0x100000"
definition DEVSPACE :: nat where "DEVSPACE = 0xFE000000"
definition KERNLINK :: nat where "KERNLINK = KERNBASE + EXTMEM"

definition P2V :: "nat \<Rightarrow> nat" where "P2V a = u32 (int a + int KERNBASE)"
definition PDX :: "nat \<Rightarrow> nat" where "PDX va = drop_bit 22 va AND 0x3FF"
definition PTX :: "nat \<Rightarrow> nat" where "PTX va = drop_bit 12 va AND 0x3FF"
definition PGADDR :: "nat \<Rightarrow> nat \<Rightarrow> nat \<Rightarrow> nat" where
  "PGADDR d t off = u32 (int (push_bit 22 d OR push_bit 12 t OR off))"
definition PTE_ADDR :: "nat \<Rightarrow> nat" where "PTE_ADDR e = nat (int e AND NOT 0xFFF)"
definition PTE_FLAGS :: "nat \<Rightarrow> nat" where "PTE_FLAGS e = e AND 0xFFF"

definition loadu :: "mem \<Rightarrow> nat \<Rightarrow> nat" where
  "loadu m a = nat (load32 m a)"

definition storeu :: "nat \<Rightarrow> nat \<Rightarrow> 'a kmem_scheme \<Rightarrow> 'a kmem_scheme" where
  "storeu a v s = s\<lparr>mem := store32 (mem s) a (int v)\<rparr>"

definition fill :: "nat \<Rightarrow> 'a kmem_scheme \<Rightarrow> 'a kmem_scheme" where
  "fill a s = s\<lparr>mem := memset a 0 PGSIZE (mem s)\<rparr>"

definition walkpgdir :: "nat \<Rightarrow> nat \<Rightarrow> bool \<Rightarrow> 'a kmem_scheme \<Rightarrow> (nat \<times> 'a kmem_scheme) res" where
  "walkpgdir dir va alloc s =
     (let pde = dir + 4 * PDX va
      in if loadu (mem s) pde AND PTE_P \<noteq> 0 then Inr (P2V (PTE_ADDR (loadu (mem s) pde)) + 4 * PTX va, s)
         else if \<not> alloc then Inr (0, s)
         else bindr (kalloc s) (\<lambda>(pgtab, s).
                if pgtab = 0 then Inr (0, s)
                else Inr (pgtab + 4 * PTX va, storeu pde (V2P pgtab OR PTE_P OR PTE_W OR PTE_U) (fill pgtab s))))"

fun map_from :: "nat \<Rightarrow> nat \<Rightarrow> nat \<Rightarrow> nat \<Rightarrow> nat \<Rightarrow> nat \<Rightarrow> 'a kmem_scheme \<Rightarrow> (int \<times> 'a kmem_scheme) res" where
  "map_from 0 dir a lasta pa perm s = Inl Spin"
| "map_from (Suc k) dir a lasta pa perm s =
     bindr (walkpgdir dir a True s) (\<lambda>(pte, s).
       if pte = 0 then Inr (-1, s)
       else if loadu (mem s) pte AND PTE_P \<noteq> 0 then Inl (Panic ''remap'')
       else
         let s = storeu pte (pa OR perm OR PTE_P) s
         in if a = lasta then Inr (0, s)
            else map_from k dir (u32 (int a + int PGSIZE)) lasta (u32 (int pa + int PGSIZE)) perm s)"

definition mappages :: "nat \<Rightarrow> nat \<Rightarrow> nat \<Rightarrow> nat \<Rightarrow> nat \<Rightarrow> 'a kmem_scheme \<Rightarrow> (int \<times> 'a kmem_scheme) res" where
  "mappages dir va len pa perm s =
     (let a = PGROUNDDOWN va; lasta = PGROUNDDOWN (u32 (int va + int len - 1))
      in map_from (Suc (u32 (int lasta - int a) div PGSIZE)) dir a lasta pa perm s)"

fun dealloc_from :: "nat \<Rightarrow> nat \<Rightarrow> nat \<Rightarrow> nat \<Rightarrow> 'a kmem_scheme \<Rightarrow> 'a kmem_scheme res" where
  "dealloc_from 0 dir a oldsz s = Inl Spin"
| "dealloc_from (Suc k) dir a oldsz s =
     (if a < oldsz then
        bindr (walkpgdir dir a False s) (\<lambda>(pte, s).
          if pte = 0 then
            let a = u32 (int (PGADDR (PDX a + 1) 0 0) - int PGSIZE)
            in dealloc_from k dir (u32 (int a + int PGSIZE)) oldsz s
          else if loadu (mem s) pte AND PTE_P \<noteq> 0 then
            let pa = PTE_ADDR (loadu (mem s) pte)
            in if pa = 0 then Inl (Panic ''kfree'')
               else bindr (kfree (P2V pa) s) (\<lambda>s. dealloc_from k dir (u32 (int a + int PGSIZE)) oldsz (storeu pte 0 s))
          else dealloc_from k dir (u32 (int a + int PGSIZE)) oldsz s)
      else Inr s)"

definition deallocuvm :: "nat \<Rightarrow> nat \<Rightarrow> nat \<Rightarrow> 'a kmem_scheme \<Rightarrow> (nat \<times> 'a kmem_scheme) res" where
  "deallocuvm dir oldsz newsz s =
     (if newsz \<ge> oldsz then Inr (oldsz, s)
      else bindr (dealloc_from (oldsz div PGSIZE + 2) dir (PGROUNDUP newsz) oldsz s) (\<lambda>s. Inr (newsz, s)))"

definition freevm :: "nat \<Rightarrow> 'a kmem_scheme \<Rightarrow> 'a kmem_scheme res" where
  "freevm dir s =
     (if dir = 0 then Inl (Panic ''freevm: no pgdir'')
      else bindr (deallocuvm dir KERNBASE 0 s) (\<lambda>(_, s).
           bindr (for_each [0..<NPDENTRIES] (\<lambda>i s.
             if loadu (mem s) (dir + 4 * i) AND PTE_P \<noteq> 0 then kfree (P2V (PTE_ADDR (loadu (mem s) (dir + 4 * i)))) s
             else Inr s) s) (\<lambda>s.
           kfree dir s)))"

record kmap =
  k_virt :: nat
  k_phys_start :: nat
  k_phys_end :: nat
  k_perm :: nat

definition kmap_table :: "nat \<Rightarrow> kmap list" where
  "kmap_table data =
     [\<lparr>k_virt = KERNBASE, k_phys_start = 0, k_phys_end = EXTMEM, k_perm = PTE_W\<rparr>,
      \<lparr>k_virt = KERNLINK, k_phys_start = V2P KERNLINK, k_phys_end = V2P data, k_perm = 0\<rparr>,
      \<lparr>k_virt = data, k_phys_start = V2P data, k_phys_end = PHYSTOP, k_perm = PTE_W\<rparr>,
      \<lparr>k_virt = DEVSPACE, k_phys_start = DEVSPACE, k_phys_end = 0, k_perm = PTE_W\<rparr>]"

fun map_kernel :: "nat \<Rightarrow> kmap list \<Rightarrow> 'a kmem_scheme \<Rightarrow> (nat \<times> 'a kmem_scheme) res" where
  "map_kernel dir [] s = Inr (dir, s)"
| "map_kernel dir (k # ks) s =
     bindr (mappages dir (k_virt k) (u32 (int (k_phys_end k) - int (k_phys_start k))) (k_phys_start k) (k_perm k) s) (\<lambda>(r, s).
       if r < 0 then bindr (freevm dir s) (\<lambda>s. Inr (0, s)) else map_kernel dir ks s)"

definition setupkvm :: "nat \<Rightarrow> 'a kmem_scheme \<Rightarrow> (nat \<times> 'a kmem_scheme) res" where
  "setupkvm data s =
     bindr (kalloc s) (\<lambda>(dir, s).
       if dir = 0 then Inr (0, s)
       else
         let s = fill dir s
         in if P2V PHYSTOP > DEVSPACE then Inl (Panic ''PHYSTOP too high'')
            else map_kernel dir (kmap_table data) s)"

definition kvmalloc :: "nat \<Rightarrow> 'a pstate_t_scheme \<Rightarrow> 'a pstate_t_scheme res" where
  "kvmalloc data s = bindr (setupkvm data s) (\<lambda>(d, s). switchkvm (s\<lparr>kpgdir := d\<rparr>))"

definition inituvm :: "nat \<Rightarrow> nat \<Rightarrow> nat \<Rightarrow> 'a kmem_scheme \<Rightarrow> 'a kmem_scheme res" where
  "inituvm dir init len s =
     (if len \<ge> PGSIZE then Inl (Panic ''inituvm: more than a page'')
      else bindr (kalloc s) (\<lambda>(m, s).
        if m = 0 then Inl (Undef ''null pointer'')
        else bindr (mappages dir 0 PGSIZE (V2P m) (PTE_W OR PTE_U) (fill m s)) (\<lambda>(_, s).
               Inr (s\<lparr>mem := memmove m init len (mem s)\<rparr>))))"

fun alloc_from :: "nat \<Rightarrow> nat \<Rightarrow> nat \<Rightarrow> nat \<Rightarrow> nat \<Rightarrow> 'a console_scheme \<Rightarrow> (nat \<times> 'a console_scheme) res" where
  "alloc_from 0 dir a oldsz newsz s = Inl Spin"
| "alloc_from (Suc k) dir a oldsz newsz s =
     (if a < newsz then
        bindr (kalloc s) (\<lambda>(m, s).
          if m = 0 then
            bindr (cprintf (Some (''allocuvm out of memory'' @ [CHR 0x0A])) [] s) (\<lambda>s.
            bindr (deallocuvm dir newsz oldsz s) (\<lambda>(_, s). Inr (0, s)))
          else
            bindr (mappages dir a PGSIZE (V2P m) (PTE_W OR PTE_U) (fill m s)) (\<lambda>(r, s).
              if r < 0 then
                bindr (cprintf (Some (''allocuvm out of memory (2)'' @ [CHR 0x0A])) [] s) (\<lambda>s.
                bindr (deallocuvm dir newsz oldsz s) (\<lambda>(_, s).
                bindr (kfree m s) (\<lambda>s. Inr (0, s))))
              else alloc_from k dir (u32 (int a + int PGSIZE)) oldsz newsz s))
      else Inr (newsz, s))"

definition allocuvm :: "nat \<Rightarrow> nat \<Rightarrow> nat \<Rightarrow> 'a console_scheme \<Rightarrow> (nat \<times> 'a console_scheme) res" where
  "allocuvm dir oldsz newsz s =
     (if newsz \<ge> KERNBASE then Inr (0, s)
      else if newsz < oldsz then Inr (oldsz, s)
      else alloc_from (newsz div PGSIZE + 2) dir (PGROUNDUP oldsz) oldsz newsz s)"

definition clearpteu :: "nat \<Rightarrow> nat \<Rightarrow> 'a kmem_scheme \<Rightarrow> 'a kmem_scheme res" where
  "clearpteu dir uva s =
     bindr (walkpgdir dir uva False s) (\<lambda>(pte, s).
       if pte = 0 then Inl (Panic ''clearpteu'')
       else Inr (storeu pte (nat (int (loadu (mem s) pte) AND NOT (int PTE_U))) s))"

fun copy_from :: "nat \<Rightarrow> nat \<Rightarrow> nat \<Rightarrow> nat \<Rightarrow> nat \<Rightarrow> 'a kmem_scheme \<Rightarrow> (nat \<times> 'a kmem_scheme) res" where
  "copy_from 0 dir d i len s = Inl Spin"
| "copy_from (Suc k) dir d i len s =
     (if i < len then
        bindr (walkpgdir dir i False s) (\<lambda>(pte, s).
          if pte = 0 then Inl (Panic ''copyuvm: pte should exist'')
          else if loadu (mem s) pte AND PTE_P = 0 then Inl (Panic ''copyuvm: page not present'')
          else
            let pa = PTE_ADDR (loadu (mem s) pte); flags = PTE_FLAGS (loadu (mem s) pte)
            in bindr (kalloc s) (\<lambda>(m, s).
                 if m = 0 then bindr (freevm d s) (\<lambda>s. Inr (0, s))
                 else
                   let s = s\<lparr>mem := memmove m (P2V pa) PGSIZE (mem s)\<rparr>
                   in bindr (mappages d i PGSIZE (V2P m) flags s) (\<lambda>(r, s).
                        if r < 0 then bindr (kfree m s) (\<lambda>s. bindr (freevm d s) (\<lambda>s. Inr (0, s)))
                        else copy_from k dir d (u32 (int i + int PGSIZE)) len s)))
      else Inr (d, s))"

definition copyuvm :: "nat \<Rightarrow> nat \<Rightarrow> nat \<Rightarrow> 'a kmem_scheme \<Rightarrow> (nat \<times> 'a kmem_scheme) res" where
  "copyuvm data dir len s =
     bindr (setupkvm data s) (\<lambda>(d, s).
       if d = 0 then Inr (0, s) else copy_from (len div PGSIZE + 2) dir d 0 len s)"

definition uva2ka :: "nat \<Rightarrow> nat \<Rightarrow> 'a kmem_scheme \<Rightarrow> nat res" where
  "uva2ka dir uva s =
     bindr (walkpgdir dir uva False s) (\<lambda>(pte, s).
       if pte = 0 then Inl (Undef ''null pointer'')
       else if loadu (mem s) pte AND PTE_P = 0 then Inr 0
       else if loadu (mem s) pte AND PTE_U = 0 then Inr 0
       else Inr (P2V (PTE_ADDR (loadu (mem s) pte))))"

lemma PGROUNDDOWN_eq: "PGROUNDDOWN a = a - a mod 4096"
proof -
  have "int a AND NOT (int PGSIZE - 1) = int a - int a mod 4096" using and_not_mask [of "int a"] by (simp add: PGSIZE_def)
  moreover have "int a mod 4096 = int (a mod 4096)" by (simp add: zmod_int)
  ultimately show ?thesis unfolding PGROUNDDOWN_def by (simp add: nat_diff_distrib)
qed

text \<open>\<open>bs\<close> are the bytes at the kernel address that copyout copies from.\<close>

definition store_bytes :: "nat \<Rightarrow> char list \<Rightarrow> mem \<Rightarrow> mem" where
  "store_bytes a bs m = (\<lambda>i. if a \<le> i \<and> i < a + length bs then bs ! (i - a) else m i)"

function copyout :: "nat \<Rightarrow> nat \<Rightarrow> char list \<Rightarrow> 'a kmem_scheme \<Rightarrow> (int \<times> 'a kmem_scheme) res" where
  "copyout dir va bs s =
     (if bs = [] then Inr (0, s)
      else
        let va0 = PGROUNDDOWN va
        in bindr (uva2ka dir va0 s) (\<lambda>pa0.
             if pa0 = 0 then Inr (-1, s)
             else
               let n = min (PGSIZE - (va - va0)) (length bs)
               in copyout dir (u32 (int va0 + int PGSIZE)) (drop n bs)
                    (s\<lparr>mem := store_bytes (pa0 + (va - va0)) (take n bs) (mem s)\<rparr>)))"
  by pat_completeness auto
termination
  by (relation "measure (\<lambda>(dir, va, bs, s). length bs)") (auto simp: PGROUNDDOWN_eq PGSIZE_def)

declare copyout.simps [simp del]

section \<open>Bits of addresses and entries\<close>

lemma PDX_eq: "PDX va = va div 4194304 mod 1024"
proof -
  have "drop_bit 22 va AND mask 10 = take_bit 10 (drop_bit 22 va)" by (simp add: take_bit_eq_mask)
  then show ?thesis by (simp add: PDX_def mask_eq_exp_minus_1 take_bit_eq_mod drop_bit_eq_div)
qed

lemma PTX_eq: "PTX va = va div 4096 mod 1024"
proof -
  have "drop_bit 12 va AND mask 10 = take_bit 10 (drop_bit 12 va)" by (simp add: take_bit_eq_mask)
  then show ?thesis by (simp add: PTX_def mask_eq_exp_minus_1 take_bit_eq_mod drop_bit_eq_div)
qed

lemma PDX_less [simp]: "PDX va < 1024" and PTX_less [simp]: "PTX va < 1024"
  by (simp_all add: PDX_eq PTX_eq)

lemma PTE_ADDR_eq: "PTE_ADDR e = e - e mod 4096"
proof -
  have "int e AND NOT 4095 = int e - int e mod 4096" using and_not_mask [of "int e"] by simp
  moreover have "int e mod 4096 = int (e mod 4096)" by (simp add: zmod_int)
  ultimately show ?thesis unfolding PTE_ADDR_def by (simp add: nat_diff_distrib)
qed

lemma PTE_FLAGS_eq: "PTE_FLAGS e = e mod 4096"
proof -
  have "e AND mask 12 = take_bit 12 e" by (simp add: take_bit_eq_mask)
  then show ?thesis by (simp add: PTE_FLAGS_def mask_eq_exp_minus_1 take_bit_eq_mod)
qed

lemma or_flags:
  assumes "x mod 4096 = (0 :: nat)" "f < 4096"
  shows "x OR f = x + f"
proof -
  have x: "x = push_bit 12 (x div 4096)" using assms(1) div_mult_mod_eq [of x 4096] by (simp add: push_bit_eq_mult)
  have f: "f = take_bit 12 f" using assms(2) by (simp add: take_bit_eq_mod)
  have "\<not> bit (push_bit 12 (x div 4096)) n \<or> \<not> bit (take_bit 12 f) n" for n by (auto simp: bit_simps)
  then have "\<not> bit x n \<or> \<not> bit f n" for n using x f by metis
  then show ?thesis by (simp add: disjunctive_add)
qed

lemma PTE_P_iff: "e AND PTE_P = 0 \<longleftrightarrow> even e" "e AND PTE_P \<noteq> 0 \<longleftrightarrow> odd e"
  by (simp_all add: PTE_P_def and_one_eq odd_iff_mod_2_eq_one even_iff_mod_2_eq_zero)

lemma loadu_less [simp]: "loadu m a < 4294967296"
proof -
  obtain p q r s :: nat where b: "of_char (m a) = p" "of_char (m (a + 1)) = q" "of_char (m (a + 2)) = r" "of_char (m (a + 3)) = s"
    "p < 256" "q < 256" "r < 256" "s < 256" by simp
  have "load32 m a = int p + 256 * int q + 65536 * int r + 16777216 * int s"
    unfolding b(1-4) [symmetric] of_nat_of_char load32_def by simp
  then have "loadu m a = p + 256 * q + 65536 * r + 16777216 * s" by (simp add: loadu_def)
  then show ?thesis using b(5-8) by simp
qed

lemma loadu_store: "v < 4294967296 \<Longrightarrow> loadu (store32 m a (int v)) a = v"
  by (simp add: loadu_def load32_store32)

lemma loadu_store_other: "a + 4 \<le> b \<or> b + 4 \<le> a \<Longrightarrow> loadu (store32 m b v) a = loadu m a"
  by (simp add: loadu_def load32_store32_other)

lemma loadu_cong: "(\<And>i. i < 4 \<Longrightarrow> m' (a + i) = m (a + i)) \<Longrightarrow> loadu m' a = loadu m a"
  using load32_cong [of m' a m] by (simp add: loadu_def)

lemma kernel_page:
  assumes "page_ok k p" "KERNBASE \<le> k"
  shows "V2P p = p - KERNBASE" "V2P p mod 4096 = 0" "P2V (V2P p) = p" "V2P p < 2 ^ 28" "p + 4096 \<le> 4294967296" "0 < p" "p mod 4096 = 0"
    "KERNBASE \<le> p"
proof -
  have b: "2147483648 \<le> p" "p < 4294967296" "p mod 4096 = 0" "V2P p < 234881024"
    using assms by (auto simp: page_ok_def KERNBASE_def PHYSTOP_def)
  show v: "V2P p = p - KERNBASE" using b by (simp add: V2P_def KERNBASE_def nat_diff_distrib)
  show "V2P p < 2 ^ 28" using b(4) by simp
  obtain q where q: "p = 4096 * q" using b(3) by (metis mod_0_imp_dvd dvdE)
  have k: "KERNBASE = 4096 * 524288" by (simp add: KERNBASE_def)
  have "p - KERNBASE = 4096 * (q - 524288)" unfolding q k by (simp only: diff_mult_distrib2)
  then show "V2P p mod 4096 = 0" using v by simp
  have "int (p - KERNBASE) + int KERNBASE = int p" using b(1) by (simp add: KERNBASE_def)
  then show "P2V (V2P p) = p" using b(2) unfolding v P2V_def by simp
  have "q < 1048576" using b(2) unfolding q by simp
  then show "p + 4096 \<le> 4294967296" unfolding q by simp
  show "0 < p" "p mod 4096 = 0" "KERNBASE \<le> p" using b by (simp_all add: KERNBASE_def)
qed

section \<open>The fuel of the loops\<close>

lemma u32_next_page: "a < 2147483648 \<Longrightarrow> u32 (int a + int PGSIZE) = a + 4096"
  using u32_int [of "a + 4096"] by (simp add: PGSIZE_def)

text \<open>Where deallocuvm goes on when an address has no page table: the next directory entry.\<close>

lemma next_table:
  assumes "a < 2147483648"
  defines "b \<equiv> u32 (int (u32 (int (PGADDR (PDX a + 1) 0 0) - int PGSIZE)) + int PGSIZE)"
  shows "b = (a div 4194304 + 1) * 4194304"
proof -
  have d: "a div 4194304 < 512" using assms(1) by (simp add: less_mult_imp_div_less)
  then have p: "PDX a + 1 = a div 4194304 + 1" by (simp add: PDX_eq)
  define n where "n = (a div 4194304 + 1) * 4194304"
  have n: "4194304 \<le> n" "n \<le> 2147483648" using d by (simp_all add: n_def)
  have "PGADDR (PDX a + 1) 0 0 = n"
    using n u32_int [of n] unfolding PGADDR_def p by (simp add: push_bit_eq_mult n_def)
  moreover have "int n - int PGSIZE = int (n - 4096)" "n - 4096 < 4294967296" using n by (simp_all add: PGSIZE_def)
  moreover have "int (n - 4096) + int PGSIZE = int n" "n < 4294967296" using n by (simp_all add: PGSIZE_def)
  ultimately have "b = n" unfolding b_def by (simp only: u32_int)
  then show ?thesis by (simp only: n_def)
qed

lemma next_table_page: "a div 4096 + 1 \<le> (a div 4194304 + 1) * 4194304 div (4096 :: nat)"
proof -
  have "a div 4194304 = a div 4096 div 1024" by (simp add: div_mult2_eq [symmetric])
  moreover have "a div 4096 < (a div 4096 div 1024 + 1) * 1024" using dividend_less_div_times [of 1024 "a div 4096"] by simp
  moreover have "(a div 4194304 + 1) * 4194304 div 4096 = (a div 4194304 + 1) * 1024" by simp
  ultimately show ?thesis by simp
qed

lemma dealloc_fuel:
  assumes "oldsz \<le> 2147483648" "oldsz div 4096 < a div 4096 + k"
  shows "dealloc_from (Suc (Suc k)) dir a oldsz s = dealloc_from (Suc k) dir a oldsz s"
  using assms(2)
proof (induction k arbitrary: a s)
  case 0
  then have "\<not> a < oldsz" using div_le_mono [of a oldsz 4096] by linarith
  then show ?case by simp
next
  case (Suc k)
  show ?case
  proof (cases "a < oldsz")
    case True
    then have a: "a < 2147483648" using assms(1) by simp
    have "oldsz div 4096 < (a + 4096) div 4096 + k" "oldsz div 4096 < (a div 4194304 + 1) * 4194304 div 4096 + k"
      using Suc.prems next_table_page [of a] by simp_all
    note IH = this [THEN Suc.IH]
    show ?thesis
      by (subst (1 2) dealloc_from.simps(2)) (simp only: Let_def next_table [OF a] u32_next_page [OF a] IH)
  qed simp
qed

lemma alloc_fuel:
  assumes "newsz \<le> 2147483648" "newsz div 4096 < a div 4096 + k"
  shows "alloc_from (Suc (Suc k)) dir a oldsz newsz s = alloc_from (Suc k) dir a oldsz newsz s"
  using assms(2)
proof (induction k arbitrary: a s)
  case 0
  then have "\<not> a < newsz" using div_le_mono [of a newsz 4096] by linarith
  then show ?case by simp
next
  case (Suc k)
  show ?case
  proof (cases "a < newsz")
    case True
    then have a: "a < 2147483648" using assms(1) by simp
    have "newsz div 4096 < (a + 4096) div 4096 + k" using Suc.prems by simp
    note IH = this [THEN Suc.IH]
    show ?thesis by (subst (1 2) alloc_from.simps(2)) (simp only: u32_next_page [OF a] IH)
  qed simp
qed

lemma copy_fuel:
  assumes "len \<le> 2147483648" "len div 4096 < i div 4096 + k"
  shows "copy_from (Suc (Suc k)) dir d i len s = copy_from (Suc k) dir d i len s"
  using assms(2)
proof (induction k arbitrary: i s)
  case 0
  then have "\<not> i < len" using div_le_mono [of i len 4096] by linarith
  then show ?case by simp
next
  case (Suc k)
  show ?case
  proof (cases "i < len")
    case True
    then have i: "i < 2147483648" using assms(1) by simp
    have "len div 4096 < (i + 4096) div 4096 + k" using Suc.prems by simp
    note IH = this [THEN Suc.IH]
    show ?thesis by (subst (1 2) copy_from.simps(2)) (simp only: Let_def u32_next_page [OF i] IH)
  qed simp
qed

section \<open>What a page directory maps\<close>

definition pde_at :: "mem \<Rightarrow> nat \<Rightarrow> nat \<Rightarrow> nat" where
  "pde_at m dir i = loadu m (dir + 4 * i)"

definition table_at :: "mem \<Rightarrow> nat \<Rightarrow> nat \<Rightarrow> nat" where
  "table_at m dir i = P2V (PTE_ADDR (pde_at m dir i))"

text \<open>The page table entry for an address, as the hardware finds it; \<open>None\<close> is a page fault.\<close>

definition mapping :: "mem \<Rightarrow> nat \<Rightarrow> nat \<Rightarrow> nat option" where
  "mapping m dir va =
     (if even (pde_at m dir (PDX va)) then None
      else let e = loadu m (table_at m dir (PDX va) + 4 * PTX va) in if even e then None else Some e)"

text \<open>The directory and its tables are pages of their own, and the free list \<open>ps\<close> has none of them.\<close>

definition pt_ok :: "'a kmem_scheme \<Rightarrow> nat \<Rightarrow> nat list \<Rightarrow> bool" where
  "pt_ok s dir ps \<longleftrightarrow> page_ok (kend s) dir \<and> dir \<notin> set ps \<and>
     (\<forall>i < 1024. odd (pde_at (mem s) dir i) \<longrightarrow> page_ok (kend s) (table_at (mem s) dir i) \<and> table_at (mem s) dir i \<notin> insert dir (set ps)) \<and>
     (\<forall>i < 1024. \<forall>j < 1024. odd (pde_at (mem s) dir i) \<longrightarrow> odd (pde_at (mem s) dir j) \<longrightarrow>
        table_at (mem s) dir i = table_at (mem s) dir j \<longrightarrow> i = j)"

definition vm_inv :: "'a kmem_scheme \<Rightarrow> nat \<Rightarrow> nat list \<Rightarrow> bool" where
  "vm_inv s dir ps \<longleftrightarrow> kmem_ready s \<and> free_pages s ps \<and> KERNBASE \<le> kend s \<and> pt_ok s dir ps"

lemma vm_invD:
  assumes "vm_inv s dir ps"
  shows "kmem_ready s" "free_pages s ps" "KERNBASE \<le> kend s" "pt_ok s dir ps" "page_ok (kend s) dir" "dir \<notin> set ps"
    "i < 1024 \<Longrightarrow> odd (pde_at (mem s) dir i) \<Longrightarrow> page_ok (kend s) (table_at (mem s) dir i)"
    "i < 1024 \<Longrightarrow> odd (pde_at (mem s) dir i) \<Longrightarrow> table_at (mem s) dir i \<noteq> dir"
    "i < 1024 \<Longrightarrow> odd (pde_at (mem s) dir i) \<Longrightarrow> table_at (mem s) dir i \<notin> set ps"
    "i < 1024 \<Longrightarrow> j < 1024 \<Longrightarrow> odd (pde_at (mem s) dir i) \<Longrightarrow> odd (pde_at (mem s) dir j) \<Longrightarrow>
        table_at (mem s) dir i = table_at (mem s) dir j \<Longrightarrow> i = j"
  using assms by (auto simp: vm_inv_def pt_ok_def)

lemma same_page_iff: "va < 4294967296 \<Longrightarrow> vb < 4294967296 \<Longrightarrow> PDX va = PDX vb \<and> PTX va = PTX vb \<longleftrightarrow> va div 4096 = vb div 4096"
proof -
  assume a: "va < 4294967296" "vb < 4294967296"
  have d: "v div 4194304 = v div 4096 div 1024" for v :: nat by (simp add: div_mult2_eq [symmetric])
  have l: "v div 4096 div 1024 < 1024" if "v < 4294967296" for v :: nat using that by (simp add: div_mult2_eq [symmetric] less_mult_imp_div_less)
  have e: "PDX v = v div 4096 div 1024" "PTX v = v div 4096 mod 1024" if "v < 4294967296" for v
    using l [OF that] by (simp_all add: PDX_eq PTX_eq d)
  show ?thesis unfolding e [OF a(1)] e [OF a(2)] by (metis div_mult_mod_eq)
qed

lemma pde_cong: "(\<And>a. dir \<le> a \<Longrightarrow> a < dir + 4096 \<Longrightarrow> m' a = m a) \<Longrightarrow> i < 1024 \<Longrightarrow> pde_at m' dir i = pde_at m dir i"
  unfolding pde_at_def by (rule loadu_cong) auto

text \<open>Memory outside the directory and its tables does not matter.\<close>

lemma mapping_cong:
  assumes "\<And>a. dir \<le> a \<Longrightarrow> a < dir + 4096 \<Longrightarrow> m' a = m a"
    "\<And>i a. i < 1024 \<Longrightarrow> odd (pde_at m dir i) \<Longrightarrow> table_at m dir i \<le> a \<Longrightarrow> a < table_at m dir i + 4096 \<Longrightarrow> m' a = m a"
  shows "i < 1024 \<Longrightarrow> pde_at m' dir i = pde_at m dir i" "i < 1024 \<Longrightarrow> table_at m' dir i = table_at m dir i" "mapping m' dir va = mapping m dir va"
proof -
  show p: "pde_at m' dir i = pde_at m dir i" if "i < 1024" for i using assms(1) that by (rule pde_cong)
  show t: "table_at m' dir i = table_at m dir i" if "i < 1024" for i using p [OF that] by (simp add: table_at_def)
  have "loadu m' (table_at m dir (PDX va) + 4 * PTX va) = loadu m (table_at m dir (PDX va) + 4 * PTX va)" if "odd (pde_at m dir (PDX va))"
  proof (rule loadu_cong)
    fix i :: nat assume "i < 4"
    moreover have "PTX va < 1024" by simp
    ultimately have "4 * PTX va + i < 4096" by linarith
    then show "m' (table_at m dir (PDX va) + 4 * PTX va + i) = m (table_at m dir (PDX va) + 4 * PTX va + i)"
      using assms(2) [OF PDX_less that] by simp
  qed
  then show "mapping m' dir va = mapping m dir va" by (simp add: mapping_def p t)
qed

text \<open>Writing an entry of a page table.\<close>

lemma store_pte:
  assumes "vm_inv s dir ps" "odd (pde_at (mem s) dir (PDX va))" "e < 4294967296"
  defines "t \<equiv> storeu (table_at (mem s) dir (PDX va) + 4 * PTX va) e s"
  shows "vm_inv t dir ps" "i < 1024 \<Longrightarrow> pde_at (mem t) dir i = pde_at (mem s) dir i" "i < 1024 \<Longrightarrow> table_at (mem t) dir i = table_at (mem s) dir i"
    "PDX vb = PDX va \<Longrightarrow> PTX vb = PTX va \<Longrightarrow> mapping (mem t) dir vb = (if even e then None else Some e)"
    "PDX vb \<noteq> PDX va \<or> PTX vb \<noteq> PTX va \<Longrightarrow> mapping (mem t) dir vb = mapping (mem s) dir vb"
    "kmem_frame s t"
proof -
  note v = vm_invD [OF assms(1)]
  let ?T = "table_at (mem s) dir (PDX va)"
  let ?p = "?T + 4 * PTX va"
  obtain jx where jx: "PTX va = jx" "jx < 1024" by simp
  have T: "page_ok (kend s) ?T" "?T \<noteq> dir" "?T \<notin> set ps" using v(7,8,9) assms(2) by simp_all
  have m: "mem t = store32 (mem s) ?p (int e)" by (simp add: t_def storeu_def)
  have out: "mem t a = mem s a" if "a < ?T \<or> ?T + 4096 \<le> a" for a
    using that jx(2) unfolding m jx(1) by (auto simp: store32_def)
  have pg: "?T mod 4096 = 0" "dir mod 4096 = 0" using T(1) v(5) by (simp_all add: page_ok_def)
  have other: "q + 4096 \<le> ?T \<or> ?T + 4096 \<le> q" if "q mod 4096 = 0" "q \<noteq> ?T" for q
    using page_disjoint [OF that(1) pg(1) that(2)] .
  have "mem t a = mem s a" if "dir \<le> a" "a < dir + 4096" for a using out other [OF pg(2)] T(2) that by fastforce
  then show p: "pde_at (mem t) dir i = pde_at (mem s) dir i" if "i < 1024" for i using that by (rule pde_cong)
  then show tb: "table_at (mem t) dir i = table_at (mem s) dir i" if "i < 1024" for i using that by (simp add: table_at_def)
  have k: "kend t = kend s" "freelist t = freelist s" by (simp_all add: t_def storeu_def)
  show "kmem_frame s t" by (simp add: kmem_frame_def t_def storeu_def)
  have "load32 (mem t) q = load32 (mem s) q" if "q \<in> set ps" for q
  proof -
    have "q mod 4096 = 0" "q \<noteq> ?T" using that v(2) T(3) by (auto simp: free_pages_def page_ok_def)
    from other [OF this] show ?thesis by (intro load32_cong out) auto
  qed
  then have "flist (mem t) (freelist t) ps" using v(2) k flist_cong [of ps "mem t" "mem s"] by (simp add: free_pages_def)
  then have "free_pages t ps" using v(2) k by (simp add: free_pages_def)
  moreover have "kmem_ready t" using v(1) by (simp add: kmem_ready_def t_def storeu_def)
  moreover have "pt_ok t dir ps" using v(4) k p tb by (simp add: pt_ok_def)
  ultimately show "vm_inv t dir ps" using v(3) k by (simp add: vm_inv_def)
  show "mapping (mem t) dir vb = (if even e then None else Some e)" if "PDX vb = PDX va" "PTX vb = PTX va"
    using that p tb assms(2,3) by (simp add: mapping_def m loadu_store)
  show "mapping (mem t) dir vb = mapping (mem s) dir vb" if d: "PDX vb \<noteq> PDX va \<or> PTX vb \<noteq> PTX va"
  proof (cases "odd (pde_at (mem s) dir (PDX vb))")
    case True
    let ?U = "table_at (mem s) dir (PDX vb)"
    have U: "page_ok (kend s) ?U" using v(7) True by simp
    obtain jb where jb: "PTX vb = jb" "jb < 1024" by simp
    have "?U + 4 * PTX vb + 4 \<le> ?p \<or> ?p + 4 \<le> ?U + 4 * PTX vb"
    proof (cases "PDX vb = PDX va")
      case False
      then have "?U \<noteq> ?T" using v(10) [of "PDX vb" "PDX va"] True assms(2) by auto
      then show ?thesis using other [of ?U] U jx(2) jb(2) unfolding jx(1) jb(1) by (auto simp: page_ok_def)
    next
      case True
      then have "PTX vb \<noteq> PTX va" using d by simp
      then show ?thesis using True by auto
    qed
    then have "loadu (mem t) (?U + 4 * PTX vb) = loadu (mem s) (?U + 4 * PTX vb)" unfolding m by (rule loadu_store_other)
    then show ?thesis using p tb by (simp add: mapping_def)
  qed (use p in \<open>simp add: mapping_def\<close>)
qed

text \<open>A new, empty page table under a directory entry that was not present.\<close>

lemma new_table:
  assumes "vm_inv s dir (p # ps)" "even (pde_at (mem s) dir i)" "i < 1024" "kmem_ready s1" "free_pages s1 ps" "kmem_frame s s1" "mem s1 = mem s"
  defines "t \<equiv> storeu (dir + 4 * i) (V2P p OR PTE_P OR PTE_W OR PTE_U) (fill p s1)"
  shows "vm_inv t dir ps" "odd (pde_at (mem t) dir i)" "table_at (mem t) dir i = p" "mapping (mem t) dir va = mapping (mem s) dir va" "kmem_frame s t"
proof -
  note v = vm_invD [OF assms(1)]
  have kp: "page_ok (kend s) p" "p \<notin> set ps" "p \<noteq> dir" using v(2,6) by (auto simp: free_pages_def)
  note k = kernel_page [OF kp(1) v(3)] and kd = kernel_page [OF v(5,3)]
  have e: "V2P p OR PTE_P OR PTE_W OR PTE_U = V2P p + 7"
  proof -
    have "V2P p OR PTE_P OR PTE_W OR PTE_U = V2P p OR 7" by (simp add: PTE_P_def PTE_W_def PTE_U_def or.assoc)
    then show ?thesis using or_flags [OF k(2), of 7] by simp
  qed
  let ?e = "V2P p + 7"
  have m: "mem t = store32 (memset p 0 4096 (mem s)) (dir + 4 * i) (int ?e)"
    unfolding t_def e by (simp add: storeu_def fill_def assms(7) PGSIZE_def)
  have dp: "dir + 4096 \<le> p \<or> p + 4096 \<le> dir" using page_disjoint [OF kd(7) k(7)] kp(3) by auto
  have out: "mem t a = mem s a" if "a < p \<or> p + 4096 \<le> a" "a < dir + 4 * i \<or> dir + 4 * i + 4 \<le> a" for a
    using that assms(3) by (auto simp: m store32_def memset_eq)
  have zero: "mem t a = nul" if "p \<le> a" "a < p + 4096" for a
    using that dp assms(3) by (auto simp: m store32_def memset_eq char_of_def)
  have el: "?e < 4294967296" using k(4) by simp
  have pj: "pde_at (mem t) dir j = (if j = i then ?e else pde_at (mem s) dir j)" if "j < 1024" for j
  proof (cases "j = i")
    case True
    then show ?thesis using loadu_store [OF el] by (simp add: pde_at_def m)
  next
    case False
    have "loadu (mem t) (dir + 4 * j) = loadu (mem s) (dir + 4 * j)"
      using False that dp assms(3) by (intro loadu_cong out) auto
    then show ?thesis using False by (simp add: pde_at_def)
  qed
  have odd7: "odd ?e"
  proof -
    have "4096 dvd V2P p" using k(2) by (simp add: mod_0_imp_dvd)
    then have "even (V2P p)" using dvd_trans [of 2 4096 "V2P p"] by simp
    then show ?thesis by simp
  qed
  then show "odd (pde_at (mem t) dir i)" using pj [OF assms(3)] by simp
  have "PTE_ADDR ?e = V2P p" using k(2) by (simp add: PTE_ADDR_eq mod_add_left_eq [symmetric])
  then show ti: "table_at (mem t) dir i = p" using pj [OF assms(3)] k(3) by (simp add: table_at_def)
  have tj: "table_at (mem t) dir j = table_at (mem s) dir j" if "j < 1024" "j \<noteq> i" for j using pj that by (simp add: table_at_def)
  have ke: "kend t = kend s" "freelist t = freelist s1" using assms(6) by (simp_all add: t_def storeu_def fill_def kmem_frame_def)
  show fr: "kmem_frame s t" using assms(6) by (simp add: kmem_frame_def t_def storeu_def fill_def)
  have "load32 (mem t) q = load32 (mem s1) q" if "q \<in> set ps" for q
  proof -
    have q: "q mod 4096 = 0" "q \<noteq> p" "q \<noteq> dir" using that v(2,6) kp(2) by (auto simp: free_pages_def page_ok_def)
    show ?thesis unfolding assms(7)
      using page_disjoint [OF q(1) k(7) q(2)] page_disjoint [OF q(1) kd(7) q(3)] assms(3) by (intro load32_cong out) auto
  qed
  then have "free_pages t ps" using assms(5,6) ke flist_cong [of ps "mem t" "mem s1"] by (simp add: free_pages_def kmem_frame_def)
  moreover have "kmem_ready t" using assms(4) by (simp add: kmem_ready_def t_def storeu_def fill_def)
  moreover have "pt_ok t dir ps"
    unfolding pt_ok_def ke
  proof (intro conjI allI impI)
    show "page_ok (kend s) dir" "dir \<notin> set ps" using v(5,6) by simp_all
    fix j assume j: "j < 1024" "odd (pde_at (mem t) dir j)"
    show "page_ok (kend s) (table_at (mem t) dir j)" "table_at (mem t) dir j \<notin> insert dir (set ps)"
      using j pj v(7-9) kp ti tj by (cases "j = i"; auto)+
    fix l assume l: "l < 1024" "odd (pde_at (mem t) dir l)" "table_at (mem t) dir j = table_at (mem t) dir l"
    have n: "table_at (mem s) dir q \<noteq> p" if "q < 1024" "odd (pde_at (mem s) dir q)" for q using v(9) that by auto
    show "j = l"
      using j l pj ti tj n v(10) assms(2) by (cases "j = i"; cases "l = i") metis+
  qed
  ultimately show "vm_inv t dir ps" using v(3) ke by (simp add: vm_inv_def)
  show "mapping (mem t) dir va = mapping (mem s) dir va"
  proof (cases "PDX va = i")
    case True
    have "loadu (mem t) (p + 4 * PTX va) = 0"
    proof -
      obtain j where j: "PTX va = j" "j < 1024" by simp
      have "mem t (p + 4 * j + c) = nul" if "c < 4" for c using that j(2) by (intro zero) auto
      from this [of 0] this [of 1] this [of 2] this [of 3] show ?thesis unfolding j(1) by (simp add: loadu_def load32_def)
    qed
    then show ?thesis using True assms(2) pj ti odd7 by (simp add: mapping_def)
  next
    case False
    show ?thesis
    proof (cases "odd (pde_at (mem s) dir (PDX va))")
      case True
      let ?T = "table_at (mem s) dir (PDX va)"
      have T: "?T mod 4096 = 0" "?T \<noteq> p" "?T \<noteq> dir" using v(7-9) [OF PDX_less True] by (auto simp: page_ok_def)
      obtain j where j: "PTX va = j" "j < 1024" by simp
      have "loadu (mem t) (?T + 4 * j) = loadu (mem s) (?T + 4 * j)"
        using page_disjoint [OF T(1) k(7) T(2)] page_disjoint [OF T(1) kd(7) T(3)] assms(3) j(2)
        by (intro loadu_cong out) auto
      then show ?thesis using False pj tj j(1) by (simp add: mapping_def)
    qed (use False pj in \<open>simp add: mapping_def\<close>)
  qed
qed

section \<open>walkpgdir and mappages\<close>

lemma walkpgdir_alloc:
  assumes "vm_inv s dir ps"
  shows "returns (walkpgdir dir va True s) (\<lambda>(pte, t). kmem_frame s t \<and> (\<forall>vb. mapping (mem t) dir vb = mapping (mem s) dir vb) \<and>
    (pte = 0 \<and> vm_inv t dir [] \<or>
     (\<exists>qs. vm_inv t dir qs) \<and> odd (pde_at (mem t) dir (PDX va)) \<and> pte = table_at (mem t) dir (PDX va) + 4 * PTX va))"
proof (cases "odd (pde_at (mem s) dir (PDX va))")
  case True
  then show ?thesis using assms
    by (auto simp: walkpgdir_def Let_def PTE_P_iff pde_at_def [symmetric] table_at_def kmem_frame_def)
next
  case False
  note v = vm_invD [OF assms]
  have p: "loadu (mem s) (dir + 4 * PDX va) AND PTE_P = 0" using False by (simp add: PTE_P_iff pde_at_def)
  obtain r s1 where k: "kalloc s = Inr (r, s1)" "kmem_ready s1" "kmem_frame s s1" "mem s1 = mem s"
    "case ps of [] \<Rightarrow> r = 0 \<and> free_pages s1 [] | p # qs \<Rightarrow> r = p \<and> free_pages s1 qs"
    using kalloc_returns [OF v(1,2)] by (auto simp: returns_iff)
  show ?thesis
  proof (cases ps)
    case Nil
    have "pt_ok s1 dir []" using v(4) k(3,4) Nil by (simp add: pt_ok_def kmem_frame_def)
    then have "vm_inv s1 dir []" using k v(3) Nil by (simp add: vm_inv_def kmem_frame_def)
    then show ?thesis using k Nil p by (simp add: walkpgdir_def Let_def)
  next
    case (Cons q qs)
    have e: "even (pde_at (mem s) dir (PDX va))" using False by simp
    have f: "free_pages s1 qs" and r: "r = q" using k(5) Cons by simp_all
    note n = new_table [OF assms [unfolded Cons] e PDX_less k(2) f k(3,4)]
    have "0 < q" using v(2) Cons by (auto simp: free_pages_def page_ok_def)
    then have "walkpgdir dir va True s = Inr (q + 4 * PTX va, storeu (dir + 4 * PDX va) (V2P q OR PTE_P OR PTE_W OR PTE_U) (fill q s1))"
      using p k(1) r by (simp add: walkpgdir_def Let_def)
    then show ?thesis using n by auto
  qed
qed

lemma vm_inv_range: "vm_inv s dir ps \<Longrightarrow> odd (pde_at (mem s) dir (PDX va)) \<Longrightarrow> 0 < table_at (mem s) dir (PDX va)"
  using vm_invD(7) [of s dir ps "PDX va"] by (simp add: page_ok_def)

lemma u32_add_page: "a + 4096 < 4294967296 \<Longrightarrow> u32 (int a + int PGSIZE) = a + 4096"
  using u32_int [of "a + 4096"] by (simp add: PGSIZE_def)

lemma page_of:
  assumes "a mod 4096 = (0 :: nat)"
  shows "vb div 4096 = a div 4096 \<longleftrightarrow> a \<le> vb \<and> vb < a + 4096"
proof -
  obtain q where q: "a = 4096 * q" using assms by (metis mod_0_imp_dvd dvdE)
  show ?thesis unfolding q by auto
qed

lemma page_top:
  assumes "a < 4294967296" "a mod 4096 = (0 :: nat)"
  shows "a + 4096 \<le> 4294967296"
proof -
  obtain q where q: "a = 4096 * q" using assms(2) by (metis mod_0_imp_dvd dvdE)
  show ?thesis using assms(1) unfolding q by simp
qed

lemma map_step:
  assumes "vm_inv s dir ps" "a < 4294967296" "pa mod 4096 = 0" "pa < 4294967296" "perm < 4096" "mapping (mem s) dir a = None"
  shows "(\<exists>t. walkpgdir dir a True s = Inr (0, t) \<and> kmem_frame s t \<and> vm_inv t dir [] \<and> (\<forall>vb. mapping (mem t) dir vb = mapping (mem s) dir vb)) \<or>
    (\<exists>pte t u qs. walkpgdir dir a True s = Inr (pte, t) \<and> pte \<noteq> 0 \<and> loadu (mem t) pte AND PTE_P = 0 \<and>
       u = storeu pte (pa OR perm OR PTE_P) t \<and> vm_inv u dir qs \<and> kmem_frame s u \<and>
       (\<forall>vb < 4294967296. mapping (mem u) dir vb = (if vb div 4096 = a div 4096 then Some (pa + (perm OR PTE_P)) else mapping (mem s) dir vb)))"
proof -
  obtain pte t where w: "walkpgdir dir a True s = Inr (pte, t)" "kmem_frame s t" "\<forall>vb. mapping (mem t) dir vb = mapping (mem s) dir vb"
    "pte = 0 \<and> vm_inv t dir [] \<or>
     (\<exists>qs. vm_inv t dir qs) \<and> odd (pde_at (mem t) dir (PDX a)) \<and> pte = table_at (mem t) dir (PDX a) + 4 * PTX a"
    using walkpgdir_alloc [OF assms(1), of a] by (auto simp: returns_iff)
  show ?thesis
  proof (cases "pte = 0 \<and> vm_inv t dir []")
    case True
    then show ?thesis using w by auto
  next
    case False
    then obtain qs where q: "vm_inv t dir qs" "odd (pde_at (mem t) dir (PDX a))" "pte = table_at (mem t) dir (PDX a) + 4 * PTX a"
      using w(4) by auto
    have nz: "pte \<noteq> 0" using vm_inv_range [OF q(1,2)] q(3) by simp
    have f: "perm OR PTE_P < 4096"
    proof -
      have "take_bit 12 (perm OR PTE_P) = perm OR PTE_P" using assms(5) by (simp add: take_bit_or take_bit_nat_eq_self PTE_P_def)
      then show ?thesis using take_bit_nat_less_exp [of 12 "perm OR PTE_P"] by simp
    qed
    have e: "pa OR perm OR PTE_P = pa + (perm OR PTE_P)" unfolding or.assoc using assms(3) f by (rule or_flags)
    have o: "odd (perm OR PTE_P)" by (simp add: PTE_P_def even_or_iff)
    have ev: "even pa"
    proof -
      have "4096 dvd pa" using assms(3) by (simp add: mod_0_imp_dvd)
      then show ?thesis using dvd_trans [of 2 4096 pa] by simp
    qed
    have l: "pa + (perm OR PTE_P) < 4294967296"
    proof -
      have "pa = 4096 * (pa div 4096)" using assms(3) by (metis mult_div_mod_eq add_0_right)
      moreover have "pa div 4096 < 1048576" using assms(4) by (simp add: less_mult_imp_div_less)
      ultimately show ?thesis using f by linarith
    qed
    note st = store_pte [OF q(1,2) l, folded q(3)]
    have "mapping (mem t) dir a = None" using w(3) assms(6) by simp
    then have np: "even (loadu (mem t) pte)" using q(2,3) by (simp add: mapping_def Let_def split: if_splits)
    let ?u = "storeu pte (pa + (perm OR PTE_P)) t"
    have "mapping (mem ?u) dir vb = (if vb div 4096 = a div 4096 then Some (pa + (perm OR PTE_P)) else mapping (mem s) dir vb)"
      if "vb < 4294967296" for vb
      using st(4,5) [of vb] same_page_iff [OF that assms(2)] w(3) o ev by auto
    moreover have "kmem_frame s ?u" using w(2) st(6) by (rule kmem_frame_trans)
    ultimately show ?thesis using w(1) nz np st(1) unfolding e PTE_P_iff by blast
  qed
qed

lemma map_from_ok:
  assumes "vm_inv s dir ps" "a mod 4096 = 0" "a + 4096 * k < 4294967296" "pa mod 4096 = 0" "pa + 4096 * k < 4294967296" "perm < 4096"
    "\<forall>vb. a \<le> vb \<and> vb < a + 4096 * Suc k \<longrightarrow> mapping (mem s) dir vb = None"
  shows "returns (map_from (Suc k) dir a (a + 4096 * k) pa perm s) (\<lambda>(r, t). kmem_frame s t \<and>
    (r = 0 \<and> (\<exists>qs. vm_inv t dir qs) \<and>
       (\<forall>vb. a \<le> vb \<and> vb < a + 4096 * Suc k \<longrightarrow> mapping (mem t) dir vb = Some (pa + 4096 * ((vb - a) div 4096) + (perm OR PTE_P))) \<or>
     r = -1 \<and> vm_inv t dir []) \<and>
    (\<forall>vb < 4294967296. \<not> (a \<le> vb \<and> vb < a + 4096 * Suc k) \<longrightarrow> mapping (mem t) dir vb = mapping (mem s) dir vb))"
  using assms
proof (induction k arbitrary: a pa s ps)
  case (0 a pa s ps)
  have a: "a < 4294967296" "pa < 4294967296" "mapping (mem s) dir a = None" using "0.prems" by simp_all
  have pg: "vb div 4096 = a div 4096 \<longleftrightarrow> a \<le> vb \<and> vb < a + 4096" for vb
    using "0.prems"(2) by (rule page_of)
  from map_step [OF "0.prems"(1) a(1) "0.prems"(4) a(2) "0.prems"(6) a(3)] show ?case
  proof (elim disjE exE conjE)
    fix pte t u qs
    assume w: "walkpgdir dir a True s = Inr (pte, t)" "pte \<noteq> 0" "loadu (mem t) pte AND PTE_P = 0"
      "u = storeu pte (pa OR perm OR PTE_P) t" "vm_inv u dir qs" "kmem_frame s u"
      "\<forall>vb < 4294967296. mapping (mem u) dir vb = (if vb div 4096 = a div 4096 then Some (pa + (perm OR PTE_P)) else mapping (mem s) dir vb)"
    have "a + 4096 \<le> 4294967296" using a(1) "0.prems"(2) by (rule page_top)
    then show ?thesis using w pg by auto
  qed auto
next
  case (Suc k a pa s ps)
  have a: "a < 4294967296" "pa < 4294967296" "mapping (mem s) dir a = None" using Suc.prems by simp_all
  have pg: "vb div 4096 = a div 4096 \<longleftrightarrow> a \<le> vb \<and> vb < a + 4096" for vb
    using Suc.prems(2) by (rule page_of)
  from map_step [OF Suc.prems(1) a(1) Suc.prems(4) a(2) Suc.prems(6) a(3)] show ?case
  proof (elim disjE exE conjE)
    fix pte t u qs
    assume w: "walkpgdir dir a True s = Inr (pte, t)" "pte \<noteq> 0" "loadu (mem t) pte AND PTE_P = 0"
      "u = storeu pte (pa OR perm OR PTE_P) t" "vm_inv u dir qs" "kmem_frame s u"
      "\<forall>vb < 4294967296. mapping (mem u) dir vb = (if vb div 4096 = a div 4096 then Some (pa + (perm OR PTE_P)) else mapping (mem s) dir vb)"
    have n: "u32 (int a + int PGSIZE) = a + 4096" "u32 (int pa + int PGSIZE) = pa + 4096"
      using Suc.prems(3,5) by (intro u32_add_page; simp)+
    have lim: "vb < 4294967296" if "vb < a + 4096 * Suc (Suc k)" for vb
    proof -
      have "(a + 4096 * Suc k) mod 4096 = 0" using Suc.prems(2) by (simp only: mod_mult_self2)
      then show ?thesis using that page_top [OF Suc.prems(3)] by simp
    qed
    have none: "\<forall>vb. a + 4096 \<le> vb \<and> vb < a + 4096 + 4096 * Suc k \<longrightarrow> mapping (mem u) dir vb = None"
      using w(7) lim pg Suc.prems(7) by simp
    have "(a + 4096) mod 4096 = 0" "(pa + 4096) mod 4096 = 0" using Suc.prems(2,4) by simp_all
    from Suc.IH [OF w(5) this(1) _ this(2) _ Suc.prems(6) none] Suc.prems(3,5)
    obtain r t' where t': "map_from (Suc k) dir (a + 4096) (a + 4096 + 4096 * k) (pa + 4096) perm u = Inr (r, t')" "kmem_frame u t'"
      "r = 0 \<and> (\<exists>qs. vm_inv t' dir qs) \<and> (\<forall>vb. a + 4096 \<le> vb \<and> vb < a + 4096 + 4096 * Suc k \<longrightarrow>
          mapping (mem t') dir vb = Some (pa + 4096 + 4096 * ((vb - (a + 4096)) div 4096) + (perm OR PTE_P))) \<or> r = -1 \<and> vm_inv t' dir []"
      "\<forall>vb < 4294967296. \<not> (a + 4096 \<le> vb \<and> vb < a + 4096 + 4096 * Suc k) \<longrightarrow> mapping (mem t') dir vb = mapping (mem u) dir vb"
      by (auto simp: returns_iff)
    have "map_from (Suc (Suc k)) dir a (a + 4096 * Suc k) pa perm s = Inr (r, t')"
      using w(1-4) t'(1) n by (subst map_from.simps(2)) (simp add: add.assoc del: map_from.simps)
    moreover have "kmem_frame s t'" using w(6) t'(2) by (rule kmem_frame_trans)
    moreover have "mapping (mem t') dir vb = Some (pa + 4096 * ((vb - a) div 4096) + (perm OR PTE_P))"
      if "r = 0" "a \<le> vb" "vb < a + 4096 * Suc (Suc k)" for vb
    proof (cases "vb < a + 4096")
      case True
      then show ?thesis using t'(4) w(7) lim [OF that(3)] pg that by simp
    next
      case False
      then have "(vb - a) div 4096 = Suc ((vb - (a + 4096)) div 4096)" using le_div_geq [of 4096 "vb - a"] by simp
      then show ?thesis using t'(3) that False by simp
    qed
    moreover have "mapping (mem t') dir vb = mapping (mem s) dir vb" if "vb < 4294967296" "\<not> (a \<le> vb \<and> vb < a + 4096 * Suc (Suc k))" for vb
      using that t'(4) w(7) pg by auto
    ultimately show ?thesis using t'(3) by (auto simp del: map_from.simps)
  qed auto
qed

text \<open>
  C6. mappages installs exactly the mappings that it is asked for: over page tables that are pages of their own, for a
  range of pages that is not mapped yet, either it returns 0 and afterwards the hardware translates every
  address of the range to the corresponding physical page with the given permissions, or it returns -1 because the
  free list has run empty; in both cases no address outside the range changes its translation.
\<close>
theorem mappages_maps:
  assumes "vm_inv s dir ps" "va mod 4096 = 0" "pa mod 4096 = 0" "0 < n" "4096 * n < 2 ^ 32" "va + 4096 * n \<le> 2 ^ 32" "pa + 4096 * n \<le> 2 ^ 32"
    "perm < 4096" "\<forall>vb. va \<le> vb \<and> vb < va + 4096 * n \<longrightarrow> mapping (mem s) dir vb = None"
  shows "\<exists>r t. mappages dir va (4096 * n) pa perm s = Inr (r, t) \<and>
    (r = 0 \<and> (\<exists>qs. vm_inv t dir qs) \<and>
       (\<forall>vb. va \<le> vb \<and> vb < va + 4096 * n \<longrightarrow> mapping (mem t) dir vb = Some (pa + 4096 * ((vb - va) div 4096) + (perm OR PTE_P))) \<or>
     r = -1 \<and> vm_inv t dir []) \<and>
    (\<forall>vb < 2 ^ 32. \<not> (va \<le> vb \<and> vb < va + 4096 * n) \<longrightarrow> mapping (mem t) dir vb = mapping (mem s) dir vb)"
proof -
  obtain k where k: "n = Suc k" using assms(4) by (cases n) auto
  have l: "va + 4096 * k < 4294967296" "pa + 4096 * k < 4294967296" using assms(6,7) k by simp_all
  have u: "u32 (int va + int (4096 * n) - 1) = va + 4096 * k + 4095"
  proof -
    have "int va + int (4096 * n) - 1 = int (va + 4096 * k + 4095)" using k by simp
    then show ?thesis using u32_int [of "va + 4096 * k + 4095"] assms(6) k by simp
  qed
  have a0: "PGROUNDDOWN va = va" using assms(2) by (simp add: PGROUNDDOWN_eq)
  have m0: "(va + 4096 * k) mod 4096 = 0" using assms(2) by simp
  have l0: "PGROUNDDOWN (va + 4096 * k + 4095) = va + 4096 * k"
  proof -
    obtain q where q: "va + 4096 * k = 4096 * q" using m0 by (metis mod_0_imp_dvd dvdE)
    show ?thesis unfolding q by (simp add: PGROUNDDOWN_eq)
  qed
  have f: "u32 (int (va + 4096 * k) - int va) div PGSIZE = k"
    using l(1) u32_int [of "4096 * k"] by (simp add: PGSIZE_def)
  have "mappages dir va (4096 * n) pa perm s = map_from (Suc k) dir va (va + 4096 * k) pa perm s"
    unfolding mappages_def Let_def u a0 l0 f ..
  then show ?thesis
    using map_from_ok [OF assms(1,2) l(1) assms(3) l(2) assms(8)] assms(9) k
    by (auto simp: returns_iff simp del: map_from.simps)
qed

section \<open>copyout\<close>

lemma mapping_page: "va div 4096 = vb div 4096 \<Longrightarrow> mapping m dir va = mapping m dir vb"
proof -
  assume a: "va div 4096 = vb div 4096"
  have "v div 4194304 = v div 4096 div 1024" for v :: nat by (simp add: div_mult2_eq [symmetric])
  then have "PDX va = PDX vb" "PTX va = PTX vb" using a by (simp_all add: PDX_eq PTX_eq)
  then show ?thesis by (simp add: mapping_def)
qed

text \<open>The kernel address of a byte that the process may access.\<close>

definition user_ka :: "mem \<Rightarrow> nat \<Rightarrow> nat \<Rightarrow> nat option" where
  "user_ka m dir va =
     (case mapping m dir va of None \<Rightarrow> None
      | Some e \<Rightarrow> if e AND PTE_U = 0 then None else Some (P2V (PTE_ADDR e) + va mod 4096))"

text \<open>No page that the process may access holds page tables.\<close>

definition tables_safe :: "mem \<Rightarrow> nat \<Rightarrow> bool" where
  "tables_safe m dir \<longleftrightarrow> (\<forall>va a. user_ka m dir va = Some a \<longrightarrow> 4096 \<le> a \<and> \<not> (dir \<le> a \<and> a < dir + 4096) \<and>
     (\<forall>i < 1024. odd (pde_at m dir i) \<longrightarrow> \<not> (table_at m dir i \<le> a \<and> a < table_at m dir i + 4096)))"

lemma uva2ka_eq:
  assumes "odd (pde_at (mem s) dir (PDX va))" "0 < table_at (mem s) dir (PDX va)"
  shows "uva2ka dir va s = Inr (case mapping (mem s) dir va of None \<Rightarrow> 0 | Some e \<Rightarrow> if e AND PTE_U = 0 then 0 else P2V (PTE_ADDR e))"
  using assms
  by (auto simp: uva2ka_def walkpgdir_def Let_def PTE_P_iff mapping_def pde_at_def [symmetric] table_at_def [symmetric])

lemma uva2ka_unmapped:
  assumes "even (pde_at (mem s) dir (PDX va))"
  shows "uva2ka dir va s = Inl (Undef ''null pointer'')"
  using assms by (simp add: uva2ka_def walkpgdir_def Let_def PTE_P_iff pde_at_def [symmetric])

text \<open>The address has a page table.\<close>

definition has_table :: "mem \<Rightarrow> nat \<Rightarrow> nat \<Rightarrow> bool" where
  "has_table m dir va \<longleftrightarrow> odd (pde_at m dir (PDX va)) \<and> 0 < table_at m dir (PDX va)"

definition copied :: "nat \<Rightarrow> nat \<Rightarrow> char list \<Rightarrow> mem \<Rightarrow> int \<Rightarrow> mem \<Rightarrow> bool" where
  "copied dir va bs m r m' \<longleftrightarrow> (\<forall>vb. mapping m' dir vb = mapping m dir vb) \<and>
     (\<forall>a. m' a \<noteq> m a \<longrightarrow> (\<exists>i < length bs. user_ka m dir (va + i) = Some a)) \<and>
     (if \<forall>i < length bs. user_ka m dir (va + i) \<noteq> None
      then r = 0 \<and> (inj_on (\<lambda>i. user_ka m dir (va + i)) {..<length bs} \<longrightarrow>
        (\<forall>i < length bs. \<forall>a. user_ka m dir (va + i) = Some a \<longrightarrow> m' a = bs ! i))
      else r = -1)"

lemma page_simps:
  fixes va :: nat
  defines "va0 \<equiv> va - va mod 4096"
  shows "va0 div 4096 = va div 4096" "va mod 4096 + i < 4096 \<Longrightarrow> (va + i) div 4096 = va div 4096"
    "va mod 4096 + i < 4096 \<Longrightarrow> (va + i) mod 4096 = va mod 4096 + i" "va - va0 = va mod 4096" "va0 + 4096 = va + (4096 - va mod 4096)"
    "va0 \<le> va"
proof -
  have v: "va = 4096 * (va div 4096) + va mod 4096" by simp
  have l: "va mod 4096 < 4096" by simp
  obtain q r where qr: "va = 4096 * q + r" "r < 4096" "va mod 4096 = r" "va div 4096 = q" using v l by blast
  have v0: "va0 = 4096 * q" unfolding va0_def qr(3) using qr(1) by simp
  show "va0 div 4096 = va div 4096" using v0 qr(4) by simp
  show "(va + i) div 4096 = va div 4096" "(va + i) mod 4096 = va mod 4096 + i" if "va mod 4096 + i < 4096"
    using that qr(2) unfolding qr(3,4) by (simp_all add: qr(1) add.assoc)
  show "va - va0 = va mod 4096" "va0 + 4096 = va + (4096 - va mod 4096)" "va0 \<le> va" unfolding v0 qr(3) using qr(1,2) by simp_all
qed

lemma store_user:
  assumes "tables_safe m dir" "\<And>i. i < length bs \<Longrightarrow> user_ka m dir (va + i) = Some (A + i)"
  defines "m' \<equiv> store_bytes A bs m"
  shows "i < 1024 \<Longrightarrow> pde_at m' dir i = pde_at m dir i" "i < 1024 \<Longrightarrow> table_at m' dir i = table_at m dir i"
    "mapping m' dir vb = mapping m dir vb" "user_ka m' dir vb = user_ka m dir vb" "tables_safe m' dir"
proof -
  have out: "m' a = m a" if "\<forall>i < length bs. a \<noteq> A + i" for a
  proof -
    have "\<not> (A \<le> a \<and> a < A + length bs)"
    proof
      assume a: "A \<le> a \<and> a < A + length bs"
      then have "a - A < length bs" by linarith
      then show False using that [rule_format, of "a - A"] a by simp
    qed
    then show ?thesis by (auto simp: m'_def store_bytes_def)
  qed
  have d: "m' a = m a" if "dir \<le> a" "a < dir + 4096" for a
    using assms(1,2) that by (intro out) (auto simp: tables_safe_def)
  have t: "m' a = m a" if "i < 1024" "odd (pde_at m dir i)" "table_at m dir i \<le> a" "a < table_at m dir i + 4096" for i a
    using assms(1,2) that by (intro out) (fastforce simp: tables_safe_def)
  note c = mapping_cong [of dir m' m, OF d t]
  show p: "pde_at m' dir i = pde_at m dir i" "table_at m' dir i = table_at m dir i" if "i < 1024" for i using c(1,2) that by auto
  show mp: "mapping m' dir vb = mapping m dir vb" for vb using c(3) by auto
  show u: "user_ka m' dir vb = user_ka m dir vb" for vb by (simp add: user_ka_def mp)
  show "tables_safe m' dir" using assms(1) p u by (simp add: tables_safe_def)
qed

lemma copyout_ok:
  assumes "va + length bs \<le> 4294967296" "tables_safe (mem s) dir" "\<forall>i < length bs. has_table (mem s) dir (va + i)"
  shows "\<exists>r t. copyout dir va bs s = Inr (r, t) \<and> (\<exists>m. t = s\<lparr>mem := m\<rparr>) \<and> copied dir va bs (mem s) r (mem t)"
  using assms
proof (induction bs arbitrary: va s rule: measure_induct_rule [of length])
  case (less bs va s)
  show ?case
  proof (cases "bs = []")
    case True
    then show ?thesis by (auto simp: copyout.simps copied_def intro: exI [of _ "mem s"])
  next
    case False
    define off where "off = va mod 4096"
    define n where "n = min (4096 - off) (length bs)"
    have off: "off < 4096" by (simp add: off_def)
    have n: "0 < n" "n \<le> length bs" "off + n \<le> 4096" using False off by (auto simp: n_def)
    let ?va0 = "PGROUNDDOWN va" and ?m = "mem s"
    note pg = page_simps [of va, folded off_def PGROUNDDOWN_eq [of va, folded off_def]]
    have va0: "?va0 div 4096 = va div 4096" "va - ?va0 = off" "?va0 + 4096 = va + (4096 - off)"
      using page_simps [of va] by (simp_all add: PGROUNDDOWN_eq off_def)
    have px: "PDX ?va0 = PDX va"
    proof -
      have "v div 4194304 = v div 4096 div 1024" for v :: nat by (simp add: div_mult2_eq [symmetric])
      then show ?thesis using va0(1) by (simp add: PDX_eq)
    qed
    have ht: "odd (pde_at ?m dir (PDX ?va0))" "0 < table_at ?m dir (PDX ?va0)"
      using less.prems(3) False px by (auto simp: has_table_def)
    note ua = uva2ka_eq [OF ht, unfolded mapping_page [OF va0(1)]]
    show ?thesis
    proof (cases "user_ka ?m dir va")
      case None
      then have "uva2ka dir ?va0 s = Inr 0" using ua by (auto simp: user_ka_def split: option.splits if_splits)
      then have "copyout dir va bs s = Inr (-1, s)" using False by (subst copyout.simps) (simp add: Let_def)
      moreover have "\<not> (\<forall>i < length bs. user_ka ?m dir (va + i) \<noteq> None)" using None False by (auto intro: exI [of _ 0])
      ultimately show ?thesis by (auto simp: copied_def intro!: exI [of _ "mem s"])
    next
      case (Some A)
      then obtain e where e: "mapping ?m dir va = Some e" "e AND PTE_U \<noteq> 0" "A = P2V (PTE_ADDR e) + off"
        by (auto simp: user_ka_def off_def split: option.splits if_splits)
      let ?F = "P2V (PTE_ADDR e)"
      have "4096 \<le> A" using less.prems(2) Some by (simp add: tables_safe_def)
      then have F: "?F \<noteq> 0" using e(3) off by simp
      have pa: "uva2ka dir ?va0 s = Inr ?F" using ua e by simp
      have uk: "user_ka ?m dir (va + i) = Some (A + i)" if "i < n" for i
      proof -
        have "off + i < 4096" using that n(3) by simp
        then have "(va + i) div 4096 = va div 4096" "(va + i) mod 4096 = off + i" using page_simps(2,3) [of va i] by (simp_all add: off_def)
        then show ?thesis using mapping_page [of "va + i" va ?m dir] e by (simp add: user_ka_def)
      qed
      let ?m1 = "store_bytes A (take n bs) ?m"
      let ?s1 = "s\<lparr>mem := ?m1\<rparr>"
      have ln: "length (take n bs) = n" using n(2) by simp
      note su = store_user [OF less.prems(2), of "take n bs" va A, unfolded ln, OF uk]
      have cp: "copyout dir va bs s = copyout dir (u32 (int ?va0 + int PGSIZE)) (drop n bs) ?s1"
        using False F pa va0(2) e(3) by (subst copyout.simps) (simp add: Let_def n_def PGSIZE_def)
      have ch1: "\<exists>i < n. user_ka ?m dir (va + i) = Some a" if "?m1 a \<noteq> ?m a" for a
      proof -
        have "A \<le> a \<and> a < A + n" using that ln by (auto simp: store_bytes_def split: if_splits)
        then show ?thesis using uk [of "a - A"] by (intro exI [of _ "a - A"]) auto
      qed
      have in1: "?m1 (A + i) = bs ! i" if "i < n" for i using that n(2) by (simp add: store_bytes_def)
      show ?thesis
      proof (cases "n = length bs")
        case True
        then have "copyout dir va bs s = Inr (0, ?s1)" using cp by (simp add: copyout.simps)
        moreover have "copied dir va bs ?m 0 ?m1"
          using su(3) ch1 uk in1 True by (auto simp: copied_def)
        ultimately show ?thesis by auto
      next
        case False
        then have nn: "n = 4096 - off" "n < length bs" using n(2) by (auto simp: n_def)
        have va': "u32 (int ?va0 + int PGSIZE) = va + n"
        proof -
          have "int ?va0 + int PGSIZE = int (va + n)" using va0(3) nn(1) by (simp add: PGSIZE_def flip: of_nat_add)
          then show ?thesis using less.prems(1) nn(2) u32_int [of "va + n"] by simp
        qed
        have h1: "\<forall>i < length (drop n bs). has_table (mem ?s1) dir (va + n + i)"
          using less.prems(3) su(1,2) by (auto simp: has_table_def add.assoc)
        have "\<exists>r t. copyout dir (va + n) (drop n bs) ?s1 = Inr (r, t) \<and> (\<exists>m. t = ?s1\<lparr>mem := m\<rparr>) \<and> copied dir (va + n) (drop n bs) ?m1 r (mem t)"
          using less.IH [of "drop n bs" "va + n" ?s1] n(1) nn(2) less.prems(1) su(5) h1 by simp
        then obtain r m where t: "copyout dir (va + n) (drop n bs) ?s1 = Inr (r, s\<lparr>mem := m\<rparr>)" "copied dir (va + n) (drop n bs) ?m1 r m" by auto
        have uk1: "user_ka ?m1 dir vb = user_ka ?m dir vb" for vb by (rule su(4))
        note c = t(2) [unfolded copied_def uk1, simplified]
        have ch: "\<exists>i < length bs. user_ka ?m dir (va + i) = Some a" if "m a \<noteq> ?m a" for a
        proof (cases "m a = ?m1 a")
          case True
          then show ?thesis using that ch1 nn(2) by (metis less_trans)
        next
          case False
          then obtain i where "i < length bs - n" "user_ka ?m dir (va + n + i) = Some a" using c by auto
          then show ?thesis by (intro exI [of _ "n + i"]) (simp add: add.assoc)
        qed
        have split: "(\<forall>i < length bs. user_ka ?m dir (va + i) \<noteq> None) \<longleftrightarrow> (\<forall>i < length bs - n. user_ka ?m dir (va + n + i) \<noteq> None)"
        proof
          assume *: "\<forall>i < length bs - n. user_ka ?m dir (va + n + i) \<noteq> None"
          show "\<forall>i < length bs. user_ka ?m dir (va + i) \<noteq> None"
          proof (intro allI impI)
            fix i assume i: "i < length bs"
            show "user_ka ?m dir (va + i) \<noteq> None"
            proof (cases "i < n")
              case False
              then show ?thesis using * [rule_format, of "i - n"] i by simp
            qed (use uk in simp)
          qed
        qed (auto simp: add.assoc)
        have bytes: "m a = bs ! i"
          if inj: "inj_on (\<lambda>i. user_ka ?m dir (va + i)) {..<length bs}" and all: "\<forall>i < length bs. user_ka ?m dir (va + i) \<noteq> None"
            and i: "i < length bs" "user_ka ?m dir (va + i) = Some a" for i a
        proof (cases "i < n")
          case True
          then have a: "a = A + i" using uk i(2) by simp
          have "m a = ?m1 a"
          proof (rule ccontr)
            assume "m a \<noteq> ?m1 a"
            then obtain j where j: "j < length bs - n" "user_ka ?m dir (va + n + j) = Some a" using c by auto
            then have "user_ka ?m dir (va + (n + j)) = user_ka ?m dir (va + i)" using i(2) by (simp add: add.assoc)
            then have "n + j = i" using inj_onD [OF inj, of "n + j" i] j(1) i(1) by simp
            then show False using True by simp
          qed
          then show ?thesis using in1 [OF True] a by simp
        next
          case False
          have "inj_on (\<lambda>i. user_ka ?m dir (va + n + i)) {..<length bs - n}"
          proof (rule inj_onI)
            fix j k assume jk: "j \<in> {..<length bs - n}" "k \<in> {..<length bs - n}" "user_ka ?m dir (va + n + j) = user_ka ?m dir (va + n + k)"
            then have "n + j = n + k" using inj_onD [OF inj, of "n + j" "n + k"] by (simp add: add.assoc)
            then show "j = k" by simp
          qed
          moreover have "\<forall>i < length bs - n. user_ka ?m dir (va + n + i) \<noteq> None" using split all by blast
          ultimately have *: "\<forall>i < length bs - n. \<forall>a. user_ka ?m dir (va + n + i) = Some a \<longrightarrow> m a = bs ! (n + i)" using c by simp
          have "i - n < length bs - n" "va + n + (i - n) = va + i" "n + (i - n) = i" using False i(1) by simp_all
          then show ?thesis using * [rule_format, of "i - n" a] i(2) by simp
        qed
        have "\<forall>vb. mapping m dir vb = mapping ?m dir vb" using c su(3) by simp
        moreover have "r = 0" if "\<forall>i < length bs. user_ka ?m dir (va + i) \<noteq> None" using c split that by auto
        moreover have "r = -1" if "\<not> (\<forall>i < length bs. user_ka ?m dir (va + i) \<noteq> None)" using c split that by auto
        ultimately have "copied dir va bs ?m r m"
          unfolding copied_def using ch bytes by simp
        then show ?thesis using cp va' t(1) by auto
      qed
    qed
  qed
qed

text \<open>
  C7. copyout writes only where the process itself may write: if no page that the process may access holds its page tables,
  and every address of the range has a page table, then copyout returns; every byte of kernel memory that it changes is the
  image of an address of the range that is mapped for the user; it returns 0 exactly when the whole range is, and then
  the bytes of the range are the bytes given.
\<close>
theorem copyout_user_only:
  assumes "va + length bs \<le> 2 ^ 32" "tables_safe (mem s) dir" "\<forall>i < length bs. has_table (mem s) dir (va + i)"
  shows "\<exists>r t. copyout dir va bs s = Inr (r, t) \<and>
    (\<forall>a. mem t a \<noteq> mem s a \<longrightarrow> (\<exists>i < length bs. user_ka (mem s) dir (va + i) = Some a)) \<and>
    (r = 0 \<longleftrightarrow> (\<forall>i < length bs. user_ka (mem s) dir (va + i) \<noteq> None)) \<and>
    (r = 0 \<and> inj_on (\<lambda>i. user_ka (mem s) dir (va + i)) {..<length bs} \<longrightarrow>
       (\<forall>i < length bs. \<forall>a. user_ka (mem s) dir (va + i) = Some a \<longrightarrow> mem t a = bs ! i))"
proof -
  obtain r t where t: "copyout dir va bs s = Inr (r, t)" "copied dir va bs (mem s) r (mem t)"
    using copyout_ok [of va bs s dir] assms by auto
  show ?thesis using t unfolding copied_def by (intro exI [of _ r] exI [of _ t]) (auto split: if_splits)
qed

text \<open>
  C16. uva2ka reads the entry that walkpgdir finds without a test for a missing page table. For
  an address whose directory entry is not present it dereferences a null pointer, and so does copyout.
\<close>
theorem copyout_null_table:
  assumes "bs \<noteq> []" "even (pde_at (mem s) dir (PDX (PGROUNDDOWN va)))"
  shows "copyout dir va bs s = Inl (Undef ''null pointer'')"
  using assms uva2ka_unmapped [OF assms(2)] by (subst copyout.simps) (simp add: Let_def)

section \<open>A small address space\<close>

text \<open>A directory, one page table, and one user page at address 0.\<close>

definition vm0 :: kmem where
  "vm0 = kmem0\<lparr>freelist := 0x80203000, mem := store32 (store32 (\<lambda>_. nul) 0x80200000 0x201007) 0x80201000 0x202007\<rparr>"

lemma vm0_loads:
  assumes "a mod 4 = 0"
  shows "loadu (mem vm0) a = (if a = 0x80200000 then 0x201007 else if a = 0x80201000 then 0x202007 else 0)"
proof -
  obtain q where q: "a = 4 * q" using assms by (metis mod_0_imp_dvd dvdE)
  have d: "a + 4 \<le> b \<or> b + 4 \<le> a" if "a \<noteq> b" "b = 4 * c" for b c using that unfolding q by auto
  have z: "loadu (\<lambda>_. nul) a = 0" by (simp add: loadu_def load32_def)
  let ?m = "store32 (\<lambda>_. nul) 0x80200000 (int 0x201007)"
  have m: "mem vm0 = store32 ?m 0x80201000 (int 0x202007)" by (simp add: vm0_def)
  have one: "loadu ?m a = (if a = 0x80200000 then 0x201007 else 0)"
  proof (cases "a = 0x80200000")
    case True
    show ?thesis unfolding True using loadu_store [of "0x201007"] by simp
  next
    case False
    then show ?thesis using loadu_store_other [OF d [OF False, of 537395200], of "\<lambda>_. nul"] z by simp
  qed
  show ?thesis
  proof (cases "a = 0x80201000")
    case True
    show ?thesis unfolding m True using loadu_store [of "0x202007"] by simp
  next
    case False
    then show ?thesis unfolding m using loadu_store_other [OF d [OF False, of 537396224], of ?m] one by simp
  qed
qed

lemma vm0_pde: "i < 1024 \<Longrightarrow> pde_at (mem vm0) 0x80200000 i = (if i = 0 then 0x201007 else 0)"
  using vm0_loads [of "0x80200000 + 4 * i"] by (simp add: pde_at_def)

lemma vm0_table: "table_at (mem vm0) 0x80200000 0 = 0x80201000"
  using vm0_pde [of 0] by (simp add: table_at_def PTE_ADDR_eq P2V_def KERNBASE_def)

lemma vm0_mapping: "mapping (mem vm0) 0x80200000 va = (if PDX va = 0 \<and> PTX va = 0 then Some 0x202007 else None)"
proof (cases "PDX va = 0")
  case True
  have "loadu (mem vm0) (0x80201000 + 4 * PTX va) = (if PTX va = 0 then 0x202007 else 0)"
    using vm0_loads [of "0x80201000 + 4 * PTX va"] by simp
  then show ?thesis using vm0_pde [of 0] vm0_table unfolding mapping_def True by (cases "PTX va = 0") (simp_all add: Let_def)
next
  case False
  then show ?thesis using vm0_pde [OF PDX_less, of va] by (simp add: mapping_def)
qed

lemma vm0_user: "user_ka (mem vm0) 0x80200000 va = (if PDX va = 0 \<and> PTX va = 0 then Some (0x80202000 + va mod 4096) else None)"
  by (simp add: user_ka_def vm0_mapping PTE_ADDR_eq P2V_def KERNBASE_def PTE_U_def)

lemma vm0_inv: "vm_inv vm0 0x80200000 [0x80203000]"
proof -
  have p: "page_ok (kend vm0) a" if "a \<in> {0x80200000, 0x80201000, 0x80203000}" for a
    using that by (auto simp: page_ok_def vm0_def kmem0_def V2P_def KERNBASE_def PHYSTOP_def)
  have "kmem_ready vm0" using kmem0_ok(1) by (simp add: vm0_def kmem_ready_def)
  moreover have "free_pages vm0 [0x80203000]"
    using p vm0_loads [of "0x80203000"] by (simp add: free_pages_def loadu_def) (simp add: vm0_def)
  moreover have "KERNBASE \<le> kend vm0" by (simp add: vm0_def kmem0_def KERNBASE_def)
  moreover have "pt_ok vm0 0x80200000 [0x80203000]"
    using p vm0_table by (auto simp: pt_ok_def vm0_pde split: if_splits)
  ultimately show ?thesis by (simp add: vm_inv_def)
qed

lemma vm0_safe: "tables_safe (mem vm0) 0x80200000"
proof -
  have "m mod 4096 < 4096" for m :: nat by simp
  then show ?thesis
    by (auto simp: tables_safe_def vm0_user vm0_pde vm0_table not_less split: if_splits)
qed

theorem mappages_maps_witness:
  "\<exists>r t. mappages 0x80200000 8192 (4096 * 1) 0x400000 (PTE_W OR PTE_U) vm0 = Inr (r, t) \<and>
    (r = 0 \<longrightarrow> mapping (mem t) 0x80200000 8192 = Some 0x400007) \<and> mapping (mem t) 0x80200000 0 = Some 0x202007"
proof -
  have n: "\<forall>vb. 8192 \<le> vb \<and> vb < 8192 + 4096 * 1 \<longrightarrow> mapping (mem vm0) 0x80200000 vb = None"
  proof (intro allI impI)
    fix vb :: nat assume "8192 \<le> vb \<and> vb < 8192 + 4096 * 1"
    then have "vb div 4096 = 2" using page_of [of 8192 vb] by simp
    then show "mapping (mem vm0) 0x80200000 vb = None" by (simp add: vm0_mapping PTX_eq)
  qed
  have z: "mapping (mem vm0) 0x80200000 0 = Some 0x202007" by (simp add: vm0_mapping PDX_eq PTX_eq)
  show ?thesis
    using mappages_maps [OF vm0_inv, of 8192 "0x400000" 1 "PTE_W OR PTE_U"] n z
    by (fastforce simp: PTE_W_def PTE_U_def PTE_P_def)
qed

theorem copyout_user_only_witness:
  "\<exists>r t. copyout 0x80200000 16 ''hi'' vm0 = Inr (r, t) \<and> r = 0 \<and> mem t 0x80202010 = CHR ''h''"
proof -
  let ?u = "\<lambda>i. user_ka (mem vm0) 0x80200000 (16 + i)"
  have h: "\<forall>i < length ''hi''. has_table (mem vm0) 0x80200000 (16 + i)"
    using vm0_pde [of 0] vm0_table by (auto simp: has_table_def PDX_eq)
  have u: "?u i = Some (0x80202010 + i)" if "i < length ''hi''" for i
    using that by (simp add: vm0_user PDX_eq PTX_eq)
  have l: "16 + length ''hi'' \<le> (2 :: nat) ^ 32" by simp
  obtain r t where t: "copyout 0x80200000 16 ''hi'' vm0 = Inr (r, t)" "r = 0 \<longleftrightarrow> (\<forall>i < length ''hi''. ?u i \<noteq> None)"
    "r = 0 \<and> inj_on ?u {..<length ''hi''} \<longrightarrow> (\<forall>i < length ''hi''. \<forall>a. ?u i = Some a \<longrightarrow> mem t a = ''hi'' ! i)"
    using copyout_user_only [OF l vm0_safe h] by blast
  have r: "r = 0" using t(2) u by simp
  have "inj_on ?u {..<length ''hi''}" by (rule inj_onI) (simp only: lessThan_iff u option.inject add_left_cancel)
  then have "mem t (0x80202010 + 0) = ''hi'' ! 0" using t(3) r u [of 0] by blast
  then show ?thesis using t(1) r by auto
qed

theorem copyout_null_table_witness:
  "copyout 0x80200000 0x400000 ''hi'' vm0 = Inl (Undef ''null pointer'')"
  using copyout_null_table [of "''hi''" vm0 "0x80200000" "0x400000"] vm0_pde [of 1] by (simp add: PGROUNDDOWN_eq PDX_eq)

end
