(* ===== verification/Spec2Isabelle.thy ===== *)
theory Spec2Isabelle
  imports ConsoleProps ShellProps UserProps Kbd Boot Pipe Vm
begin

text \<open>
  A verification library for an xv6 kernel on the x86 whose console has a line editor with
  completion, selection, clipboard and undo, and for its user programs, among them find_sum. File names below are names under
  src/.

  \<^item> The program and its parts. Keyboard and serial interrupts (kbd.c, uart.c) hand their bytes to the line editor of
  console.c, which echoes on the screen and wakes up a reader when a line is complete. The shell (sh.c) reads lines
  through gets (ulib.c), parses them and starts programs. Below the system calls are the process table and
  the scheduler (proc.c), pipes (pipe.c), page tables (vm.c) over the page allocator (kalloc.c), and the storage stack: the
  log (log.c) over the buffer cache (bio.c), whose buffers have sleep locks (sleeplock.c), over the memory disk
  (memide.c). All of it rests on spin locks (spinlock.c) and on the memory routines of string.c.

  \<^item> How code is modelled. A C function is a HOL function of its name that takes the state and returns a result of type
  \<open>res\<close> (Prelude): a value, or the reason why it does not return: a panic, a spin on a lock that another CPU
  holds, sleep, behaviour that C leaves undefined, or a halted machine. The state is a chain of records, each of which extends the one before:
  CPUs and locks (Spinlock), memory and free list (Kalloc), the process table (Proc), console and
  screen (Cga), the tables of the storage stack (Kstate). So an operation of a lower component
  applies to every larger state and leaves the rest of it alone. A \<open>uint\<close> is a natural number that is reduced
  by \<open>u32\<close> where it can wrap around, an \<open>int\<close> is an integer that is reduced by \<open>i32\<close> or tested for overflow.
  Memory is a function from addresses to bytes. A function that calls swtch is split at that call, because
  other processes run in between. User programs are trees of system calls that branch on the results.

  \<^item> Prelude, CString, Ring, Bytes: results and loops; string.c and the string routines of ulib.c; rings indexed
  by counters; fields of a block. CString shows that memmove copies the source as it was, overlapping or
  not, that memset writes its range and nothing else, and that safestrcpy terminates its copy within the
  buffer; it also shows where the forward-only memmove of the user library agrees with it.

  \<^item> Spinlock (spinlock.c; mycpu of proc.c): mutual exclusion in all interleavings of acquire and release, as an
  inductive step relation; the interrupt flag and the nesting count after a critical section. The locale
  \<open>lock_api\<close> is the contract that clients use.

  \<^item> Kalloc (kalloc.c): the free list inside the free pages. The invariant says that the chain of pages is a list of
  distinct usable pages; kalloc and kfree are inverse to each other (locale \<open>page_alloc\<close>).

  \<^item> Proc (proc.c; switchuvm and switchkvm of vm.c): an invariant of all reachable states, one CPU for each running
  process, and that a wakeup after a sleep is not lost.

  \<^item> Cga, Console, Editor, EditorKeys, ConsoleProps (console.c; uartputc of uart.c): the screen and cprintf; consoleintr
  key by key; an abstract editor on a string with a cursor; the simulation of it by every key but
  Tab; the reader; undo; and three corners in which the code leaves its contract.

  \<^item> Kbd (kbd.c, kbd.h, uart.c): the scan code decoder and its tables. The locale \<open>key_source\<close> is what consoleintr
  relies on in its getc argument; both devices provide it, so the interrupt handlers return.

  \<^item> Shell, ShellPrint, ShellRun, ShellProps (sh.c): tokenizer, parser and NUL termination; a printer of
  commands with the parse/print round trip; runcmd against a plan of programs and file descriptors; the two combined
  from the text of a line to the programs run.

  \<^item> UProg, Grep, FindSum, UserProps (printf.c, echo.c, ln.c, mkdir.c, rm.c, kill.c, zombie.c, cat.c, wc.c, grep.c, find_sum.c): counts
  of wc, the matcher of grep against a language of patterns, the lines grep prints for any division
  of its input into reads, the sum that find_sum writes, and the two versions of printint.

  \<^item> Kstate, Sleeplock, Bio, Log (sleeplock.c, memide.c, bio.c, log.c; readsb of fs.c): the storage stack, with the linked list of
  the buffer cache by its pointers. Kstate has the relation \<open>mv\<close> by which a specification says what an
  operation does to the storage, which locks it ends with, and that the rest is unchanged.

  \<^item> Crash, LogTx, Boot, Blocks (log.c, bio.c): a crash keeps a prefix of the block writes issued. Crash
  has the argument on lists of writes and the triples of the functions of log.c, LogTx the invariant between
  operations and the histories of transactions, Boot the start of the machine and recovery. The outcome is crash
  safety for every history and every cut, and the refinement of an array of blocks by the buffer cache (locale \<open>block_store\<close>). Two
  theorems show how the reservation of begin_op and the size of the cache are too small by one.

  \<^item> Fifo, Pipe (pipe.c): a pipe is a queue (locale \<open>fifo\<close>), also when its counters wrap around.

  \<^item> Vm (vm.c, mmu.h, memlayout.h): page tables in the byte memory. mappages installs exactly the mappings it is asked for;
  copyout writes only where the process may, provided that the range has page tables.

  \<^item> Bounds and fuel. Loops with a structural bound recurse on it. The walks around the buffer list have
  NBUF + 1 steps, one more than the list has buffers, and the invariant of the cache shows that they
  end before. mappages has one unit of fuel for each page of its range; the other loops of vm.c have enough for
  every size up to KERNBASE, beyond which more fuel changes nothing (Vm, \<open>dealloc_fuel\<close>, \<open>alloc_fuel\<close>, \<open>copy_fuel\<close>). The
  parser of the shell is shown to return on every line.

  \<^item> Parameters. The function from which consoleintr fetches keys, the linker symbols \<open>end\<close> and \<open>data\<close>, what read returns to a
  user program (a list of chunks), and the results of system calls in general are arguments.

  \<^item> What is not modelled. Inodes, directories and path names (fs.c beyond readsb), the file table and the system
  calls (file.c, sysfile.c, sysproc.c, syscall.c), exec.c, traps (trap.c), and of proc.c userinit, growproc, fork, exit and
  wait; pipealloc; seginit and loaduvm of vm.c; umalloc.c, ls.c and init.c. The drivers
  ide.c, lapic.c, ioapic.c, picirq.c and mp.c, and the boot code are accesses to device registers and tables of the
  BIOS. mkfs.c runs on the host, and usertests.c, forktest.c and stressfs.c are tests. The
  processors of the lock and scheduler theorems interleave between calls of the operations modelled, not
  between instructions; the storage theorems follow one process at a time, with the buffers of others held.
\<close>

end
